(* ===== verification/Prelude.thy ===== *)
theory Prelude
  imports Main "HOL-Library.Word" "HOL-Library.Monad_Syntax" "HOL-Library.Multiset"
begin

unbundle bit_operations_syntax

section \<open>Prelude: Go values, slices and wire codecs\<close>

text \<open>
  What the components share. A Go \<open>byte\<close> is an \<open>8 word\<close>, a byte slice a list of them.
  An operation that may panic (an index or slice bound, an explicit \<open>panic\<close>) returns an
  \<open>option\<close>: \<open>None\<close> is the panic, and, for a loop defined by
  \<^theory_text>\<open>partial_function\<close>, also not returning, so \<open>Some\<close> always means that the
  call returned normally. A Go \<open>error\<close> result is the left part of a sum.
  The second half holds the contracts that several components implement: a FIFO queue
  and a self-delimiting codec.
\<close>

named_theorems go_simps \<open>unfolding rules of the Go run-time helpers\<close>

type_synonym byte = "8 word"
type_synonym bytes = "8 word list"

text \<open>
  Go \<open>error\<close> values: the sentinels of package \<open>io\<close> that the code compares with or returns,
  and an error built from a message. \<open>RuntimePanic\<close> is a panic met while reading through
  a connection, where the result has no other room for it.
\<close>

datatype go_error = EOF | ErrUnexpectedEOF | ErrShortWrite | RuntimePanic | Err string

subsection \<open>Slices\<close>

text \<open>
  \<open>go_copy dst src\<close> is the destination after Go's \<open>copy(dst, src)\<close>, which moves
  \<open>min (len dst) (len src)\<close> elements; \<open>go_slice xs lo hi\<close> is \<open>xs[lo:hi]\<close>, which
  panics unless \<open>lo <= hi <= len xs\<close> (here the capacity equals the length).
\<close>

definition go_copy :: "'a list \<Rightarrow> 'a list \<Rightarrow> 'a list" where
  "go_copy dst src = take (length dst) src @ drop (length src) dst"

definition go_slice :: "'a list \<Rightarrow> nat \<Rightarrow> nat \<Rightarrow> 'a list option" where
  "go_slice xs lo hi =
     (if lo \<le> hi \<and> hi \<le> length xs then Some (take (hi - lo) (drop lo xs)) else None)"

definition go_index :: "'a list \<Rightarrow> nat \<Rightarrow> 'a option" where
  "go_index xs i = (if i < length xs then Some (xs ! i) else None)"

text \<open>Go's remainder takes the sign of the dividend, its quotient truncates.\<close>

definition go_rem :: "int \<Rightarrow> int \<Rightarrow> int" where
  "go_rem a b = sgn a * (\<bar>a\<bar> mod \<bar>b\<bar>)"

definition go_quot :: "int \<Rightarrow> int \<Rightarrow> int" where
  "go_quot a b = sgn a * sgn b * (\<bar>a\<bar> div \<bar>b\<bar>)"

lemma length_go_copy [simp]: "length (go_copy dst src) = length dst"
  by (simp add: go_copy_def)

lemma go_copy_fits: "length src \<le> length dst \<Longrightarrow> go_copy dst src = src @ drop (length src) dst"
  by (simp add: go_copy_def)

lemma go_copy_Nil [simp]: "go_copy dst [] = dst"
  by (simp add: go_copy_def)

lemma map_upt_nth: "map (\<lambda>i. f (xs ! i)) [0..<length xs] = map f xs"
  by (rule nth_equalityI) simp_all

lemma go_index_Some [simp]: "i < length xs \<Longrightarrow> go_index xs i = Some (xs ! i)"
  by (simp add: go_index_def)

lemma go_index_None [simp]: "length xs \<le> i \<Longrightarrow> go_index xs i = None"
  by (simp add: go_index_def)

lemma go_rem_nonneg [simp]: "0 \<le> a \<Longrightarrow> 0 < b \<Longrightarrow> go_rem a b = a mod b"
  by (cases "a = 0") (simp_all add: go_rem_def)

lemma go_quot_nonneg [simp]: "0 \<le> a \<Longrightarrow> 0 < b \<Longrightarrow> go_quot a b = a div b"
  by (cases "a = 0") (simp_all add: go_quot_def)

subsection \<open>Circular indices\<close>

lemma wrap_mod: "h < n \<Longrightarrow> i \<le> (n::nat) \<Longrightarrow> (h + i) mod n = (if h + i < n then h + i else h + i - n)"
  by (auto simp: mod_if)

lemma wrap_mod_inj:
  assumes "h < (n::nat)" "i < n" "j < n" "(h + i) mod n = (h + j) mod n"
  shows "i = j"
proof (cases "h + i < n"; cases "h + j < n")
qed (use assms in \<open>auto simp: wrap_mod\<close>)

subsection \<open>Big-endian integers\<close>

definition put_u16 :: "16 word \<Rightarrow> bytes" where
  "put_u16 w = [ucast (drop_bit 8 w), ucast w]"

definition get_u16 :: "byte \<Rightarrow> byte \<Rightarrow> 16 word" where
  "get_u16 a b = push_bit 8 (ucast a) OR ucast b"

definition put_u32 :: "32 word \<Rightarrow> bytes" where
  "put_u32 w = [ucast (drop_bit 24 w), ucast (drop_bit 16 w), ucast (drop_bit 8 w), ucast w]"

definition get_u32 :: "byte \<Rightarrow> byte \<Rightarrow> byte \<Rightarrow> byte \<Rightarrow> 32 word" where
  "get_u32 a b c d =
     push_bit 24 (ucast a) OR push_bit 16 (ucast b) OR push_bit 8 (ucast c) OR ucast d"

lemma length_put_u16 [simp]: "length (put_u16 w) = 2"
  by (simp add: put_u16_def)

lemma length_put_u32 [simp]: "length (put_u32 w) = 4"
  by (simp add: put_u32_def)

lemma get_put_u16 [simp]: "get_u16 (ucast (drop_bit 8 w)) (ucast (w :: 16 word)) = w"
  by (rule bit_word_eqI) (auto simp: get_u16_def bit_simps)

lemma byte_below:
  assumes "list_all P (map word_of_nat [0..<n])" "unat b < n"
  shows "P (b :: byte)"
proof -
  have "word_of_nat (unat b) \<in> set (map word_of_nat [0..<n] :: byte list)"
    unfolding set_map using assms(2) by (intro imageI) simp
  with assms(1) show ?thesis by (auto simp: list_all_iff)
qed

lemma byte_bit_ge [simp]: "8 \<le> n \<Longrightarrow> \<not> bit (a :: byte) n"
  using bit_imp_le_length [of a n] by auto

lemma put_get_u16: "put_u16 (get_u16 a b) = [a, b]"
  by (auto simp: put_u16_def get_u16_def bit_simps intro!: bit_word_eqI)

lemma get_put_u32 [simp]:
  "get_u32 (ucast (drop_bit 24 w)) (ucast (drop_bit 16 w)) (ucast (drop_bit 8 w))
     (ucast (w :: 32 word)) = w"
proof (rule bit_word_eqI)
  fix n assume "n < LENGTH(32)"
  then consider "n < 8" | "8 \<le> n" "n < 16" | "16 \<le> n" "n < 24" | "24 \<le> n" "n < 32"
    by fastforce
  then show "bit (get_u32 (ucast (drop_bit 24 w)) (ucast (drop_bit 16 w))
      (ucast (drop_bit 8 w)) (ucast w)) n = bit w n"
    by cases (auto simp: get_u32_def bit_simps)
qed

subsection \<open>Cutting a list into chunks\<close>

lemma frag_count_iff:
  assumes "0 < (k :: nat)"
  shows "i < (n + k - 1) div k \<longleftrightarrow> i * k < n"
proof -
  have "i < (n + k - 1) div k \<longleftrightarrow> Suc i * k \<le> n + k - 1"
    using less_eq_div_iff_mult_less_eq [OF assms, of "Suc i" "n + k - 1"] by (simp add: Suc_le_eq)
  also have "\<dots> \<longleftrightarrow> i * k < n" using assms by auto
  finally show ?thesis .
qed

lemma concat_chunks: "concat (map (\<lambda>i. take k (drop (i * k) xs)) [0..<n]) = take (n * k) xs"
  by (induction n) (simp_all add: take_add [symmetric] add.commute)

lemma mset_upt_perm: "mset is = mset [0..<n] \<Longrightarrow> distinct is \<and> set is = {..<n} \<and> length is = n"
  by (metis atLeast_upt distinct_upt mset_eq_imp_distinct_iff mset_eq_setD mset_eq_length length_upt diff_zero)

subsection \<open>The contract of a FIFO queue\<close>

primrec push_all :: "('q \<Rightarrow> 'a \<Rightarrow> 'q option) \<Rightarrow> 'q \<Rightarrow> 'a list \<Rightarrow> 'q option" where
  "push_all push q [] = Some q"
| "push_all push q (x # xs) = Option.bind (push q x) (\<lambda>q'. push_all push q' xs)"

primrec pop_n :: "('q \<Rightarrow> ('a \<times> 'q) option) \<Rightarrow> nat \<Rightarrow> 'q \<Rightarrow> ('a list \<times> 'q) option" where
  "pop_n pop 0 q = Some ([], q)"
| "pop_n pop (Suc n) q = do {
     (x, q') \<leftarrow> pop q;
     (xs, q'') \<leftarrow> pop_n pop n q';
     Some (x # xs, q'') }"

locale fifo =
  fixes wf :: "'q \<Rightarrow> bool"
    and els :: "'q \<Rightarrow> 'a list"
    and push :: "'q \<Rightarrow> 'a \<Rightarrow> 'q option"
    and pop :: "'q \<Rightarrow> ('a \<times> 'q) option"
  assumes push_law: "wf q \<Longrightarrow> \<exists>q'. push q x = Some q' \<and> wf q' \<and> els q' = els q @ [x]"
    and pop_law: "wf q \<Longrightarrow> els q = x # xs \<Longrightarrow> \<exists>q'. pop q = Some (x, q') \<and> wf q' \<and> els q' = xs"
    and pop_empty: "wf q \<Longrightarrow> els q = [] \<Longrightarrow> pop q = None"
begin

lemma push_all_law:
  "wf q \<Longrightarrow> \<exists>q'. push_all push q xs = Some q' \<and> wf q' \<and> els q' = els q @ xs"
proof (induction xs arbitrary: q)
  case Nil
  then show ?case by simp
next
  case (Cons x xs)
  obtain q1 where q1: "push q x = Some q1" "wf q1" "els q1 = els q @ [x]"
    using push_law [OF Cons.prems] by blast
  with Cons.IH [of q1] show ?case by auto
qed

lemma pop_n_law:
  "wf q \<Longrightarrow> n \<le> length (els q) \<Longrightarrow>
     \<exists>q'. pop_n pop n q = Some (take n (els q), q') \<and> wf q' \<and> els q' = drop n (els q)"
proof (induction n arbitrary: q)
  case 0
  then show ?case by simp
next
  case (Suc n)
  then obtain x xs where xs: "els q = x # xs" by (cases "els q") auto
  obtain q1 where q1: "pop q = Some (x, q1)" "wf q1" "els q1 = xs"
    using pop_law [OF Suc.prems(1) xs] by blast
  with Suc.IH [of q1] Suc.prems xs show ?case by auto
qed

lemma fifo_order:
  assumes "wf q"
  shows "\<exists>q1 q2. push_all push q xs = Some q1 \<and>
    pop_n pop (length (els q) + length xs) q1 = Some (els q @ xs, q2) \<and> pop q2 = None"
proof -
  obtain q1 where q1: "push_all push q xs = Some q1" "wf q1" "els q1 = els q @ xs"
    using push_all_law [OF assms] by blast
  obtain q2 where "pop_n pop (length (els q) + length xs) q1 = Some (els q @ xs, q2)"
      "wf q2" "els q2 = []"
    using pop_n_law [OF q1(2), of "length (els q) + length xs"] q1(3) by auto
  with q1 pop_empty show ?thesis by blast
qed

end

subsection \<open>The contract of a self-delimiting wire format\<close>

text \<open>
  An encoder and a decoder that reads one value off the front of its input and returns
  the unread rest. \<open>prefix_codec\<close> is what a sender relies on, \<open>exact_codec\<close> adds that
  the decoder accepts nothing but encodings.
\<close>

primrec dec_n :: "('b list \<Rightarrow> 'e + 'a \<times> 'b list) \<Rightarrow> nat \<Rightarrow> 'b list \<Rightarrow> 'e + 'a list \<times> 'b list" where
  "dec_n dec 0 bs = Inr ([], bs)"
| "dec_n dec (Suc n) bs =
     (case dec bs of
        Inl e \<Rightarrow> Inl e
      | Inr (x, bs') \<Rightarrow>
          (case dec_n dec n bs' of Inl e \<Rightarrow> Inl e | Inr (xs, bs'') \<Rightarrow> Inr (x # xs, bs'')))"

locale prefix_codec =
  fixes valid :: "'a \<Rightarrow> bool"
    and enc :: "'a \<Rightarrow> 'b list"
    and dec :: "'b list \<Rightarrow> 'e + 'a \<times> 'b list"
  assumes dec_enc: "valid x \<Longrightarrow> dec (enc x @ rest) = Inr (x, rest)"
begin

lemma enc_prefix_free:
  assumes "valid x" "valid y" "enc x @ r = enc y @ s"
  shows "x = y \<and> r = s"
proof -
  have "Inr (x, r) = dec (enc x @ r)" by (rule dec_enc [OF assms(1), symmetric])
  also have "\<dots> = Inr (y, s)" unfolding assms(3) by (rule dec_enc [OF assms(2)])
  finally show ?thesis by simp
qed

lemma enc_inj: "valid x \<Longrightarrow> valid y \<Longrightarrow> enc x = enc y \<Longrightarrow> x = y"
  using enc_prefix_free [of x y "[]" "[]"] by simp

lemma dec_stream:
  "list_all valid xs \<Longrightarrow> dec_n dec (length xs) (concat (map enc xs) @ rest) = Inr (xs, rest)"
  by (induction xs) (simp_all add: dec_enc)

end

locale exact_codec = prefix_codec valid enc dec
  for valid :: "'a \<Rightarrow> bool" and enc :: "'a \<Rightarrow> 'b list" and dec :: "'b list \<Rightarrow> 'e + 'a \<times> 'b list" +
  assumes dec_sound: "dec bs = Inr (x, rest) \<Longrightarrow> valid x \<and> bs = enc x @ rest"
begin

lemma dec_iff: "dec bs = Inr (x, rest) \<longleftrightarrow> valid x \<and> bs = enc x @ rest"
  by (auto dest: dec_sound simp: dec_enc)

end

end
