(* ===== verification/RingBuffer.thy ===== *)
theory RingBuffer
  imports Prelude
begin

section \<open>The growable ring buffer of the BBR sampler\<close>

text \<open>
  Models \<open>protocol/tuic/congestion/bbr/ringbuffer.go\<close>. The element type's zero value is
  the argument \<open>z\<close> of the operations that write it. \<open>Offset\<close>, \<open>Front\<close> and \<open>Back\<close>
  return pointers into the backing array; here they return the slot's index in \<open>ring\<close>.
  \<open>rb_list\<close> is the abstraction to the queue's contents in order.
\<close>

record 'a RingBuffer =
  ring :: "'a list"
  headPos :: nat
  tailPos :: nat
  full :: bool

definition rb_Init :: "'a \<Rightarrow> nat \<Rightarrow> 'a RingBuffer" where
  "rb_Init z sz = \<lparr>ring = replicate sz z, headPos = 0, tailPos = 0, full = False\<rparr>"

definition rb_Cap :: "'a RingBuffer \<Rightarrow> nat" where
  "rb_Cap r = length (ring r)"

definition rb_Len :: "'a RingBuffer \<Rightarrow> nat" where
  "rb_Len r =
     (if full r then length (ring r)
      else if tailPos r \<ge> headPos r then tailPos r - headPos r
      else tailPos r + length (ring r) - headPos r)"

definition rb_Empty :: "'a RingBuffer \<Rightarrow> bool" where
  "rb_Empty r \<longleftrightarrow> \<not> full r \<and> headPos r = tailPos r"

definition rb_ShrinkTo :: "'a \<Rightarrow> 'a RingBuffer \<Rightarrow> int \<Rightarrow> 'a RingBuffer option" where
  "rb_ShrinkTo z r sz =
     (let n = rb_Len r in
      if sz < 1 \<or> sz < int n \<or> sz \<ge> int (length (ring r)) then Some r
      else
        let shrunk = replicate (nat sz) z in
        do {
          shrunk' \<leftarrow>
            (if n > 0 then
               if headPos r + n \<le> length (ring r) then do {
                 live \<leftarrow> go_slice (ring r) (headPos r) (headPos r + n);
                 Some (go_copy shrunk live) }
               else do {
                 tailpart \<leftarrow> go_slice (ring r) (headPos r) (length (ring r));
                 let head = min (length shrunk) (length tailpart);
                 front \<leftarrow> go_slice (ring r) 0 (n - head);
                 let s1 = go_copy shrunk tailpart;
                 Some (take head s1 @ go_copy (drop head s1) front) }
             else Some shrunk);
          Some \<lparr>ring = shrunk', headPos = 0, tailPos = n mod nat sz, full = (int n = sz)\<rparr> })"

text \<open>\<open>grow\<close> doubles the backing array (the caller guarantees that the buffer is full).\<close>

definition rb_grow :: "'a \<Rightarrow> 'a RingBuffer \<Rightarrow> 'a RingBuffer option" where
  "rb_grow z r =
     (let oldRing = ring r;
          newSize = (if length oldRing * 2 = 0 then 1 else length oldRing * 2) in
      do {
        back \<leftarrow> go_slice oldRing (headPos r) (length oldRing);
        front \<leftarrow> go_slice oldRing 0 (headPos r);
        let ring1 = go_copy (replicate newSize z) back;
        let headLen = min newSize (length back);
        let ring2 = take headLen ring1 @ go_copy (drop headLen ring1) front;
        Some \<lparr>ring = ring2, headPos = 0, tailPos = length oldRing, full = False\<rparr> })"

definition rb_PushBack :: "'a \<Rightarrow> 'a RingBuffer \<Rightarrow> 'a \<Rightarrow> 'a RingBuffer option" where
  "rb_PushBack z r t = do {
     r1 \<leftarrow> (if full r \<or> length (ring r) = 0 then rb_grow z r else Some r);
     if tailPos r1 < length (ring r1) then
       let ring' = (ring r1)[tailPos r1 := t];
           tail' = (if tailPos r1 + 1 = length ring' then 0 else tailPos r1 + 1) in
       Some (r1\<lparr>ring := ring', tailPos := tail',
               full := (if tail' = headPos r1 then True else full r1)\<rparr>)
     else None }"

definition rb_PopFront :: "'a \<Rightarrow> 'a RingBuffer \<Rightarrow> ('a \<times> 'a RingBuffer) option" where
  "rb_PopFront z r =
     (if rb_Empty r then None
      else do {
        t \<leftarrow> go_index (ring r) (headPos r);
        let ring' = (ring r)[headPos r := z];
        let head' = (if headPos r + 1 = length ring' then 0 else headPos r + 1);
        Some (t, r\<lparr>full := False, ring := ring', headPos := head'\<rparr>) })"

definition rb_Offset :: "'a RingBuffer \<Rightarrow> int \<Rightarrow> nat option" where
  "rb_Offset r index =
     (if rb_Empty r \<or> index \<ge> int (rb_Len r) then None
      else if length (ring r) = 0 then None
      else
        let offset = go_rem (int (headPos r) + index) (int (length (ring r))) in
        if 0 \<le> offset \<and> offset < int (length (ring r)) then Some (nat offset) else None)"

definition rb_Front :: "'a RingBuffer \<Rightarrow> nat option" where
  "rb_Front r =
     (if rb_Empty r then None
      else if headPos r < length (ring r) then Some (headPos r) else None)"

definition rb_Back :: "'a RingBuffer \<Rightarrow> nat option" where
  "rb_Back r = (if rb_Empty r then None else rb_Offset r (int (rb_Len r) - 1))"

definition rb_Clear :: "'a \<Rightarrow> 'a RingBuffer \<Rightarrow> 'a RingBuffer" where
  "rb_Clear z r = \<lparr>ring = map (\<lambda>_. z) (ring r), headPos = 0, tailPos = 0, full = False\<rparr>"

subsection \<open>Invariant and abstraction\<close>

definition rb_wf :: "'a RingBuffer \<Rightarrow> bool" where
  "rb_wf r \<longleftrightarrow>
     (if ring r = [] then headPos r = 0 \<and> tailPos r = 0 \<and> \<not> full r
      else headPos r < length (ring r) \<and> tailPos r < length (ring r) \<and>
           (full r \<longrightarrow> headPos r = tailPos r))"

definition rb_slot :: "'a RingBuffer \<Rightarrow> nat \<Rightarrow> nat" where
  "rb_slot r i = (headPos r + i) mod length (ring r)"

definition rb_list :: "'a RingBuffer \<Rightarrow> 'a list" where
  "rb_list r = map (\<lambda>i. ring r ! rb_slot r i) [0..<rb_Len r]"

lemma length_rb_list [simp]: "length (rb_list r) = rb_Len r"
  by (simp add: rb_list_def)

lemma nth_rb_list [simp]: "i < rb_Len r \<Longrightarrow> rb_list r ! i = ring r ! rb_slot r i"
  by (simp add: rb_list_def)

lemma rb_Len_le: "rb_wf r \<Longrightarrow> rb_Len r \<le> length (ring r)"
  by (auto simp: rb_wf_def rb_Len_def split: if_splits)

lemma rb_Empty_iff: "rb_wf r \<Longrightarrow> rb_Empty r \<longleftrightarrow> rb_list r = []"
  by (auto simp: rb_wf_def rb_Len_def rb_Empty_def rb_list_def split: if_splits)

lemma rb_Len_0_iff: "rb_wf r \<Longrightarrow> rb_Len r = 0 \<longleftrightarrow> rb_Empty r"
  by (simp add: rb_Empty_iff rb_list_def)

lemma rb_wf_Init [simp]: "rb_wf (rb_Init z n)"
  by (auto simp: rb_wf_def rb_Init_def)

lemma rb_list_Init [simp]: "rb_list (rb_Init z n) = []"
  by (simp add: rb_list_def rb_Init_def rb_Len_def)

lemma rb_wf_Clear: "rb_wf (rb_Clear z r) \<and> rb_list (rb_Clear z r) = []"
  by (auto simp: rb_wf_def rb_Clear_def rb_list_def rb_Len_def)

text \<open>
  The unwrapped view: the live elements are the tail of the array from the head on,
  followed, when they wrap, by the array's beginning.
\<close>

lemma rb_list_contig:
  assumes "rb_wf r" "headPos r + rb_Len r \<le> length (ring r)"
  shows "rb_list r = take (rb_Len r) (drop (headPos r) (ring r))"
proof (cases "ring r = []")
  case True
  then show ?thesis using assms by (auto simp: rb_list_def rb_wf_def rb_Len_def)
next
  case False
  then show ?thesis
    using assms by (intro nth_equalityI) (auto simp: rb_slot_def)
qed

lemma rb_list_wrapped:
  assumes "rb_wf r" "length (ring r) < headPos r + rb_Len r"
  shows "rb_list r =
    drop (headPos r) (ring r) @ take (rb_Len r + headPos r - length (ring r)) (ring r)"
proof (rule nth_equalityI)
  have ne: "headPos r < length (ring r)"
    using assms by (auto simp: rb_wf_def rb_Len_def split: if_splits)
  show "length (rb_list r) =
    length (drop (headPos r) (ring r) @ take (rb_Len r + headPos r - length (ring r)) (ring r))"
    using assms ne rb_Len_le [OF assms(1)] by auto
  fix i assume "i < length (rb_list r)"
  then have i: "i < rb_Len r" by simp
  with rb_Len_le [OF assms(1)] have "i \<le> length (ring r)" by simp
  with ne have "rb_slot r i =
      (if headPos r + i < length (ring r) then headPos r + i else headPos r + i - length (ring r))"
    by (simp add: rb_slot_def wrap_mod)
  with i ne show "rb_list r ! i =
    (drop (headPos r) (ring r) @ take (rb_Len r + headPos r - length (ring r)) (ring r)) ! i"
    by (auto simp: nth_append add.commute)
qed

subsection \<open>Appending\<close>

lemma rb_tail_slot:
  assumes "rb_wf r" "ring r \<noteq> []"
  shows "tailPos r = rb_slot r (rb_Len r)"
  using assms by (auto simp: rb_wf_def rb_slot_def rb_Len_def wrap_mod split: if_splits)

lemma rb_Len_less:
  assumes "rb_wf r" "ring r \<noteq> []" "\<not> full r"
  shows "rb_Len r < length (ring r)"
  using assms by (auto simp: rb_wf_def rb_Len_def split: if_splits)

lemma rb_slot_inj:
  assumes "rb_wf r" "rb_slot r i = rb_slot r j" "i < length (ring r)" "j < length (ring r)"
  shows "i = j"
  using assms wrap_mod_inj [of "headPos r" "length (ring r)" i j]
  by (auto simp: rb_wf_def rb_slot_def split: if_splits)

lemma rb_grow_ok:
  assumes "rb_wf r" "full r \<or> length (ring r) = 0"
  shows "\<exists>r'. rb_grow z r = Some r' \<and> rb_wf r' \<and> rb_list r' = rb_list r \<and>
    ring r' \<noteq> [] \<and> \<not> full r' \<and> length (ring r') = max 1 (2 * length (ring r))"
proof (cases "ring r = []")
  case True
  with assms show ?thesis
    by (simp add: rb_grow_def rb_wf_def go_slice_def rb_list_def rb_Len_def)
next
  case False
  with assms have f: "full r" "headPos r < length (ring r)" by (auto simp: rb_wf_def)
  let ?n = "length (ring r)"
  let ?ring = "drop (headPos r) (ring r) @ take (headPos r) (ring r) @ replicate ?n z"
  have g: "rb_grow z r =
    Some \<lparr>ring = ?ring, headPos = 0, tailPos = ?n, full = False\<rparr>"
    using f False
    by (simp add: rb_grow_def go_slice_def go_copy_fits mult_2_right Let_def)
  have "rb_list r = drop (headPos r) (ring r) @ take (headPos r) (ring r)"
  proof (cases "headPos r = 0")
    case True
    with f assms(1) show ?thesis by (simp add: rb_list_contig rb_Len_def)
  next
    case False
    with f assms(1) show ?thesis by (simp add: rb_list_wrapped rb_Len_def)
  qed
  moreover have "rb_list \<lparr>ring = ?ring, headPos = 0, tailPos = ?n, full = False\<rparr> =
      take ?n ?ring"
    using f False by (subst rb_list_contig) (auto simp: rb_wf_def rb_Len_def)
  moreover have "take ?n ?ring = drop (headPos r) (ring r) @ take (headPos r) (ring r)"
    using f by simp
  ultimately show ?thesis
    using g False f by (simp add: rb_wf_def max_def mult_2)
qed

lemma rb_push_nonfull:
  assumes "rb_wf r" "ring r \<noteq> []" "\<not> full r"
  shows "\<exists>r'. rb_PushBack z r t = Some r' \<and> rb_wf r' \<and> rb_list r' = rb_list r @ [t] \<and>
    length (ring r') = length (ring r)"
proof -
  define r' where "r' = r\<lparr>ring := (ring r)[tailPos r := t],
      tailPos := (if tailPos r + 1 = length (ring r) then 0 else tailPos r + 1),
      full := ((if tailPos r + 1 = length (ring r) then 0 else tailPos r + 1) = headPos r)\<rparr>"
  from assms have b: "headPos r < length (ring r)" "tailPos r < length (ring r)"
    by (auto simp: rb_wf_def)
  have p: "rb_PushBack z r t = Some r'"
    using assms b by (simp add: rb_PushBack_def Let_def r'_def)
  have wf: "rb_wf r'" using assms b by (auto simp: rb_wf_def r'_def)
  have len: "rb_Len r' = Suc (rb_Len r)"
    using assms b by (auto simp: rb_Len_def r'_def)
  have slot: "rb_slot r' i = rb_slot r i" for i by (simp add: rb_slot_def r'_def)
  have ring: "ring r' = (ring r)[tailPos r := t]" by (simp add: r'_def)
  have "rb_list r' = rb_list r @ [t]"
  proof (rule nth_equalityI)
    fix i assume "i < length (rb_list r')"
    then have i: "i < Suc (rb_Len r)" using len by simp
    show "rb_list r' ! i = (rb_list r @ [t]) ! i"
    proof (cases "i = rb_Len r")
      case True
      with b len rb_tail_slot [OF assms(1,2)] show ?thesis
        by (simp add: slot ring nth_append)
    next
      case False
      with i rb_Len_less [OF assms] have "rb_slot r i \<noteq> tailPos r"
        using rb_slot_inj [OF assms(1), of i "rb_Len r"] rb_tail_slot [OF assms(1,2)] by auto
      with False i len show ?thesis by (simp add: slot ring nth_append)
    qed
  qed (use len in simp)
  with p wf ring show ?thesis by simp
qed

lemma rb_PushBack_ok:
  assumes "rb_wf r"
  shows "\<exists>r'. rb_PushBack z r t = Some r' \<and> rb_wf r' \<and> rb_list r' = rb_list r @ [t] \<and>
    length (ring r') =
      (if full r \<or> ring r = [] then max 1 (2 * length (ring r)) else length (ring r))"
proof (cases "full r \<or> length (ring r) = 0")
  case True
  obtain r1 where r1: "rb_grow z r = Some r1" "rb_wf r1" "rb_list r1 = rb_list r"
      "ring r1 \<noteq> []" "\<not> full r1" "length (ring r1) = max 1 (2 * length (ring r))"
    using rb_grow_ok [OF assms True] by blast
  have "rb_PushBack z r t = rb_PushBack z r1 t"
    using True r1 by (simp add: rb_PushBack_def)
  with rb_push_nonfull [OF r1(2,4,5), of z t] r1 True show ?thesis by auto
next
  case False
  with rb_push_nonfull [OF assms, of z t] show ?thesis by auto
qed

subsection \<open>Removing and reading\<close>

lemma rb_PopFront_ok:
  assumes "rb_wf r" "rb_list r = x # xs"
  shows "\<exists>r'. rb_PopFront z r = Some (x, r') \<and> rb_wf r' \<and> rb_list r' = xs \<and>
    length (ring r') = length (ring r)"
proof -
  from assms have ne: "\<not> rb_Empty r" "0 < rb_Len r"
    using rb_Empty_iff [OF assms(1)] length_rb_list [of r] by auto
  then have r: "ring r \<noteq> []" using rb_Len_le [OF assms(1)] by auto
  with assms(1) have b: "headPos r < length (ring r)" "tailPos r < length (ring r)"
    by (auto simp: rb_wf_def)
  define r' where "r' = r\<lparr>full := False, ring := (ring r)[headPos r := z],
      headPos := (if headPos r + 1 = length (ring r) then 0 else headPos r + 1)\<rparr>"
  have x: "x = ring r ! headPos r"
    using assms(2) ne(2) nth_rb_list [of 0 r] b by (simp add: rb_slot_def)
  have p: "rb_PopFront z r = Some (x, r')"
    using ne b x by (simp add: rb_PopFront_def r'_def)
  have wf: "rb_wf r'" using assms(1) b r by (auto simp: rb_wf_def r'_def)
  have len: "rb_Len r' = rb_Len r - 1"
    using assms(1) b r ne by (auto simp: rb_Len_def rb_Empty_def rb_wf_def r'_def)
  have slot: "rb_slot r' i = rb_slot r (Suc i)" for i
  proof (cases "headPos r + 1 = length (ring r)")
    case True
    then have "headPos r + Suc i = length (ring r) + i" by simp
    then have "(headPos r + Suc i) mod length (ring r) = i mod length (ring r)"
      by (simp only: mod_add_self1)
    with True show ?thesis by (simp add: rb_slot_def r'_def)
  next
    case False
    then show ?thesis by (simp add: rb_slot_def r'_def)
  qed
  have ring: "ring r' = (ring r)[headPos r := z]" by (simp add: r'_def)
  have "rb_list r' = xs"
  proof (rule nth_equalityI)
    show "length (rb_list r') = length xs"
      using len assms(2) length_rb_list [of r] by simp
    fix i assume "i < length (rb_list r')"
    then have i: "Suc i < rb_Len r" using len by simp
    have "rb_slot r (Suc i) \<noteq> rb_slot r 0"
      using rb_slot_inj [OF assms(1), of "Suc i" 0] i rb_Len_le [OF assms(1)] by fastforce
    then have "rb_slot r (Suc i) \<noteq> headPos r" using b by (simp add: rb_slot_def)
    with i len have "rb_list r' ! i = rb_list r ! Suc i" by (simp add: slot ring)
    then show "rb_list r' ! i = xs ! i" by (simp add: assms(2))
  qed
  with p wf ring show ?thesis by simp
qed

lemma rb_PopFront_empty: "rb_wf r \<Longrightarrow> rb_list r = [] \<Longrightarrow> rb_PopFront z r = None"
  by (simp add: rb_PopFront_def rb_Empty_iff)

lemma rb_Offset_ok:
  assumes "rb_wf r" "i < rb_Len r"
  shows "rb_Offset r (int i) = Some (rb_slot r i) \<and> rb_slot r i < length (ring r)"
proof -
  from assms have "ring r \<noteq> []" "\<not> rb_Empty r"
    using rb_Len_le rb_Len_0_iff by fastforce+
  with assms(2) show ?thesis
    by (simp add: rb_Offset_def rb_slot_def nat_add_distrib flip: of_nat_add of_nat_mod)
qed

lemma rb_Front_ok:
  assumes "rb_wf r" "rb_list r = x # xs"
  shows "rb_Front r = Some (headPos r) \<and> ring r ! headPos r = x \<and> headPos r < length (ring r)"
proof -
  from assms have ne: "\<not> rb_Empty r" "0 < rb_Len r"
    using rb_Empty_iff [OF assms(1)] length_rb_list [of r] by auto
  then have "ring r \<noteq> []" using rb_Len_le [OF assms(1)] by auto
  with assms(1) have b: "headPos r < length (ring r)" by (simp add: rb_wf_def)
  with assms(2) ne nth_rb_list [of 0 r] show ?thesis by (simp add: rb_Front_def rb_slot_def)
qed

lemma rb_Back_ok:
  assumes "rb_wf r" "rb_list r \<noteq> []"
  shows "\<exists>i. rb_Back r = Some i \<and> i < length (ring r) \<and> ring r ! i = last (rb_list r)"
proof -
  have "0 < rb_Len r" using assms length_rb_list [of r] by (cases "rb_list r") auto
  moreover from this assms have "rb_Back r = rb_Offset r (int (rb_Len r - 1))"
    by (simp add: rb_Back_def rb_Empty_iff)
  ultimately show ?thesis
    using assms rb_Offset_ok [OF assms(1), of "rb_Len r - 1"] by (simp add: last_conv_nth)
qed

text \<open>Writing through a pointer obtained from \<open>Offset\<close> updates that element only.\<close>

lemma rb_write_slot:
  assumes "rb_wf r" "i < rb_Len r"
  shows "rb_wf (r\<lparr>ring := (ring r)[rb_slot r i := x]\<rparr>) \<and>
    rb_list (r\<lparr>ring := (ring r)[rb_slot r i := x]\<rparr>) = (rb_list r)[i := x]"
proof -
  let ?r = "r\<lparr>ring := (ring r)[rb_slot r i := x]\<rparr>"
  have len: "rb_Len ?r = rb_Len r" and slot: "rb_slot ?r j = rb_slot r j" for j
    by (simp_all add: rb_Len_def rb_slot_def)
  have "rb_list ?r = (rb_list r)[i := x]"
  proof (rule nth_equalityI)
    fix j assume "j < length (rb_list ?r)"
    then have j: "j < rb_Len r" using len by simp
    have "rb_slot r i \<noteq> rb_slot r j" if "i \<noteq> j"
      using rb_slot_inj [OF assms(1), of i j] rb_Len_le [OF assms(1)] assms(2) j that by auto
    with j len slot rb_Offset_ok [OF assms] show "rb_list ?r ! j = (rb_list r)[i := x] ! j"
      by (cases "i = j") auto
  qed (use len in simp)
  with assms(1) show ?thesis by (auto simp: rb_wf_def)
qed

subsection \<open>Shrinking\<close>

lemma rb_ShrinkTo_ok:
  assumes "rb_wf r"
  shows "\<exists>r'. rb_ShrinkTo z r sz = Some r' \<and> rb_wf r' \<and> rb_list r' = rb_list r \<and>
    length (ring r') =
      (if sz < 1 \<or> sz < int (rb_Len r) \<or> sz \<ge> int (length (ring r))
       then length (ring r) else nat sz)"
proof (cases "sz < 1 \<or> sz < int (rb_Len r) \<or> sz \<ge> int (length (ring r))")
  case True
  with assms show ?thesis by (simp add: rb_ShrinkTo_def Let_def)
next
  case False
  let ?n = "rb_Len r" and ?s = "nat sz"
  from False have s: "1 \<le> ?s" "?n \<le> ?s" "?s < length (ring r)" by auto
  then have b: "headPos r < length (ring r)" using assms by (auto simp: rb_wf_def split: if_splits)
  let ?r = "\<lparr>ring = rb_list r @ replicate (?s - ?n) z, headPos = 0, tailPos = ?n mod ?s,
             full = (int ?n = sz)\<rparr>"
  have "rb_ShrinkTo z r sz = Some ?r"
  proof (cases "headPos r + ?n \<le> length (ring r)")
    case True
    with False s b rb_list_contig [OF assms] show ?thesis
      by (auto simp: rb_ShrinkTo_def Let_def go_slice_def go_copy_fits)
  next
    case wrap: False
    with b have "0 < ?n" by auto
    moreover have "?n + headPos r - length (ring r) \<le> ?s + headPos r - length (ring r)"
      using s by simp
    ultimately show ?thesis
      using wrap False s b rb_list_wrapped [OF assms] rb_Len_le [OF assms]
      by (auto simp: rb_ShrinkTo_def Let_def go_slice_def go_copy_fits min_le_iff_disj min_absorb2)
  qed
  moreover have "rb_wf ?r" using s length_rb_list [of r]
    by (auto simp: rb_wf_def simp del: length_rb_list)
  moreover have "rb_Len ?r = ?n" using s length_rb_list [of r]
    by (cases "?n = ?s") (auto simp: rb_Len_def simp del: length_rb_list)
  moreover from this s have "rb_list ?r = rb_list r"
    by (subst rb_list_contig [OF \<open>rb_wf ?r\<close>]) auto
  ultimately show ?thesis using False s by simp
qed

subsection \<open>The ring buffer is a FIFO queue\<close>

interpretation rb: fifo "rb_wf :: 'a RingBuffer \<Rightarrow> bool" rb_list "rb_PushBack z" "rb_PopFront z" for z
proof (unfold_locales, goal_cases)
  case (1 q x) then show ?case using rb_PushBack_ok [of q z x] by blast
next
  case (2 q x xs) then show ?case using rb_PopFront_ok [of q x xs z] by blast
next
  case (3 q) then show ?case by (rule rb_PopFront_empty)
qed

end
