(* ===== verification/PacketQueue.thy ===== *)
theory PacketQueue
  imports RingBuffer
begin

section \<open>The packet-number indexed queue of the BBR sampler\<close>

text \<open>
  Models \<open>protocol/tuic/congestion/bbr/packet_number_indexed_queue.go\<close>: a deque of slots,
  each present or not, whose front slot belongs to packet number \<open>firstPacket\<close>. Packet
  numbers are Go \<open>int64\<close>s below \<open>2^62\<close> and are kept as \<open>int\<close>. \<open>z\<close> is the zero value of
  the entry type. The abstraction \<open>pq_map\<close> is the finite map from packet numbers to the
  entries present; the loops that pop the front are partial functions whose \<open>None\<close> covers
  both a panic and not returning.
\<close>

record 'a entryWrapper =
  present :: bool
  entry :: 'a

record 'a packetNumberIndexedQueue =
  entries :: "'a entryWrapper RingBuffer"
  numberOfPresentEntries :: int
  firstPacket :: int
  maxSlots :: int
  initialSlots :: int
  truncatedSlots :: nat

definition invalidPacketNumber :: int where
  "invalidPacketNumber = -1"

definition absent :: "'a \<Rightarrow> 'a entryWrapper" where
  "absent z = \<lparr>present = False, entry = z\<rparr>"

definition shrinkDenominator :: int where
  "shrinkDenominator = 4"

definition newPacketNumberIndexedQueue :: "'a \<Rightarrow> int \<Rightarrow> int \<Rightarrow> 'a packetNumberIndexedQueue" where
  "newPacketNumberIndexedQueue z initialSize maxSize =
     (let initialSize = (if initialSize < 1 then 1 else initialSize);
          maxSize = (if maxSize < initialSize then initialSize else maxSize) in
      \<lparr>entries = rb_Init (absent z) (nat initialSize), numberOfPresentEntries = 0,
       firstPacket = invalidPacketNumber, maxSlots = maxSize, initialSlots = initialSize,
       truncatedSlots = 0\<rparr>)"

definition pq_IsEmpty :: "'a packetNumberIndexedQueue \<Rightarrow> bool" where
  "pq_IsEmpty p \<longleftrightarrow> numberOfPresentEntries p = 0"

definition pq_EntrySlotsUsed :: "'a packetNumberIndexedQueue \<Rightarrow> nat" where
  "pq_EntrySlotsUsed p = rb_Len (entries p)"

definition pq_EntrySlotsCapacity :: "'a packetNumberIndexedQueue \<Rightarrow> nat" where
  "pq_EntrySlotsCapacity p = rb_Cap (entries p)"

definition pq_LastPacket :: "'a packetNumberIndexedQueue \<Rightarrow> int" where
  "pq_LastPacket p =
     (if pq_IsEmpty p then invalidPacketNumber
      else firstPacket p + (int (rb_Len (entries p)) - 1))"

text \<open>The body shared by the loops that advance the front: count, pop, advance.\<close>

definition pq_popSlot :: "'a \<Rightarrow> 'a packetNumberIndexedQueue \<Rightarrow> 'a packetNumberIndexedQueue option" where
  "pq_popSlot z p = do {
     i \<leftarrow> rb_Front (entries p);
     let k = (if present (ring (entries p) ! i)
              then numberOfPresentEntries p - 1 else numberOfPresentEntries p);
     (_, es) \<leftarrow> rb_PopFront (absent z) (entries p);
     Some (p\<lparr>entries := es, numberOfPresentEntries := k, firstPacket := firstPacket p + 1\<rparr>) }"

primrec pq_dropFront ::
    "'a \<Rightarrow> nat \<Rightarrow> 'a packetNumberIndexedQueue \<Rightarrow> 'a packetNumberIndexedQueue option" where
  "pq_dropFront z 0 p = Some p"
| "pq_dropFront z (Suc n) p =
     (if rb_Empty (entries p) then Some p
      else do {
        p1 \<leftarrow> pq_popSlot z p;
        pq_dropFront z n (p1\<lparr>truncatedSlots := truncatedSlots p1 + 1\<rparr>) })"

definition pq_restart ::
    "'a \<Rightarrow> 'a packetNumberIndexedQueue \<Rightarrow> int \<Rightarrow> 'a packetNumberIndexedQueue" where
  "pq_restart z p packetNumber =
     p\<lparr>truncatedSlots := truncatedSlots p + rb_Len (entries p),
       entries := rb_Init (absent z) (nat (initialSlots p)),
       numberOfPresentEntries := 0,
       firstPacket := packetNumber\<rparr>"

definition pq_Emplace ::
    "'a \<Rightarrow> 'a packetNumberIndexedQueue \<Rightarrow> int \<Rightarrow> 'a option \<Rightarrow>
       (bool \<times> 'a packetNumberIndexedQueue) option" where
  "pq_Emplace z p packetNumber e =
     (case e of
        None \<Rightarrow> Some (False, p)
      | Some x \<Rightarrow>
          if packetNumber = invalidPacketNumber then Some (False, p)
          else if pq_IsEmpty p then do {
            es \<leftarrow> rb_PushBack (absent z) (entries p) \<lparr>present = True, entry = x\<rparr>;
            Some (True, p\<lparr>entries := es, numberOfPresentEntries := 1,
                          firstPacket := packetNumber\<rparr>) }
          else if packetNumber \<le> pq_LastPacket p then Some (False, p)
          else
            let offset = packetNumber - firstPacket p;
                gap0 = offset - int (rb_Len (entries p));
                gap = (if gap0 < 0 then 0 else gap0) in
            if gap \<ge> maxSlots p then do {
              let q = pq_restart z p packetNumber;
              es \<leftarrow> rb_PushBack (absent z) (entries q) \<lparr>present = True, entry = x\<rparr>;
              Some (True, q\<lparr>entries := es, numberOfPresentEntries := 1\<rparr>) }
            else do {
              let excess = int (rb_Len (entries p)) + gap + 1 - maxSlots p;
              q \<leftarrow> (if excess > 0 then pq_dropFront z (nat excess) p else Some p);
              es \<leftarrow> push_all (rb_PushBack (absent z)) (entries q) (replicate (nat gap) (absent z));
              es' \<leftarrow> rb_PushBack (absent z) es \<lparr>present = True, entry = x\<rparr>;
              Some (True, q\<lparr>entries := es',
                            numberOfPresentEntries := numberOfPresentEntries q + 1\<rparr>) })"

partial_function (option) pq_halve :: "int \<Rightarrow> int \<Rightarrow> int \<Rightarrow> int option" where
  "pq_halve initial live target =
     (if target > initial \<and> live * shrinkDenominator \<le> target
      then pq_halve initial live (go_quot target 2) else Some target)"

definition pq_reclaim ::
    "'a \<Rightarrow> 'a packetNumberIndexedQueue \<Rightarrow> 'a packetNumberIndexedQueue option" where
  "pq_reclaim z p =
     (let live = int (rb_Len (entries p));
          capacity = int (rb_Cap (entries p)) in
      if capacity \<le> initialSlots p then Some p
      else do {
        target \<leftarrow> (if live > 0 then pq_halve (initialSlots p) live capacity
                   else Some (initialSlots p));
        if live > 0 \<and> target \<ge> capacity then Some p
        else do {
          es \<leftarrow> rb_ShrinkTo (absent z) (entries p) target;
          Some (p\<lparr>entries := es\<rparr>) } })"

text \<open>The common end of the trims: forget the anchor of a drained queue, then reclaim.\<close>

definition pq_settle ::
    "'a \<Rightarrow> 'a packetNumberIndexedQueue \<Rightarrow> 'a packetNumberIndexedQueue option" where
  "pq_settle z p =
     pq_reclaim z (if rb_Empty (entries p) then p\<lparr>firstPacket := invalidPacketNumber\<rparr> else p)"

partial_function (option) pq_dropConsumed ::
    "'a \<Rightarrow> ('a \<Rightarrow> bool) \<Rightarrow> nat \<Rightarrow> 'a packetNumberIndexedQueue \<Rightarrow>
       (nat \<times> 'a packetNumberIndexedQueue) option" where
  "pq_dropConsumed z isConsumed n p =
     (if rb_Empty (entries p) then Some (n, p)
      else Option.bind (rb_Front (entries p)) (\<lambda>i.
        if present (ring (entries p) ! i) \<and> \<not> isConsumed (entry (ring (entries p) ! i))
        then Some (n, p)
        else Option.bind (pq_popSlot z p) (\<lambda>p'. pq_dropConsumed z isConsumed (Suc n) p')))"

definition pq_DropConsumedFront ::
    "'a \<Rightarrow> 'a packetNumberIndexedQueue \<Rightarrow> ('a \<Rightarrow> bool) \<Rightarrow>
       (nat \<times> 'a packetNumberIndexedQueue) option" where
  "pq_DropConsumedFront z p isConsumed = do {
     (n, p1) \<leftarrow> pq_dropConsumed z isConsumed 0 p;
     p2 \<leftarrow> pq_settle z p1;
     Some (n, p2) }"

text \<open>\<open>clearup\<close> pops absent slots off the front.\<close>

partial_function (option) pq_dropAbsent ::
    "'a \<Rightarrow> 'a packetNumberIndexedQueue \<Rightarrow> 'a packetNumberIndexedQueue option" where
  "pq_dropAbsent z p =
     (if rb_Empty (entries p) then Some p
      else Option.bind (rb_Front (entries p)) (\<lambda>i.
        if present (ring (entries p) ! i) then Some p
        else Option.bind (rb_PopFront (absent z) (entries p)) (\<lambda>(_, es).
          pq_dropAbsent z (p\<lparr>entries := es, firstPacket := firstPacket p + 1\<rparr>))))"

definition pq_clearup ::
    "'a \<Rightarrow> 'a packetNumberIndexedQueue \<Rightarrow> 'a packetNumberIndexedQueue option" where
  "pq_clearup z p = Option.bind (pq_dropAbsent z p) (pq_settle z)"

text \<open>
  \<open>getEntryWraper\<close> returns a pointer or nil: the slot's index, or \<open>None\<close>, inside the
  option that stands for a panic of \<open>Offset\<close>.
\<close>

definition pq_getEntryWraper :: "'a packetNumberIndexedQueue \<Rightarrow> int \<Rightarrow> nat option option" where
  "pq_getEntryWraper p packetNumber =
     (if packetNumber = invalidPacketNumber \<or> pq_IsEmpty p \<or> packetNumber < firstPacket p
      then Some None
      else
        let offset = packetNumber - firstPacket p in
        if offset \<ge> int (rb_Len (entries p)) then Some None
        else do {
          i \<leftarrow> rb_Offset (entries p) offset;
          Some (if present (ring (entries p) ! i) then Some i else None) })"

definition pq_GetEntry :: "'a packetNumberIndexedQueue \<Rightarrow> int \<Rightarrow> 'a option option" where
  "pq_GetEntry p packetNumber = do {
     ew \<leftarrow> pq_getEntryWraper p packetNumber;
     Some (map_option (\<lambda>i. entry (ring (entries p) ! i)) ew) }"

text \<open>
  \<open>Remove\<close> returns whether the entry was there; the model returns the entry itself, the
  argument of the callback.
\<close>

definition pq_Remove ::
    "'a \<Rightarrow> 'a packetNumberIndexedQueue \<Rightarrow> int \<Rightarrow> ('a option \<times> 'a packetNumberIndexedQueue) option" where
  "pq_Remove z p packetNumber = do {
     ew \<leftarrow> pq_getEntryWraper p packetNumber;
     case ew of
       None \<Rightarrow> Some (None, p)
     | Some i \<Rightarrow>
         let w = ring (entries p) ! i;
             p1 = p\<lparr>entries := (entries p)\<lparr>ring := (ring (entries p))[i := w\<lparr>present := False\<rparr>]\<rparr>,
                    numberOfPresentEntries := numberOfPresentEntries p - 1\<rparr> in
         if packetNumber = firstPacket p1 then do {
           p2 \<leftarrow> pq_clearup z p1;
           Some (Some (entry w), p2) }
         else Some (Some (entry w), p1) }"

partial_function (option) pq_dropBelow ::
    "'a \<Rightarrow> int \<Rightarrow> 'a packetNumberIndexedQueue \<Rightarrow> 'a packetNumberIndexedQueue option" where
  "pq_dropBelow z packetNumber p =
     (if \<not> rb_Empty (entries p) \<and> firstPacket p \<noteq> invalidPacketNumber \<and>
         firstPacket p < packetNumber
      then Option.bind (pq_popSlot z p) (\<lambda>p'. pq_dropBelow z packetNumber p')
      else Some p)"

definition pq_RemoveUpTo ::
    "'a \<Rightarrow> 'a packetNumberIndexedQueue \<Rightarrow> int \<Rightarrow> 'a packetNumberIndexedQueue option" where
  "pq_RemoveUpTo z p packetNumber = Option.bind (pq_dropBelow z packetNumber p) (pq_clearup z)"

subsection \<open>Slots as a finite map\<close>

fun pn_map :: "int \<Rightarrow> 'a entryWrapper list \<Rightarrow> int \<Rightarrow> 'a option" where
  "pn_map f [] n = None"
| "pn_map f (w # ws) n =
     (if n = f then (if present w then Some (entry w) else None) else pn_map (f + 1) ws n)"

definition pq_els :: "'a packetNumberIndexedQueue \<Rightarrow> 'a entryWrapper list" where
  "pq_els p = rb_list (entries p)"

definition pq_map :: "'a packetNumberIndexedQueue \<Rightarrow> int \<Rightarrow> 'a option" where
  "pq_map p = pn_map (firstPacket p) (pq_els p)"

abbreviation live_count :: "'a entryWrapper list \<Rightarrow> int" where
  "live_count ws \<equiv> int (length (filter present ws))"

lemma pn_map_lt [simp]: "n < f \<Longrightarrow> pn_map f ws n = None"
  by (induction f ws n rule: pn_map.induct) auto

lemma pn_map_ge [simp]: "f + int (length ws) \<le> n \<Longrightarrow> pn_map f ws n = None"
  by (induction f ws n rule: pn_map.induct) auto

lemma pn_map_append:
  "pn_map f (xs @ ys) n =
     (if n < f + int (length xs) then pn_map f xs n else pn_map (f + int (length xs)) ys n)"
  by (induction f xs n rule: pn_map.induct) (auto simp: algebra_simps)

lemma pn_map_nth:
  "i < length ws \<Longrightarrow>
     pn_map f ws (f + int i) = (if present (ws ! i) then Some (entry (ws ! i)) else None)"
  by (subst id_take_nth_drop [of i ws]) (simp_all add: pn_map_append)

lemma pn_map_no_live: "filter present ws = [] \<Longrightarrow> pn_map f ws n = None"
  by (induction f ws n rule: pn_map.induct) (auto split: if_splits)

lemma pn_map_absent [simp]: "pn_map f (replicate k (absent z)) n = None"
  by (rule pn_map_no_live) (simp add: absent_def)

lemma pn_map_drop:
  "k \<le> length ws \<Longrightarrow> pn_map (f + int k) (drop k ws) = pn_map f ws |` {f + int k..}"
proof (rule ext)
  fix n assume k: "k \<le> length ws"
  have "pn_map f ws n = pn_map f (take k ws @ drop k ws) n" by simp
  also have "\<dots> = (if n < f + int k then pn_map f (take k ws) n
      else pn_map (f + int k) (drop k ws) n)"
    using k by (subst pn_map_append) (simp add: min_absorb2)
  finally show "pn_map (f + int k) (drop k ws) n = (pn_map f ws |` {f + int k..}) n"
    by (auto simp: restrict_map_def)
qed

lemma pn_map_update:
  "i < length ws \<Longrightarrow>
     pn_map f (ws[i := w]) =
       (pn_map f ws)(f + int i := if present w then Some (entry w) else None)"
proof (induction ws arbitrary: f i)
  case (Cons a ws)
  then show ?case by (cases i) (auto simp: fun_eq_iff algebra_simps)
qed simp

subsection \<open>Invariant\<close>

definition pq_pre :: "'a packetNumberIndexedQueue \<Rightarrow> bool" where
  "pq_pre p \<longleftrightarrow>
     rb_wf (entries p) \<and>
     numberOfPresentEntries p = live_count (pq_els p) \<and>
     1 \<le> initialSlots p \<and> initialSlots p \<le> maxSlots p \<and>
     int (length (pq_els p)) \<le> maxSlots p \<and>
     (pq_els p \<noteq> [] \<longrightarrow> 0 \<le> firstPacket p)"

definition pq_inv :: "'a packetNumberIndexedQueue \<Rightarrow> bool" where
  "pq_inv p \<longleftrightarrow> pq_pre p \<and> (pq_els p = [] \<longrightarrow> firstPacket p = invalidPacketNumber)"

lemma pq_inv_pre: "pq_inv p \<Longrightarrow> pq_pre p"
  by (simp add: pq_inv_def)

text \<open>The front slot is present: a queue with no entries has no slots.\<close>

definition pq_front_live :: "'a packetNumberIndexedQueue \<Rightarrow> bool" where
  "pq_front_live p \<longleftrightarrow> (pq_els p \<noteq> [] \<longrightarrow> present (hd (pq_els p)))"

lemma pq_inv_new: "pq_inv (newPacketNumberIndexedQueue z i m) \<and> pq_front_live (newPacketNumberIndexedQueue z i m)"
  by (simp add: newPacketNumberIndexedQueue_def Let_def pq_inv_def pq_pre_def pq_front_live_def pq_els_def)

lemma pq_empty_iff:
  "pq_inv p \<Longrightarrow> pq_front_live p \<Longrightarrow> pq_IsEmpty p \<longleftrightarrow> pq_els p = []"
  by (cases "pq_els p") (auto simp: pq_inv_def pq_pre_def pq_IsEmpty_def pq_front_live_def)

subsection \<open>Dropping from the front\<close>

text \<open>\<open>pq_drops k p p'\<close>: \<open>p'\<close> is \<open>p\<close> without its first \<open>k\<close> slots.\<close>

definition pq_drops ::
    "nat \<Rightarrow> 'a packetNumberIndexedQueue \<Rightarrow> 'a packetNumberIndexedQueue \<Rightarrow> bool" where
  "pq_drops k p p' \<longleftrightarrow>
     k \<le> length (pq_els p) \<and> rb_wf (entries p') \<and> pq_els p' = drop k (pq_els p) \<and>
     numberOfPresentEntries p' = numberOfPresentEntries p - live_count (take k (pq_els p)) \<and>
     firstPacket p' = firstPacket p + int k \<and> maxSlots p' = maxSlots p \<and>
     initialSlots p' = initialSlots p"

lemma pq_drops_0: "rb_wf (entries p) \<Longrightarrow> pq_drops 0 p p"
  by (simp add: pq_drops_def)

lemma pq_drops_Suc: "pq_drops (Suc 0) p p1 \<Longrightarrow> pq_drops k p1 p2 \<Longrightarrow> pq_drops (Suc k) p p2"
  by (cases "pq_els p") (auto simp: pq_drops_def)

lemma pq_nil:
  assumes "rb_wf (entries p)" "0 = length (pq_els p)"
  shows "pq_els p = [] \<and> rb_Empty (entries p)"
  using assms(2) rb_Empty_iff [OF assms(1)] by (simp add: pq_els_def del: length_rb_list)

lemma pq_popSlot_ok:
  assumes "rb_wf (entries p)" "pq_els p = w # ws"
  shows "\<exists>p'. pq_popSlot z p = Some p' \<and> pq_drops (Suc 0) p p' \<and> pq_els p' = ws \<and>
    truncatedSlots p' = truncatedSlots p"
proof -
  from assms have e: "rb_list (entries p) = w # ws" by (simp add: pq_els_def)
  obtain es where "rb_PopFront (absent z) (entries p) = Some (w, es)" "rb_wf es" "rb_list es = ws"
    using rb_PopFront_ok [OF assms(1) e] by blast
  with rb_Front_ok [OF assms(1) e] e show ?thesis
    by (auto simp: pq_popSlot_def pq_drops_def pq_els_def)
qed

lemma pq_dropFront_ok:
  assumes "rb_wf (entries p)" "k \<le> length (pq_els p)"
  shows "\<exists>p'. pq_dropFront z k p = Some p' \<and> pq_drops k p p' \<and>
    truncatedSlots p' = truncatedSlots p + k"
  using assms
proof (induction k arbitrary: p)
  case 0
  then show ?case by (simp add: pq_drops_0)
next
  case (Suc k)
  then obtain w ws where w: "pq_els p = w # ws" by (cases "pq_els p") auto
  obtain p1 where p1: "pq_popSlot z p = Some p1" "pq_drops (Suc 0) p p1" "pq_els p1 = ws"
      "truncatedSlots p1 = truncatedSlots p"
    using pq_popSlot_ok [OF Suc.prems(1) w] by blast
  let ?p = "p1\<lparr>truncatedSlots := truncatedSlots p1 + 1\<rparr>"
  have d: "pq_drops (Suc 0) p ?p" using p1(2) by (simp add: pq_drops_def pq_els_def)
  moreover have "pq_els ?p = ws" using p1(3) by (simp add: pq_els_def)
  moreover have "rb_wf (entries ?p)" using p1(2) by (simp add: pq_drops_def)
  ultimately obtain p2 where "pq_dropFront z k ?p = Some p2" "pq_drops k ?p p2"
      "truncatedSlots p2 = truncatedSlots p + Suc k"
    using Suc.IH [of ?p] Suc.prems(2) w p1(4) by auto
  with pq_drops_Suc [OF d] p1(1) w Suc.prems(1) show ?case
    by (auto simp: rb_Empty_iff pq_els_def)
qed

lemma pq_dropBelow_ok:
  assumes "rb_wf (entries p)" "0 \<le> firstPacket p"
  shows "\<exists>p'. pq_dropBelow z n p = Some p' \<and>
    pq_drops (min (nat (n - firstPacket p)) (length (pq_els p))) p p'"
  using assms
proof (induction "length (pq_els p)" arbitrary: p)
  case 0
  with pq_nil [of p] show ?case
    by (subst pq_dropBelow.simps) (auto intro: pq_drops_0)
next
  case (Suc l)
  then obtain w ws where w: "pq_els p = w # ws" by (cases "pq_els p") auto
  have ne: "\<not> rb_Empty (entries p)" using w Suc.prems by (simp add: rb_Empty_iff pq_els_def)
  show ?case
  proof (cases "firstPacket p < n")
    case True
    obtain p1 where p1: "pq_popSlot z p = Some p1" "pq_drops (Suc 0) p p1" "pq_els p1 = ws"
      using pq_popSlot_ok [OF Suc.prems(1) w] by blast
    from p1(2) Suc.prems have "rb_wf (entries p1)" "0 \<le> firstPacket p1"
      "firstPacket p1 = firstPacket p + 1" by (auto simp: pq_drops_def)
    with Suc.hyps(1) [of p1] Suc.hyps(2) w p1(3) obtain p2 where
      p2: "pq_dropBelow z n p1 = Some p2"
        "pq_drops (min (nat (n - (firstPacket p + 1))) (length ws)) p1 p2" by auto
    have "Suc (min (nat (n - (firstPacket p + 1))) (length ws)) =
        min (nat (n - firstPacket p)) (length (pq_els p))"
      using True w by (simp add: min_def) linarith
    with pq_drops_Suc [OF p1(2) p2(2)] p1(1) p2(1) ne True Suc.prems(2) show ?thesis
      by (subst pq_dropBelow.simps) (simp add: invalidPacketNumber_def)
  next
    case False
    with Suc.prems(1) show ?thesis
      by (subst pq_dropBelow.simps) (simp add: pq_drops_0)
  qed
qed

lemma pq_dropConsumed_ok:
  fixes c :: "'a \<Rightarrow> bool"
  assumes "rb_wf (entries p)"
  defines "k \<equiv> length (takeWhile (\<lambda>w. present w \<longrightarrow> c (entry w)) (pq_els p))"
  shows "\<exists>p'. pq_dropConsumed z c m p = Some (m + k, p') \<and> pq_drops k p p' \<and>
    truncatedSlots p' = truncatedSlots p"
  using assms(1) unfolding k_def
proof (induction "length (pq_els p)" arbitrary: p m)
  case 0
  with pq_nil [of p] show ?case
    by (subst pq_dropConsumed.simps) (auto intro: pq_drops_0)
next
  case (Suc l)
  then obtain w ws where w: "pq_els p = w # ws" by (cases "pq_els p") auto
  have ne: "\<not> rb_Empty (entries p)" using w Suc.prems by (simp add: rb_Empty_iff pq_els_def)
  have fr: "rb_Front (entries p) = Some (headPos (entries p))"
      "ring (entries p) ! headPos (entries p) = w"
    using rb_Front_ok [OF Suc.prems] w by (auto simp: pq_els_def)
  show ?case
  proof (cases "present w \<and> \<not> c (entry w)")
    case True
    with ne fr w Suc.prems show ?thesis
      by (subst pq_dropConsumed.simps) (simp add: pq_drops_0)
  next
    case False
    obtain p1 where p1: "pq_popSlot z p = Some p1" "pq_drops (Suc 0) p p1" "pq_els p1 = ws"
        "truncatedSlots p1 = truncatedSlots p"
      using pq_popSlot_ok [OF Suc.prems w] by blast
    moreover from p1(2) have "rb_wf (entries p1)" by (simp add: pq_drops_def)
    ultimately obtain p2 where "pq_dropConsumed z c (Suc m) p1 =
          Some (Suc m + length (takeWhile (\<lambda>w. present w \<longrightarrow> c (entry w)) ws), p2)"
        "pq_drops (length (takeWhile (\<lambda>w. present w \<longrightarrow> c (entry w)) ws)) p1 p2"
        "truncatedSlots p2 = truncatedSlots p"
      using Suc.hyps(1) [of p1 "Suc m"] Suc.hyps(2) w by auto
    with False ne fr p1(1) pq_drops_Suc [OF p1(2)] w show ?thesis
      by (subst pq_dropConsumed.simps) auto
  qed
qed

lemma pq_dropAbsent_ok:
  assumes "rb_wf (entries p)"
  defines "k \<equiv> length (takeWhile (\<lambda>w. \<not> present w) (pq_els p))"
  shows "\<exists>p'. pq_dropAbsent z p = Some p' \<and> pq_drops k p p' \<and>
    truncatedSlots p' = truncatedSlots p"
  using assms(1) unfolding k_def
proof (induction "length (pq_els p)" arbitrary: p)
  case 0
  with pq_nil [of p] show ?case
    by (subst pq_dropAbsent.simps) (auto intro: pq_drops_0)
next
  case (Suc l)
  then obtain w ws where w: "pq_els p = w # ws" by (cases "pq_els p") auto
  have e: "rb_list (entries p) = w # ws" using w by (simp add: pq_els_def)
  have ne: "\<not> rb_Empty (entries p)" using e Suc.prems by (simp add: rb_Empty_iff)
  note fr = rb_Front_ok [OF Suc.prems e]
  show ?case
  proof (cases "present w")
    case True
    with ne fr w Suc.prems show ?thesis
      by (subst pq_dropAbsent.simps) (simp add: pq_drops_0)
  next
    case False
    obtain es where es: "rb_PopFront (absent z) (entries p) = Some (w, es)" "rb_wf es"
        "rb_list es = ws"
      using rb_PopFront_ok [OF Suc.prems e] by blast
    let ?p = "p\<lparr>entries := es, firstPacket := firstPacket p + 1\<rparr>"
    have d: "pq_drops (Suc 0) p ?p" using es w False by (simp add: pq_drops_def pq_els_def)
    have "rb_wf (entries ?p)" "pq_els ?p = ws" using es by (simp_all add: pq_els_def)
    then obtain p2 where "pq_dropAbsent z ?p = Some p2"
        "pq_drops (length (takeWhile (\<lambda>w. \<not> present w) ws)) ?p p2"
        "truncatedSlots p2 = truncatedSlots p"
      using Suc.hyps(1) [of ?p] Suc.hyps(2) w by auto
    with False ne fr es pq_drops_Suc [OF d] w show ?thesis
      by (subst pq_dropAbsent.simps) auto
  qed
qed

subsection \<open>Reclaiming capacity\<close>

lemma pq_halve_ok:
  assumes "0 < live" "live \<le> target"
  shows "\<exists>t. pq_halve initial live target = Some t \<and> live \<le> t \<and> t \<le> target \<and>
    (t \<le> initial \<or> t < 4 * live)"
  using assms(2)
proof (induction "nat target" arbitrary: target rule: less_induct)
  case less
  show ?case
  proof (cases "target > initial \<and> live * shrinkDenominator \<le> target")
    case True
    with assms(1) have "4 * live \<le> target" "0 < target" by (auto simp: shrinkDenominator_def)
    then have q: "go_quot target 2 = target div 2" "live \<le> target div 2" "nat (target div 2) < nat target"
      using assms(1) by auto
    with less.hyps [of "target div 2"] obtain t where "pq_halve initial live (target div 2) = Some t"
        "live \<le> t" "t \<le> target div 2" "t \<le> initial \<or> t < 4 * live" by auto
    with True q \<open>0 < target\<close> show ?thesis by (subst pq_halve.simps) auto
  next
    case False
    with less.prems show ?thesis
      by (subst pq_halve.simps) (auto simp: shrinkDenominator_def)
  qed
qed

text \<open>
  What a settled queue keeps of the queue before, and the bound on its footprint: the
  initial capacity, or less than four times the slots in use.
\<close>

definition pq_footprint_ok :: "'a packetNumberIndexedQueue \<Rightarrow> bool" where
  "pq_footprint_ok p \<longleftrightarrow>
     int (pq_EntrySlotsCapacity p) \<le> initialSlots p \<or>
     pq_EntrySlotsCapacity p < 4 * pq_EntrySlotsUsed p"

lemma pq_reclaim_ok:
  assumes "rb_wf (entries p)" "1 \<le> initialSlots p"
  shows "\<exists>es. pq_reclaim z p = Some (p\<lparr>entries := es\<rparr>) \<and> rb_wf es \<and>
    rb_list es = rb_list (entries p) \<and> pq_footprint_ok (p\<lparr>entries := es\<rparr>)"
proof (cases "int (rb_Cap (entries p)) \<le> initialSlots p")
  case True
  with assms show ?thesis
    by (intro exI [of _ "entries p"])
      (simp add: pq_reclaim_def pq_footprint_ok_def pq_EntrySlotsCapacity_def)
next
  case False
  let ?live = "int (rb_Len (entries p))" and ?cap = "int (rb_Cap (entries p))"
  have le: "?live \<le> ?cap" using rb_Len_le [OF assms(1)] by (simp add: rb_Cap_def)
  obtain t where t: "(if ?live > 0 then pq_halve (initialSlots p) ?live ?cap
        else Some (initialSlots p)) = Some t" "?live \<le> t" "1 \<le> t"
      "t \<le> initialSlots p \<or> t < 4 * ?live" "t \<le> ?cap"
    using pq_halve_ok [of ?live ?cap "initialSlots p"] le assms(2) False by (cases "?live > 0") auto
  have len: "rb_Len es = rb_Len (entries p)" if "rb_list es = rb_list (entries p)" for es
    using arg_cong [OF that, of length] by simp
  show ?thesis
  proof (cases "t = ?cap")
    case True
    with t False show ?thesis
      by (intro exI [of _ "entries p"])
        (auto simp: pq_reclaim_def pq_footprint_ok_def pq_EntrySlotsCapacity_def
          pq_EntrySlotsUsed_def assms(1) Let_def)
  next
    case smaller: False
    obtain es where "rb_ShrinkTo (absent z) (entries p) t = Some es" "rb_wf es"
        "rb_list es = rb_list (entries p)" "rb_Cap es = nat t"
      using rb_ShrinkTo_ok [OF assms(1), of "absent z" t] t smaller by (auto simp: rb_Cap_def)
    with t smaller False len [of es] show ?thesis
      by (auto simp: pq_reclaim_def pq_footprint_ok_def pq_EntrySlotsCapacity_def
          pq_EntrySlotsUsed_def Let_def)
  qed
qed

lemma pq_settle_ok:
  assumes "rb_wf (entries p)" "1 \<le> initialSlots p"
  shows "\<exists>es. pq_settle z p =
      Some (p\<lparr>firstPacket := (if pq_els p = [] then invalidPacketNumber else firstPacket p),
             entries := es\<rparr>) \<and>
    rb_wf es \<and> rb_list es = pq_els p \<and> pq_footprint_ok (p\<lparr>entries := es\<rparr>)"
proof (cases "pq_els p = []")
  case True
  then have "rb_Empty (entries p)" by (simp add: rb_Empty_iff assms(1) pq_els_def)
  then have "pq_settle z p = pq_reclaim z (p\<lparr>firstPacket := invalidPacketNumber\<rparr>)"
    by (simp add: pq_settle_def)
  with pq_reclaim_ok [of "p\<lparr>firstPacket := invalidPacketNumber\<rparr>" z] assms True show ?thesis
    by (auto simp: pq_els_def pq_footprint_ok_def pq_EntrySlotsCapacity_def pq_EntrySlotsUsed_def)
next
  case False
  then have "\<not> rb_Empty (entries p)" by (simp add: rb_Empty_iff assms(1) pq_els_def)
  then have "pq_settle z p = pq_reclaim z p" by (simp add: pq_settle_def)
  with pq_reclaim_ok [OF assms, of z] False show ?thesis
    by (auto simp: pq_els_def)
qed

lemma live_count_drop:
  "live_count (drop k ws) = live_count ws - live_count (take k ws)"
proof -
  have "filter present ws = filter present (take k ws) @ filter present (drop k ws)"
    by (simp flip: filter_append)
  then show ?thesis by simp
qed

lemma pq_drops_pre: "pq_pre p \<Longrightarrow> pq_drops k p p' \<Longrightarrow> pq_pre p'"
  by (auto simp: pq_pre_def pq_drops_def live_count_drop)

lemma pq_drops_map: "pq_drops k p p' \<Longrightarrow> pq_map p' = pq_map p |` {firstPacket p + int k..}"
  by (simp add: pq_map_def pq_drops_def pn_map_drop)

lemma pq_trim:
  assumes "pq_pre p" "pq_drops k p p1"
  shows "\<exists>p'. pq_settle z p1 = Some p' \<and> pq_inv p' \<and> pq_els p' = drop k (pq_els p) \<and>
    pq_map p' = pq_map p |` {firstPacket p + int k..} \<and>
    truncatedSlots p' = truncatedSlots p1 \<and> pq_footprint_ok p'"
proof -
  from assms have w: "rb_wf (entries p1)" "1 \<le> initialSlots p1"
    by (auto simp: pq_inv_def pq_pre_def pq_drops_def)
  obtain es where es: "pq_settle z p1 =
      Some (p1\<lparr>firstPacket := (if pq_els p1 = [] then invalidPacketNumber else firstPacket p1),
             entries := es\<rparr>)"
      "rb_wf es" "rb_list es = pq_els p1" "pq_footprint_ok (p1\<lparr>entries := es\<rparr>)"
    using pq_settle_ok [OF w] by blast
  let ?p = "p1\<lparr>firstPacket := (if pq_els p1 = [] then invalidPacketNumber else firstPacket p1),
      entries := es\<rparr>"
  have els: "pq_els ?p = drop k (pq_els p)"
    using assms(2) es(3) by (simp add: pq_els_def pq_drops_def)
  have "pq_map ?p = pq_map p |` {firstPacket p + int k..}"
  proof (cases "pq_els p1 = []")
    case True
    with assms(2) have "drop k (pq_els p) = []" "k = length (pq_els p)" by (auto simp: pq_drops_def)
    with els show ?thesis by (auto simp: pq_map_def fun_eq_iff restrict_map_def)
  next
    case False
    with assms(2) els show ?thesis
      by (simp add: pq_map_def pq_drops_def pn_map_drop)
  qed
  moreover have "pq_inv ?p"
    using assms es(2) els
    by (auto simp: pq_inv_def pq_pre_def pq_drops_def live_count_drop split: if_splits)
  moreover have "pq_footprint_ok ?p"
    using es(4) by (simp add: pq_footprint_ok_def pq_EntrySlotsCapacity_def pq_EntrySlotsUsed_def)
  ultimately show ?thesis using es(1) els by auto
qed

lemma pn_map_takeWhile_absent:
  "n < f + int (length (takeWhile (\<lambda>w. \<not> present w) ws)) \<Longrightarrow> pn_map f ws n = None"
  by (induction f ws n rule: pn_map.induct) auto

lemma hd_dropWhile_live:
  "dropWhile (\<lambda>w. \<not> P w) ws \<noteq> [] \<Longrightarrow> P (hd (dropWhile (\<lambda>w. \<not> P w) ws))"
  using hd_dropWhile [of "\<lambda>w. \<not> P w" ws] by simp

lemma pq_clearup_ok:
  assumes "pq_pre p"
  shows "\<exists>p'. pq_clearup z p = Some p' \<and> pq_inv p' \<and> pq_front_live p' \<and> pq_map p' = pq_map p \<and>
    pq_els p' = dropWhile (\<lambda>w. \<not> present w) (pq_els p) \<and>
    truncatedSlots p' = truncatedSlots p \<and> pq_footprint_ok p'"
proof -
  let ?k = "length (takeWhile (\<lambda>w. \<not> present w) (pq_els p))"
  from assms have "rb_wf (entries p)" by (simp add: pq_inv_def pq_pre_def)
  then obtain p1 where p1: "pq_dropAbsent z p = Some p1" "pq_drops ?k p p1"
      "truncatedSlots p1 = truncatedSlots p"
    using pq_dropAbsent_ok [of p z] by auto
  obtain p' where p': "pq_settle z p1 = Some p'" "pq_inv p'" "pq_els p' = drop ?k (pq_els p)"
      "pq_map p' = pq_map p |` {firstPacket p + int ?k..}"
      "truncatedSlots p' = truncatedSlots p1" "pq_footprint_ok p'"
    using pq_trim [OF assms p1(2)] by blast
  have els: "pq_els p' = dropWhile (\<lambda>w. \<not> present w) (pq_els p)"
    unfolding p'(3) by (rule dropWhile_eq_drop [symmetric])
  have "pq_map p' n = pq_map p n" for n
  proof (cases "n < firstPacket p + int ?k")
    case True
    then show ?thesis unfolding p'(4) by (simp add: pn_map_takeWhile_absent pq_map_def)
  next
    case False
    then show ?thesis unfolding p'(4) by simp
  qed
  then have "pq_map p' = pq_map p" by (rule ext)
  moreover have "pq_front_live p'"
    unfolding pq_front_live_def els by (blast intro: hd_dropWhile_live)
  ultimately show ?thesis
    using p1(1,3) p'(1,2,5,6) els by (simp add: pq_clearup_def)
qed

subsection \<open>Inserting\<close>

lemma pn_map_extend:
  "pn_map f (ws @ replicate g (absent z) @ [\<lparr>present = True, entry = x\<rparr>]) =
     (pn_map f ws)(f + int (length ws) + int g \<mapsto> x)"
  by (rule ext) (auto simp: pn_map_append)

lemma live_count_extend:
  "live_count (ws @ replicate g (absent z) @ [\<lparr>present = True, entry = x\<rparr>]) = live_count ws + 1"
  by (simp add: absent_def)

lemma pq_extend_ok:
  assumes "rb_wf (entries q)"
  shows "\<exists>es es'. push_all (rb_PushBack (absent z)) (entries q) (replicate g (absent z)) = Some es \<and>
    rb_PushBack (absent z) es w = Some es' \<and> rb_wf es' \<and>
    rb_list es' = pq_els q @ replicate g (absent z) @ [w]"
proof -
  obtain es where es: "push_all (rb_PushBack (absent z)) (entries q) (replicate g (absent z)) = Some es"
      "rb_wf es" "rb_list es = pq_els q @ replicate g (absent z)"
    using rb.push_all_law [OF assms] unfolding pq_els_def by blast
  with rb_PushBack_ok [OF es(2), of "absent z" w] show ?thesis by auto
qed

lemma pq_Emplace_near:
  assumes "n \<noteq> invalidPacketNumber" "\<not> pq_IsEmpty p" "pq_LastPacket p < n"
    and len: "len = int (rb_Len (entries p))"
    and gap: "n - firstPacket p - len < maxSlots p"
  shows "pq_Emplace z p n (Some x) = do {
    q \<leftarrow> (if n - firstPacket p + 1 - maxSlots p > 0
         then pq_dropFront z (nat (n - firstPacket p + 1 - maxSlots p)) p else Some p);
    es \<leftarrow> push_all (rb_PushBack (absent z)) (entries q)
            (replicate (nat (n - firstPacket p - len)) (absent z));
    es' \<leftarrow> rb_PushBack (absent z) es \<lparr>present = True, entry = x\<rparr>;
    Some (True, q\<lparr>entries := es', numberOfPresentEntries := numberOfPresentEntries q + 1\<rparr>) }"
proof -
  from assms have g: "\<not> n - firstPacket p - len < 0" by (simp add: pq_LastPacket_def)
  have e: "len + (n - firstPacket p - len) + 1 - maxSlots p = n - firstPacket p + 1 - maxSlots p"
    by simp
  show ?thesis
    unfolding pq_Emplace_def Let_def len [symmetric] if_not_P [OF g] e
    using assms(1-3) gap by simp
qed

text \<open>The general branch of \<open>Emplace\<close>: drop the excess, fill the hole, append.\<close>

lemma pq_Emplace_extend:
  assumes inv: "pq_inv p" and ne: "pq_els p \<noteq> []"
    and n: "firstPacket p + int (length (pq_els p)) \<le> n"
    and gap: "n - firstPacket p - int (length (pq_els p)) < maxSlots p"
  defines "excess \<equiv> n - firstPacket p + 1 - maxSlots p"
  shows "\<exists>q es es' p'.
    (if excess > 0 then pq_dropFront z (nat excess) p else Some p) = Some q \<and>
    push_all (rb_PushBack (absent z)) (entries q)
      (replicate (nat (n - firstPacket p - int (length (pq_els p)))) (absent z)) = Some es \<and>
    rb_PushBack (absent z) es \<lparr>present = True, entry = x\<rparr> = Some es' \<and>
    p' = q\<lparr>entries := es', numberOfPresentEntries := numberOfPresentEntries q + 1\<rparr> \<and>
    pq_inv p' \<and> pq_map p' = (pq_map p |` {firstPacket p'..})(n \<mapsto> x) \<and>
    firstPacket p' = firstPacket p + int (nat excess) \<and>
    truncatedSlots p' = truncatedSlots p + nat excess \<and>
    (excess \<le> 0 \<longrightarrow> hd (pq_els p') = hd (pq_els p))"
proof -
  let ?g = "nat (n - firstPacket p - int (length (pq_els p)))" and ?k = "nat excess"
  from inv have wf: "rb_wf (entries p)" and f0: "0 \<le> firstPacket p"
    using ne by (auto simp: pq_inv_def pq_pre_def)
  have k: "?k \<le> length (pq_els p)" using gap by (simp add: excess_def)
  obtain q where q: "(if excess > 0 then pq_dropFront z ?k p else Some p) = Some q"
      "pq_drops ?k p q" "truncatedSlots q = truncatedSlots p + ?k"
    using pq_dropFront_ok [OF wf k] pq_drops_0 [OF wf] by (cases "excess > 0") auto
  then have "rb_wf (entries q)" by (simp add: pq_drops_def)
  then obtain es es' where es: "push_all (rb_PushBack (absent z)) (entries q)
        (replicate ?g (absent z)) = Some es"
      "rb_PushBack (absent z) es \<lparr>present = True, entry = x\<rparr> = Some es'" "rb_wf es'"
      "rb_list es' = pq_els q @ replicate ?g (absent z) @ [\<lparr>present = True, entry = x\<rparr>]"
    using pq_extend_ok [of q z ?g "\<lparr>present = True, entry = x\<rparr>"] by blast
  define p' where "p' = q\<lparr>entries := es', numberOfPresentEntries := numberOfPresentEntries q + 1\<rparr>"
  have els: "pq_els p' = drop ?k (pq_els p) @ replicate ?g (absent z) @
      [\<lparr>present = True, entry = x\<rparr>]"
    using es(4) q(2) by (simp add: p'_def pq_els_def pq_drops_def)
  have first: "firstPacket p' = firstPacket p + int ?k"
    using q(2) by (simp add: p'_def pq_drops_def)
  have at: "firstPacket p + int ?k + int (length (drop ?k (pq_els p))) + int ?g = n"
    using n k by (simp add: of_nat_diff)
  have map: "pq_map p' = (pq_map p |` {firstPacket p'..})(n \<mapsto> x)"
    unfolding pq_map_def els first pn_map_extend at by (simp only: pn_map_drop [OF k])
  have "int (length (pq_els p')) \<le> maxSlots p"
    unfolding els using n k by (simp add: of_nat_diff) (simp add: excess_def)
  then have "pq_inv p'"
    using inv q(2) es(3) f0 live_count_extend [of "drop ?k (pq_els p)" ?g z x]
    unfolding pq_inv_def pq_pre_def els first
    by (simp add: p'_def pq_drops_def live_count_drop)
  moreover have "truncatedSlots p' = truncatedSlots p + ?k"
    using q(3) by (simp add: p'_def)
  moreover have "excess \<le> 0 \<longrightarrow> hd (pq_els p') = hd (pq_els p)"
    using ne by (simp add: els)
  ultimately show ?thesis
    using q(1) es(1,2) map first p'_def
    by (intro exI [of _ q] exI [of _ es] exI [of _ es'] exI [of _ p'] conjI)
qed

subsection \<open>The queue as a finite map\<close>

text \<open>
  A queue whose live slots wrap around the backing array: packets 7 and 9 are present,
  packet 8 is a hole.
\<close>

definition pq_example :: "nat packetNumberIndexedQueue" where
  "pq_example =
     \<lparr>entries = \<lparr>ring = [absent 0, \<lparr>present = True, entry = 30\<rparr>, absent 0,
                       \<lparr>present = True, entry = 10\<rparr>],
                 headPos = 3, tailPos = 2, full = False\<rparr>,
      numberOfPresentEntries = 2, firstPacket = 7, maxSlots = 8, initialSlots = 2,
      truncatedSlots = 0\<rparr>"

lemma pq_example_inv: "pq_inv pq_example" and pq_example_live: "pq_front_live pq_example"
  by code_simp+

lemma pq_GetEntry_map_aux:
  assumes "pq_inv p"
  shows "pq_GetEntry p n = Some (pq_map p n)"
proof (cases "pq_IsEmpty p \<or> n < firstPacket p \<or> n - firstPacket p \<ge> int (length (pq_els p))")
  case True
  then have "pq_map p n = None"
    using assms pn_map_no_live [of "pq_els p"]
    by (auto simp: pq_map_def pq_IsEmpty_def pq_inv_def pq_pre_def)
  with True show ?thesis
    by (auto simp: pq_GetEntry_def pq_getEntryWraper_def pq_els_def)
next
  case False
  define i where "i = nat (n - firstPacket p)"
  from assms False have i: "i < rb_Len (entries p)" "0 \<le> firstPacket p" "rb_wf (entries p)"
    and n: "n = firstPacket p + int i"
    by (auto simp: pq_inv_def pq_pre_def pq_els_def pq_IsEmpty_def i_def split: if_splits)
  from False i have "pq_getEntryWraper p n = do {
      j \<leftarrow> rb_Offset (entries p) (int i);
      Some (if present (ring (entries p) ! j) then Some j else None) }"
    by (simp add: pq_getEntryWraper_def invalidPacketNumber_def n)
  with rb_Offset_ok [OF i(3,1)] have "pq_GetEntry p n =
      Some (if present (pq_els p ! i) then Some (entry (pq_els p ! i)) else None)"
    using i(1) by (simp add: pq_GetEntry_def pq_els_def)
  also have "\<dots> = Some (pq_map p (firstPacket p + int i))"
    using i(1) by (subst pq_map_def, subst pn_map_nth) (simp_all add: pq_els_def)
  finally show ?thesis using n by simp
qed

text \<open>
  Looking a packet number up in the queue returns exactly the entry stored for it and
  never panics: \<open>GetEntry\<close> reads the finite map the slots represent.
\<close>

lemma pq_GetEntry_map:
  assumes "pq_inv p"
  shows "pq_GetEntry p n = Some (pq_map p n)"
  using assms by (rule pq_GetEntry_map_aux)

lemma pq_EntrySlotsUsed_els: "pq_inv p \<Longrightarrow> pq_EntrySlotsUsed p = length (pq_els p)"
  by (auto simp: pq_inv_def pq_pre_def pq_EntrySlotsUsed_def pq_els_def rb_Empty_iff rb_Len_0_iff)

lemma pq_Emplace_exact:
  assumes "pq_inv p" "pq_IsEmpty p \<Longrightarrow> pq_els p = []" "0 \<le> n"
  shows "\<exists>p'. pq_Emplace z p n (Some x) = Some (pq_IsEmpty p \<or> pq_LastPacket p < n, p') \<and>
    pq_inv p' \<and>
    (if pq_IsEmpty p \<or> pq_LastPacket p < n
     then pq_map p' = (pq_map p |` {n - maxSlots p<..})(n \<mapsto> x) \<and>
          truncatedSlots p' = truncatedSlots p + min (length (pq_els p)) (nat (n - maxSlots p + 1 - firstPacket p)) \<and>
          (pq_front_live p \<and> (pq_IsEmpty p \<or> n - firstPacket p < maxSlots p) \<longrightarrow> pq_front_live p')
     else p' = p)"
proof -
  let ?w = "\<lparr>present = True, entry = x\<rparr>"
  have wf: "rb_wf (entries p)" and slots: "1 \<le> initialSlots p" "initialSlots p \<le> maxSlots p"
    using assms by (auto simp: pq_inv_def pq_pre_def)
  have n: "n \<noteq> invalidPacketNumber" using assms(3) by (simp add: invalidPacketNumber_def)
  have last: "pq_LastPacket p < n \<longleftrightarrow> firstPacket p + int (length (pq_els p)) \<le> n" if "\<not> pq_IsEmpty p"
    using that by (auto simp: pq_LastPacket_def pq_els_def)
  have single: "\<exists>es. rb_PushBack (absent z) es0 ?w = Some es \<and> rb_wf es \<and> rb_list es = [?w] \<and> rb_Len es = 1"
    if e: "rb_wf es0" "rb_list es0 = []" for es0
  proof -
    obtain es where "rb_PushBack (absent z) es0 ?w = Some es" "rb_wf es" "rb_list es = [?w]"
      using rb_PushBack_ok [OF e(1), of "absent z" ?w] e(2) by auto
    moreover from this(3) have "rb_Len es = 1" using length_rb_list [of es] by simp
    ultimately show ?thesis by blast
  qed
  consider (empty) "pq_IsEmpty p" | (old) "\<not> pq_IsEmpty p" "n \<le> pq_LastPacket p"
    | (far) "\<not> pq_IsEmpty p" "pq_LastPacket p < n"
        "n - firstPacket p - int (length (pq_els p)) \<ge> maxSlots p"
    | (near) "\<not> pq_IsEmpty p" "pq_LastPacket p < n"
        "n - firstPacket p - int (length (pq_els p)) < maxSlots p"
    by linarith
  then show ?thesis
  proof cases
    case empty
    then have els: "pq_els p = []" using assms(2) by blast
    then obtain es where "rb_PushBack (absent z) (entries p) ?w = Some es" "rb_wf es"
        "rb_list es = [?w]" "rb_Len es = 1"
      using single [OF wf] by (auto simp: pq_els_def)
    with empty n els assms(3) slots show ?thesis
      by (auto simp: pq_Emplace_def pq_inv_def pq_pre_def pq_map_def pq_els_def pq_front_live_def fun_eq_iff
          restrict_map_def)
  next
    case old
    with assms n show ?thesis by (simp add: pq_Emplace_def)
  next
    case far
    obtain es where "rb_PushBack (absent z) (rb_Init (absent z) (nat (initialSlots p))) ?w = Some es"
        "rb_wf es" "rb_list es = [?w]" "rb_Len es = 1"
      using single [OF rb_wf_Init rb_list_Init] by blast
    moreover have "pq_map p m = None" if "n - maxSlots p < m" for m
      using far that last slots by (auto simp: pq_map_def)
    moreover have "min (length (pq_els p)) (nat (n - maxSlots p + 1 - firstPacket p)) = length (pq_els p)"
      using far(3) by simp
    ultimately show ?thesis
      using far n last slots assms(3)
      by (auto simp: pq_Emplace_def pq_restart_def pq_inv_def pq_pre_def pq_map_def pq_els_def Let_def
          fun_eq_iff restrict_map_def)
  next
    case near
    then have ne: "pq_els p \<noteq> []" using assms(1) by (auto simp: pq_IsEmpty_def pq_inv_def pq_pre_def)
    have len: "int (rb_Len (entries p)) = int (length (pq_els p))" by (simp add: pq_els_def)
    obtain q es es' p' where r:
      "(if n - firstPacket p + 1 - maxSlots p > 0
        then pq_dropFront z (nat (n - firstPacket p + 1 - maxSlots p)) p else Some p) = Some q"
      "push_all (rb_PushBack (absent z)) (entries q)
        (replicate (nat (n - firstPacket p - int (length (pq_els p)))) (absent z)) = Some es"
      "rb_PushBack (absent z) es ?w = Some es'"
      "p' = q\<lparr>entries := es', numberOfPresentEntries := numberOfPresentEntries q + 1\<rparr>"
      "pq_inv p'" "pq_map p' = (pq_map p |` {firstPacket p'..})(n \<mapsto> x)"
      "firstPacket p' = firstPacket p + int (nat (n - firstPacket p + 1 - maxSlots p))"
      "truncatedSlots p' = truncatedSlots p + nat (n - firstPacket p + 1 - maxSlots p)"
      "n - firstPacket p + 1 - maxSlots p \<le> 0 \<longrightarrow> hd (pq_els p') = hd (pq_els p)"
      using pq_Emplace_extend [OF assms(1) ne, of n z x] near last by blast
    have "pq_Emplace z p n (Some x) = Some (True, p')"
      unfolding pq_Emplace_near [OF n near(1,2) len [symmetric] near(3)] r(1)
      by (simp add: r(2,3,4))
    moreover have "pq_map p' = (pq_map p |` {n - maxSlots p<..})(n \<mapsto> x)"
      unfolding r(6,7) by (auto simp: fun_eq_iff restrict_map_def pq_map_def)
    moreover have "min (length (pq_els p)) (nat (n - maxSlots p + 1 - firstPacket p)) = nat (n - firstPacket p + 1 - maxSlots p)"
      using near(3) by simp
    moreover have "pq_front_live p'" if "pq_front_live p" "n - firstPacket p < maxSlots p"
      using that r(9) ne by (auto simp: pq_front_live_def)
    ultimately show ?thesis using near r(5,8) by auto
  qed
qed

lemma pq_Emplace_refines_aux:
  assumes "pq_inv p" "pq_front_live p" "0 \<le> n"
  shows "\<exists>p'. pq_Emplace z p n (Some x) = Some (pq_IsEmpty p \<or> pq_LastPacket p < n, p') \<and>
    pq_inv p' \<and>
    (if pq_IsEmpty p \<or> pq_LastPacket p < n
     then pq_IsEmpty p \<or> n - firstPacket p < maxSlots p \<longrightarrow>
             pq_map p' = (pq_map p)(n \<mapsto> x) \<and> pq_front_live p' \<and> truncatedSlots p' = truncatedSlots p
     else p' = p)"
proof -
  have e: "pq_IsEmpty p \<Longrightarrow> pq_els p = []" using pq_empty_iff assms(1,2) by blast
  obtain p' where r: "pq_Emplace z p n (Some x) = Some (pq_IsEmpty p \<or> pq_LastPacket p < n, p')" "pq_inv p'"
    "if pq_IsEmpty p \<or> pq_LastPacket p < n
     then pq_map p' = (pq_map p |` {n - maxSlots p<..})(n \<mapsto> x) \<and>
          truncatedSlots p' = truncatedSlots p + min (length (pq_els p)) (nat (n - maxSlots p + 1 - firstPacket p)) \<and>
          (pq_front_live p \<and> (pq_IsEmpty p \<or> n - firstPacket p < maxSlots p) \<longrightarrow> pq_front_live p')
     else p' = p"
    using pq_Emplace_exact [OF assms(1) e assms(3), of z x] by blast
  have "pq_map p |` {n - maxSlots p<..} = pq_map p \<and> min (length (pq_els p)) (nat (n - maxSlots p + 1 - firstPacket p)) = 0"
    if "pq_IsEmpty p \<or> n - firstPacket p < maxSlots p"
    using that e by (cases "pq_IsEmpty p") (auto simp: fun_eq_iff restrict_map_def pq_map_def)
  with r assms(2) show ?thesis by (intro exI [of _ p']) simp
qed

text \<open>
  C8: Inserting, on a queue that has no slots when it holds no entry. \<open>Emplace\<close> accepts exactly the
  packet numbers past the last one, and a rejected number leaves the queue as it was. An accepted
  number \<open>n\<close> adds its entry and drops exactly the packets at or below \<open>n\<close> minus the slot budget, no
  other; the slots dropped are counted as truncated. So nothing is dropped as long as the span
  from the first packet fits the budget, and then a live front slot stays live. The result keeps
  the invariant, the budget included. A queue that stays within its budget has no slots when it
  holds no entry (\<open>pq_reachable\<close>); past the budget it can lose this, see \<open>pq_Emplace_stale_front\<close>.
\<close>

theorem pq_Emplace_refines:
  assumes "pq_inv p" "pq_IsEmpty p \<longrightarrow> pq_EntrySlotsUsed p = 0" "0 \<le> n"
  shows "\<exists>p'. pq_Emplace z p n (Some x) = Some (pq_IsEmpty p \<or> pq_LastPacket p < n, p') \<and>
    pq_inv p' \<and>
    (if pq_IsEmpty p \<or> pq_LastPacket p < n
     then pq_map p' = (pq_map p |` {n - maxSlots p<..})(n \<mapsto> x) \<and>
          truncatedSlots p' = truncatedSlots p + min (pq_EntrySlotsUsed p) (nat (n - maxSlots p + 1 - firstPacket p)) \<and>
          (pq_IsEmpty p \<or> n - firstPacket p < maxSlots p \<longrightarrow>
             pq_map p' = (pq_map p)(n \<mapsto> x) \<and> (pq_front_live p \<longrightarrow> pq_front_live p'))
     else p' = p)"
proof -
  have slots: "pq_EntrySlotsUsed p = length (pq_els p)" by (rule pq_EntrySlotsUsed_els [OF assms(1)])
  then have e: "pq_IsEmpty p \<Longrightarrow> pq_els p = []" using assms(2) by simp
  have "pq_map p |` {n - maxSlots p<..} = pq_map p" if "pq_IsEmpty p \<or> n - firstPacket p < maxSlots p"
    using that e by (cases "pq_IsEmpty p") (auto simp: fun_eq_iff restrict_map_def pq_map_def)
  with pq_Emplace_exact [OF assms(1) e assms(3), of z x] show ?thesis
    unfolding slots by (auto split: if_splits)
qed

lemma pq_GetEntry_map_witness:
  "pq_inv pq_example \<and> pq_GetEntry pq_example 9 = Some (Some 30) \<and>
   pq_GetEntry pq_example 8 = Some None"
proof -
  have "pq_map pq_example 9 = Some 30" "pq_map pq_example 8 = None" by code_simp+
  then show ?thesis
    using pq_example_inv pq_GetEntry_map [OF pq_example_inv, of 9]
      pq_GetEntry_map [OF pq_example_inv, of 8] by simp
qed

theorem pq_Emplace_refines_witness:
  "\<exists>p'. pq_Emplace 0 pq_example 16 (Some 60) = Some (True, p') \<and> pq_inv p' \<and>
     pq_map p' = (pq_map pq_example |` {8<..})(16 \<mapsto> 60) \<and> truncatedSlots p' = 2"
proof -
  have ex: "pq_LastPacket pq_example < 16" "pq_IsEmpty pq_example \<longrightarrow> pq_EntrySlotsUsed pq_example = 0"
      "maxSlots pq_example = 8" "firstPacket pq_example = 7" "truncatedSlots pq_example = 0" "pq_EntrySlotsUsed pq_example = 3"
    by code_simp+
  show ?thesis
    using pq_Emplace_refines [OF pq_example_inv ex(2), of 16 0 60] ex by auto
qed

lemma pq_getEntryWraper_slot:
  assumes "pq_inv p" "pq_getEntryWraper p n = Some (Some i)"
  shows "\<exists>k. k < length (pq_els p) \<and> n = firstPacket p + int k \<and> i = rb_slot (entries p) k \<and>
    ring (entries p) ! i = pq_els p ! k \<and> present (pq_els p ! k)"
proof -
  define k where "k = nat (n - firstPacket p)"
  have i: "rb_Offset (entries p) (int k) = Some i" "present (ring (entries p) ! i)"
    and k: "k < rb_Len (entries p)" "n = firstPacket p + int k"
    using assms(2) by (auto simp: pq_getEntryWraper_def k_def Let_def split: if_splits Option.bind_splits)
  from assms(1) have "rb_wf (entries p)" by (simp add: pq_inv_def pq_pre_def)
  then have "i = rb_slot (entries p) k" using rb_Offset_ok [OF _ k(1)] i(1) by simp
  with i k show ?thesis by (auto simp: pq_els_def)
qed

lemma pq_Remove_refines_aux:
  assumes "pq_inv p" "pq_front_live p"
  shows "\<exists>p'. pq_Remove z p n = Some (pq_map p n, p') \<and> pq_inv p' \<and> pq_front_live p' \<and>
    pq_map p' = (pq_map p)(n := None) \<and> (pq_map p n = None \<longrightarrow> p' = p)"
proof -
  obtain ew where ew: "pq_getEntryWraper p n = Some ew"
      "map_option (\<lambda>i. entry (ring (entries p) ! i)) ew = pq_map p n"
    using pq_GetEntry_map_aux [OF assms(1), of n]
    by (cases "pq_getEntryWraper p n") (auto simp: pq_GetEntry_def)
  show ?thesis
  proof (cases ew)
    case None
    with ew assms show ?thesis by (auto simp: pq_Remove_def fun_upd_idem)
  next
    case (Some i)
    with ew(1) obtain k where kl: "k < length (pq_els p)" and k: "n = firstPacket p + int k"
      and slot: "i = rb_slot (entries p) k" and w: "ring (entries p) ! i = pq_els p ! k"
      and i: "present (pq_els p ! k)"
      using pq_getEntryWraper_slot [OF assms(1)] by blast
    let ?w = "pq_els p ! k"
    from assms(1) have wf: "rb_wf (entries p)" by (simp add: pq_inv_def pq_pre_def)
    have k1: "k < rb_Len (entries p)" using kl by (simp add: pq_els_def)
    define p1 where "p1 = p\<lparr>entries := (entries p)\<lparr>ring := (ring (entries p))[i := ?w\<lparr>present := False\<rparr>]\<rparr>,
                    numberOfPresentEntries := numberOfPresentEntries p - 1\<rparr>"
    have els: "rb_wf (entries p1)" "pq_els p1 = (pq_els p)[k := ?w\<lparr>present := False\<rparr>]"
      using rb_write_slot [OF wf k1] by (simp_all add: p1_def slot pq_els_def)
    have map: "pq_map p1 = (pq_map p)(n := None)"
      using pn_map_update [OF kl] els(2) k by (simp add: pq_map_def p1_def)
    have "live_count (pq_els p1) = live_count (pq_els p) - 1"
      using kl i w unfolding els(2)
      by (subst (2) id_take_nth_drop [OF kl], subst upd_conv_take_nth_drop [OF kl]) simp
    with assms(1) els have inv: "pq_inv p1" by (auto simp: pq_inv_def pq_pre_def p1_def)
    have at: "pq_Remove z p n =
        (if k = 0 then do { p2 \<leftarrow> pq_clearup z p1; Some (Some (entry ?w), p2) }
         else Some (Some (entry ?w), p1))"
      using ew(1) Some w k by (simp add: pq_Remove_def p1_def Let_def)
    have val: "pq_map p n = Some (entry ?w)" using ew(2) Some w by simp
    show ?thesis
    proof (cases "k = 0")
      case True
      with pq_clearup_ok [OF pq_inv_pre [OF inv], of z] at val map show ?thesis by auto
    next
      case False
      then have "pq_front_live p1"
        using assms(2) kl els(2) unfolding pq_front_live_def
        by (cases "pq_els p"; cases k) auto
      with False at inv map val show ?thesis by simp
    qed
  qed
qed

text \<open>
  C27: Removing a packet deletes exactly its entry from the map and hands it to the caller;
  a packet that is not stored leaves the queue as it was. The invariant and the live front
  are kept, so a queue whose last entry is removed has no slots left.
\<close>

theorem pq_Remove_refines:
  assumes "pq_inv p" "pq_front_live p"
  shows "\<exists>p'. pq_Remove z p n = Some (pq_map p n, p') \<and> pq_inv p' \<and> pq_front_live p' \<and>
    pq_map p' = (pq_map p)(n := None) \<and> (pq_map p n = None \<longrightarrow> p' = p)"
  using assms by (rule pq_Remove_refines_aux)

theorem pq_Remove_refines_witness:
  "\<exists>p'. pq_Remove 0 pq_example 7 = Some (Some 10, p') \<and> pq_inv p' \<and>
     pq_map p' = (pq_map pq_example)(7 := None)"
proof -
  have "pq_map pq_example 7 = Some 10" by code_simp
  then show ?thesis
    using pq_Remove_refines [OF pq_example_inv pq_example_live, of 0 7] by auto
qed

lemma pq_RemoveUpTo_refines_aux:
  assumes "pq_inv p" "pq_front_live p"
  shows "\<exists>p'. pq_RemoveUpTo z p n = Some p' \<and> pq_inv p' \<and> pq_front_live p' \<and>
    pq_map p' = pq_map p |` {n..} \<and> pq_footprint_ok p'"
proof (cases "pq_els p = []")
  case True
  with assms(1) have "rb_Empty (entries p)" by (simp add: pq_inv_def pq_pre_def rb_Empty_iff pq_els_def)
  then have "pq_dropBelow z n p = Some p" by (subst pq_dropBelow.simps) simp
  moreover have "pq_map p |` {n..} = pq_map p"
    using True by (simp add: pq_map_def fun_eq_iff restrict_map_def)
  ultimately show ?thesis
    using pq_clearup_ok [OF pq_inv_pre [OF assms(1)], of z] by (auto simp: pq_RemoveUpTo_def)
next
  case False
  with assms(1) have f: "rb_wf (entries p)" "0 \<le> firstPacket p" by (auto simp: pq_inv_def pq_pre_def)
  let ?k = "min (nat (n - firstPacket p)) (length (pq_els p))"
  obtain p1 where p1: "pq_dropBelow z n p = Some p1" "pq_drops ?k p p1"
    using pq_dropBelow_ok [OF f] by blast
  obtain p' where p': "pq_clearup z p1 = Some p'" "pq_inv p'" "pq_front_live p'"
      "pq_map p' = pq_map p1" "pq_footprint_ok p'"
    using pq_clearup_ok [OF pq_drops_pre [OF pq_inv_pre [OF assms(1)] p1(2)], of z] by blast
  have "pq_map p m = None" if "n \<le> m" "m < firstPacket p + int ?k" for m
    using that by (simp add: pq_map_def split: if_splits)
  moreover have "pq_map p m = None" if "firstPacket p + int ?k \<le> m" "m < n" for m
    using that by (auto simp: pq_map_def min_def split: if_splits)
  ultimately have "pq_map p1 = pq_map p |` {n..}"
    unfolding pq_drops_map [OF p1(2)]
    by (intro ext) (auto simp: restrict_map_def not_le)
  with p1 p' show ?thesis by (simp add: pq_RemoveUpTo_def)
qed

text \<open>
  C29: \<open>RemoveUpTo\<close> terminates without panic and keeps exactly the entries at or above the
  given number; it leaves a live front and gives capacity back, down to the initial
  capacity or less than four times the slots in use.
\<close>

theorem pq_RemoveUpTo_refines:
  assumes "pq_inv p" "pq_front_live p"
  shows "\<exists>p'. pq_RemoveUpTo z p n = Some p' \<and> pq_inv p' \<and> pq_front_live p' \<and>
    pq_map p' = pq_map p |` {n..} \<and> pq_footprint_ok p'"
  using assms by (rule pq_RemoveUpTo_refines_aux)

theorem pq_RemoveUpTo_refines_witness:
  "\<exists>p'. pq_RemoveUpTo 0 pq_example 8 = Some p' \<and> pq_map p' = pq_map pq_example |` {8..} \<and>
     pq_footprint_ok p'"
  using pq_RemoveUpTo_refines [OF pq_example_inv pq_example_live, of 0 8] by blast

lemma pq_DropConsumedFront_safe_aux:
  assumes "pq_inv p"
  shows "\<exists>k p'. pq_DropConsumedFront z p c = Some (k, p') \<and> pq_inv p' \<and> pq_front_live p' \<and>
    pq_map p' = pq_map p |` {firstPacket p + int k..} \<and>
    (\<forall>m x. pq_map p m = Some x \<and> m < firstPacket p + int k \<longrightarrow> c x) \<and>
    (pq_els p' \<noteq> [] \<longrightarrow> \<not> c (entry (hd (pq_els p')))) \<and>
    truncatedSlots p' = truncatedSlots p \<and> pq_footprint_ok p'"
proof -
  let ?P = "\<lambda>w. present w \<longrightarrow> c (entry w)"
  let ?k = "length (takeWhile ?P (pq_els p))"
  from assms have "rb_wf (entries p)" by (simp add: pq_inv_def pq_pre_def)
  then obtain p1 where p1: "pq_dropConsumed z c 0 p = Some (?k, p1)" "pq_drops ?k p p1"
      "truncatedSlots p1 = truncatedSlots p"
    using pq_dropConsumed_ok [of p z c 0] by auto
  obtain p' where p': "pq_settle z p1 = Some p'" "pq_inv p'" "pq_els p' = drop ?k (pq_els p)"
      "pq_map p' = pq_map p |` {firstPacket p + int ?k..}"
      "truncatedSlots p' = truncatedSlots p1" "pq_footprint_ok p'"
    using pq_trim [OF pq_inv_pre [OF assms] p1(2), of z] by blast
  have els: "pq_els p' = dropWhile ?P (pq_els p)"
    unfolding p'(3) by (rule dropWhile_eq_drop [symmetric])
  have hd: "present (hd (pq_els p')) \<and> \<not> c (entry (hd (pq_els p')))" if "pq_els p' \<noteq> []"
    using hd_dropWhile [of ?P "pq_els p"] that unfolding els by blast
  have "c x" if "pn_map f ws m = Some x" "m < f + int (length (takeWhile ?P ws))" for f ws m x
    using that by (induction f ws m rule: pn_map.induct) (auto split: if_splits)
  then have "\<forall>m x. pq_map p m = Some x \<and> m < firstPacket p + int ?k \<longrightarrow> c x"
    by (auto simp: pq_map_def)
  with p1 p' hd show ?thesis
    by (intro exI [of _ ?k] exI [of _ p']) (simp add: pq_DropConsumedFront_def pq_front_live_def)
qed

text \<open>
  C30: \<open>DropConsumedFront\<close> drops nothing that is still needed: it terminates without panic,
  every entry it removes was reported consumed, what remains is the map from the new first
  packet on, no removal counts as truncation, and the entry left at the front is not
  consumed.
\<close>

theorem pq_DropConsumedFront_safe:
  assumes "pq_inv p"
  shows "\<exists>k p'. pq_DropConsumedFront z p c = Some (k, p') \<and> pq_inv p' \<and> pq_front_live p' \<and>
    pq_map p' = pq_map p |` {firstPacket p + int k..} \<and>
    (\<forall>m x. pq_map p m = Some x \<and> m < firstPacket p + int k \<longrightarrow> c x) \<and>
    (pq_els p' \<noteq> [] \<longrightarrow> \<not> c (entry (hd (pq_els p')))) \<and>
    truncatedSlots p' = truncatedSlots p \<and> pq_footprint_ok p'"
  using assms by (rule pq_DropConsumedFront_safe_aux)

theorem pq_DropConsumedFront_safe_witness:
  "\<exists>k p'. pq_DropConsumedFront 0 pq_example (\<lambda>x. x < 20) = Some (k, p') \<and>
     pq_map p' = pq_map pq_example |` {firstPacket pq_example + int k..} \<and> pq_inv pq_example"
  using pq_DropConsumedFront_safe [OF pq_example_inv, of 0 "\<lambda>x. x < 20"] pq_example_inv by blast

subsection \<open>Reachable queues\<close>

text \<open>
  The states a caller reaches that never inserts past the slot budget, the use the queue is
  built for: one rule per public operation that changes the queue.
\<close>

inductive pq_reachable :: "'a \<Rightarrow> 'a packetNumberIndexedQueue \<Rightarrow> bool" for z :: 'a where
  new: "pq_reachable z (newPacketNumberIndexedQueue z initialSize maxSize)"
| emplace: "pq_reachable z p \<Longrightarrow> 0 \<le> n \<Longrightarrow>
    pq_IsEmpty p \<or> n - firstPacket p < maxSlots p \<Longrightarrow>
    pq_Emplace z p n e = Some (ok, p') \<Longrightarrow> pq_reachable z p'"
| remove: "pq_reachable z p \<Longrightarrow> pq_Remove z p n = Some (r, p') \<Longrightarrow> pq_reachable z p'"
| removeUpTo: "pq_reachable z p \<Longrightarrow> pq_RemoveUpTo z p n = Some p' \<Longrightarrow> pq_reachable z p'"
| dropConsumed: "pq_reachable z p \<Longrightarrow> pq_DropConsumedFront z p c = Some (k, p') \<Longrightarrow>
    pq_reachable z p'"

lemma pq_Emplace_keeps:
  assumes "pq_inv p" "pq_front_live p" "0 \<le> n" "pq_IsEmpty p \<or> n - firstPacket p < maxSlots p"
    "pq_Emplace z p n e = Some (ok, p')"
  shows "pq_inv p' \<and> pq_front_live p'"
proof (cases e)
  case None
  with assms show ?thesis by (simp add: pq_Emplace_def)
next
  case (Some x)
  with assms pq_Emplace_refines_aux [OF assms(1-3), of z x] show ?thesis
    by (auto split: if_splits)
qed

text \<open>
  C7: Every reachable queue keeps the invariant: its entry count is the number of present
  slots, it never uses more slots than its budget, and it is empty of slots exactly when it
  holds no entry, so the next \<open>Emplace\<close> restarts it at the right packet number.
\<close>

theorem pq_reachable_inv:
  assumes "pq_reachable z p"
  shows "pq_inv p \<and> pq_front_live p \<and> int (pq_EntrySlotsUsed p) \<le> maxSlots p \<and>
    (pq_IsEmpty p \<longleftrightarrow> pq_EntrySlotsUsed p = 0)"
proof -
  from assms have "pq_inv p \<and> pq_front_live p"
  proof (induction rule: pq_reachable.induct)
    case (new initialSize maxSize)
    show ?case by (rule pq_inv_new)
  next
    case (emplace p n e ok p')
    then show ?case using pq_Emplace_keeps [of p n z e ok p'] by blast
  next
    case (remove p n r p')
    then show ?case using pq_Remove_refines_aux [of p z n] by auto
  next
    case (removeUpTo p n p')
    then show ?case using pq_RemoveUpTo_refines_aux [of p z n] by auto
  next
    case (dropConsumed p c k p')
    then show ?case using pq_DropConsumedFront_safe_aux [of p z c] by auto
  qed
  moreover from this have "pq_IsEmpty p \<longleftrightarrow> pq_els p = []" using pq_empty_iff by blast
  ultimately show ?thesis
    by (auto simp: pq_inv_def pq_pre_def pq_EntrySlotsUsed_def pq_els_def rb_Empty_iff rb_Len_0_iff)
qed

declare pq_dropAbsent.simps [code] pq_halve.simps [code]

theorem pq_reachable_inv_witness:
  "\<exists>a b c. pq_Emplace (0 :: nat) (newPacketNumberIndexedQueue 0 2 4) 5 (Some 50) = Some (True, a) \<and>
     pq_Emplace 0 a 7 (Some 70) = Some (True, b) \<and> pq_Remove 0 b 5 = Some (Some 50, c) \<and>
     pq_inv c \<and> pq_front_live c \<and> pq_EntrySlotsUsed c = 1 \<and> firstPacket c = 7"
proof -
  define a where "a = snd (the (pq_Emplace (0 :: nat) (newPacketNumberIndexedQueue 0 2 4) 5 (Some 50)))"
  define b where "b = snd (the (pq_Emplace 0 a 7 (Some 70)))"
  define c where "c = snd (the (pq_Remove 0 b 5))"
  have a: "pq_Emplace 0 (newPacketNumberIndexedQueue 0 2 4) 5 (Some 50) = Some (True, a)"
    unfolding a_def by code_simp
  have b: "pq_Emplace 0 a 7 (Some 70) = Some (True, b)" "\<not> pq_IsEmpty a" "firstPacket a = 5" "maxSlots a = 4"
    unfolding b_def a_def by code_simp+
  have c: "pq_Remove 0 b 5 = Some (Some 50, c)" "pq_EntrySlotsUsed c = 1" "firstPacket c = 7"
    unfolding c_def b_def a_def by code_simp+
  have "pq_reachable 0 (newPacketNumberIndexedQueue 0 2 4)" by (rule pq_reachable.new)
  then have "pq_reachable 0 a"
    by (rule pq_reachable.emplace [OF _ _ _ a]) (simp_all add: newPacketNumberIndexedQueue_def pq_IsEmpty_def Let_def)
  then have "pq_reachable 0 b" by (rule pq_reachable.emplace [OF _ _ _ b(1)]) (simp_all add: b)
  then have "pq_reachable 0 c" by (rule pq_reachable.remove [OF _ c(1)])
  from pq_reachable_inv [OF this] a b(1) c show ?thesis by blast
qed

text \<open>
  The front can go stale once the budget is reached. With a budget of four slots,
  insert packets 1, 3 and 5 (which drops packet 1 and leaves the hole 2 in front), remove 3
  and 5, then insert 6: \<open>Emplace\<close> reports success, but \<open>GetEntry\<close> does not find packet 6
  and the queue uses five slots, one more than its budget. \<open>Emplace\<close> does not clear the
  absent slots its own \<open>dropFront\<close> leaves at the front, which \<open>IsEmpty\<close> then hides.
\<close>

lemma pq_Emplace_stale_front:
  "do { (_, a) \<leftarrow> pq_Emplace (0 :: nat) (newPacketNumberIndexedQueue 0 4 4) 1 (Some 10);
        (_, b) \<leftarrow> pq_Emplace 0 a 3 (Some 30);
        (_, c) \<leftarrow> pq_Emplace 0 b 5 (Some 50);
        (_, d) \<leftarrow> pq_Remove 0 c 3;
        (_, e) \<leftarrow> pq_Remove 0 d 5;
        (ok, f) \<leftarrow> pq_Emplace 0 e 6 (Some 60);
        got \<leftarrow> pq_GetEntry f 6;
        Some (ok, got, pq_EntrySlotsUsed f, maxSlots f) } =
   Some (True, None, 5, 4)"
  by code_simp

end
