(* ===== verification/WindowedFilter.thy ===== *)
theory WindowedFilter
  imports Prelude
begin

section \<open>The windowed maximum filter\<close>

text \<open>
  Models \<open>protocol/tuic/congestion/bbr/windowed_filter.go\<close> at the instance the senders use:
  time is a \<open>roundTripCount\<close>, a \<open>uint64\<close> (here a 64-bit word, so subtraction wraps), the
  value type is arbitrary with zero value \<open>z\<close> and a comparator. The slice \<open>estimates\<close> of
  length three is three fields. The contract of a comparator is the locale \<open>cmp_order\<close>;
  the filter's lemmas are proved in it and used at \<open>MaxFilter\<close> and \<open>MinFilter\<close>.
\<close>

type_synonym time = "64 word"

record 'v wf_entry =
  sample :: 'v
  wf_time :: time

record 'v WindowedFilter =
  windowLength :: time
  est0 :: "'v wf_entry"
  est1 :: "'v wf_entry"
  est2 :: "'v wf_entry"
  comparator :: "'v \<Rightarrow> 'v \<Rightarrow> int"

definition MaxFilter :: "'v :: linorder \<Rightarrow> 'v \<Rightarrow> int" where
  "MaxFilter a b = (if a > b then 1 else if a < b then -1 else 0)"

definition MinFilter :: "'v :: linorder \<Rightarrow> 'v \<Rightarrow> int" where
  "MinFilter a b = (if a < b then 1 else if a > b then -1 else 0)"

definition wf_zero :: "'v \<Rightarrow> 'v wf_entry" where
  "wf_zero z = \<lparr>sample = z, wf_time = 0\<rparr>"

definition NewWindowedFilter :: "'v \<Rightarrow> time \<Rightarrow> ('v \<Rightarrow> 'v \<Rightarrow> int) \<Rightarrow> 'v WindowedFilter" where
  "NewWindowedFilter z len cmp =
     \<lparr>windowLength = len, est0 = wf_zero z, est1 = wf_zero z, est2 = wf_zero z, comparator = cmp\<rparr>"

definition wf_SetWindowLength :: "'v WindowedFilter \<Rightarrow> time \<Rightarrow> 'v WindowedFilter" where
  "wf_SetWindowLength f len = f\<lparr>windowLength := len\<rparr>"

definition wf_GetBest :: "'v WindowedFilter \<Rightarrow> 'v" where
  "wf_GetBest f = sample (est0 f)"

definition wf_GetSecondBest :: "'v WindowedFilter \<Rightarrow> 'v" where
  "wf_GetSecondBest f = sample (est1 f)"

definition wf_GetThirdBest :: "'v WindowedFilter \<Rightarrow> 'v" where
  "wf_GetThirdBest f = sample (est2 f)"

definition wf_Reset :: "'v WindowedFilter \<Rightarrow> 'v \<Rightarrow> time \<Rightarrow> 'v WindowedFilter" where
  "wf_Reset f newSample newTime =
     (let e = \<lparr>sample = newSample, wf_time = newTime\<rparr> in f\<lparr>est2 := e, est1 := e, est0 := e\<rparr>)"

definition wf_Clear :: "'v \<Rightarrow> 'v WindowedFilter \<Rightarrow> 'v WindowedFilter" where
  "wf_Clear z f = f\<lparr>est0 := wf_zero z, est1 := wf_zero z, est2 := wf_zero z\<rparr>"

text \<open>
  \<open>Update\<close> is cut at its two comments: a sample that is not a new best first replaces the
  second or third estimate, then the estimates that are too old are expired.
\<close>

definition wf_replace :: "'v WindowedFilter \<Rightarrow> 'v wf_entry \<Rightarrow> 'v WindowedFilter" where
  "wf_replace f e =
     (if comparator f (sample e) (sample (est1 f)) \<ge> 0 then f\<lparr>est1 := e, est2 := e\<rparr>
      else if comparator f (sample e) (sample (est2 f)) \<ge> 0 then f\<lparr>est2 := e\<rparr>
      else f)"

definition wf_expire :: "'v WindowedFilter \<Rightarrow> 'v wf_entry \<Rightarrow> 'v WindowedFilter" where
  "wf_expire f e =
     (if wf_time e - wf_time (est0 f) > windowLength f then
        let f2 = f\<lparr>est0 := est1 f, est1 := est2 f, est2 := e\<rparr> in
        if wf_time e - wf_time (est0 f2) > windowLength f2
        then f2\<lparr>est0 := est1 f2, est1 := est2 f2\<rparr> else f2
      else if comparator f (sample (est1 f)) (sample (est0 f)) = 0 \<and>
              wf_time e - wf_time (est1 f) > windowLength f div 4
      then f\<lparr>est1 := e, est2 := e\<rparr>
      else if comparator f (sample (est2 f)) (sample (est1 f)) = 0 \<and>
              wf_time e - wf_time (est2 f) > windowLength f div 2
      then f\<lparr>est2 := e\<rparr>
      else f)"

definition wf_Update :: "'v \<Rightarrow> 'v WindowedFilter \<Rightarrow> 'v \<Rightarrow> time \<Rightarrow> 'v WindowedFilter" where
  "wf_Update z f newSample newTime =
     (if comparator f (sample (est0 f)) z = 0 \<or>
         comparator f newSample (sample (est0 f)) \<ge> 0 \<or>
         newTime - wf_time (est2 f) > windowLength f
      then wf_Reset f newSample newTime
      else
        let e = \<lparr>sample = newSample, wf_time = newTime\<rparr> in wf_expire (wf_replace f e) e)"

subsection \<open>The contract of a comparator\<close>

text \<open>
  \<open>suffix_best cmp h e\<close>: the entry \<open>e\<close> was recorded in the history \<open>h\<close> (oldest first) and no
  later sample is better. \<open>wf_hist\<close> is what the filter knows about the samples it was fed.
\<close>

definition suffix_best :: "('v \<Rightarrow> 'v \<Rightarrow> int) \<Rightarrow> ('v \<times> time) list \<Rightarrow> 'v wf_entry \<Rightarrow> bool" where
  "suffix_best cmp h e \<longleftrightarrow>
     (\<exists>pre post. h = pre @ (sample e, wf_time e) # post \<and> (\<forall>x \<in> set post. cmp (fst x) (sample e) \<le> 0))"

definition wf_hist :: "('v \<Rightarrow> 'v \<Rightarrow> int) \<Rightarrow> ('v \<times> time) list \<Rightarrow> 'v WindowedFilter \<Rightarrow> bool" where
  "wf_hist cmp h f \<longleftrightarrow>
     comparator f = cmp \<and>
     suffix_best cmp h (est0 f) \<and> suffix_best cmp h (est1 f) \<and> suffix_best cmp h (est2 f) \<and>
     cmp (sample (est1 f)) (sample (est0 f)) \<le> 0 \<and> cmp (sample (est2 f)) (sample (est1 f)) \<le> 0"

primrec wf_run :: "'v \<Rightarrow> 'v WindowedFilter \<Rightarrow> ('v \<times> time) list \<Rightarrow> 'v WindowedFilter" where
  "wf_run z f [] = f"
| "wf_run z f (x # xs) = wf_run z (wf_Update z f (fst x) (snd x)) xs"

locale cmp_order =
  fixes cmp :: "'v \<Rightarrow> 'v \<Rightarrow> int"
  assumes cmp_flip: "cmp a b \<le> 0 \<longleftrightarrow> cmp b a \<ge> 0"
    and cmp_trans: "cmp a b \<le> 0 \<Longrightarrow> cmp b c \<le> 0 \<Longrightarrow> cmp a c \<le> 0"
begin

lemma cmp_refl [simp]: "cmp a a \<le> 0"
  using cmp_flip [of a a] by linarith

lemma suffix_best_new: "suffix_best cmp (h @ [(sample e, wf_time e)]) e"
  unfolding suffix_best_def by (rule exI [of _ h], rule exI [of _ "[]"]) simp

lemma suffix_best_snoc:
  assumes "suffix_best cmp h e" "cmp s (sample e) \<le> 0"
  shows "suffix_best cmp (h @ [(s, t)]) e"
proof -
  obtain pre post where "h = pre @ (sample e, wf_time e) # post"
      "\<forall>x \<in> set post. cmp (fst x) (sample e) \<le> 0"
    using assms(1) unfolding suffix_best_def by blast
  with assms(2) show ?thesis
    unfolding suffix_best_def by (intro exI [of _ pre] exI [of _ "post @ [(s, t)]"]) auto
qed

lemma wf_hist_Reset:
  "comparator f = cmp \<Longrightarrow> wf_hist cmp (h @ [(s, t)]) (wf_Reset f s t)"
  using suffix_best_new [of h "\<lparr>sample = s, wf_time = t\<rparr>"]
  by (simp add: wf_hist_def wf_Reset_def Let_def)

lemma wf_hist_replace:
  assumes "wf_hist cmp h f" "cmp (sample e) (sample (est0 f)) \<le> 0" "h' = h @ [(sample e, wf_time e)]"
  shows "wf_hist cmp h' (wf_replace f e) \<and> cmp (sample e) (sample (est2 (wf_replace f e))) \<le> 0"
proof -
  have new: "suffix_best cmp h' e" unfolding assms(3) by (rule suffix_best_new)
  have keep: "suffix_best cmp h' x" if "suffix_best cmp h x" "cmp (sample e) (sample x) \<le> 0" for x
    using suffix_best_snoc [OF that] assms(3) by simp
  from assms(1) have old: "comparator f = cmp" "suffix_best cmp h (est0 f)" "suffix_best cmp h (est1 f)"
      "suffix_best cmp h (est2 f)" "cmp (sample (est1 f)) (sample (est0 f)) \<le> 0"
      "cmp (sample (est2 f)) (sample (est1 f)) \<le> 0"
    by (simp_all add: wf_hist_def)
  show ?thesis
    using old(5,6) new keep [OF old(2)] keep [OF old(3)] keep [OF old(4)] assms(2)
    by (simp add: wf_replace_def wf_hist_def old(1))
qed

lemma wf_hist_expire:
  assumes "wf_hist cmp h f" "suffix_best cmp h e" "cmp (sample e) (sample (est2 f)) \<le> 0"
  shows "wf_hist cmp h (wf_expire f e)"
proof -
  have "cmp (sample (est2 f)) (sample (est1 f)) \<le> 0" "cmp (sample (est1 f)) (sample (est0 f)) \<le> 0"
    using assms(1) by (simp_all add: wf_hist_def)
  from cmp_trans [OF assms(3) this(1)] cmp_trans [OF cmp_trans [OF assms(3) this(1)] this(2)] assms
  show ?thesis
    by (auto simp: wf_expire_def wf_hist_def Let_def)
qed

lemma wf_hist_step:
  assumes "wf_hist cmp h f"
  shows "wf_hist cmp (h @ [(s, t)]) (wf_Update z f s t)"
proof (cases "cmp (sample (est0 f)) z = 0 \<or> cmp s (sample (est0 f)) \<ge> 0 \<or>
         t - wf_time (est2 f) > windowLength f")
  case True
  with assms wf_hist_Reset [of f h s t] show ?thesis
    by (simp add: wf_Update_def wf_hist_def)
next
  case False
  let ?e = "\<lparr>sample = s, wf_time = t\<rparr>"
  have r: "wf_hist cmp (h @ [(s, t)]) (wf_replace f ?e)"
      "cmp (sample ?e) (sample (est2 (wf_replace f ?e))) \<le> 0"
    using wf_hist_replace [OF assms, of ?e] False by auto
  have "wf_Update z f s t = wf_expire (wf_replace f ?e) ?e"
    using False assms by (simp add: wf_Update_def wf_hist_def Let_def)
  moreover have "suffix_best cmp (h @ [(s, t)]) ?e" using suffix_best_new [of h ?e] by simp
  ultimately show ?thesis using wf_hist_expire [OF r(1) _ r(2)] by simp
qed

lemma wf_hist_run:
  "wf_hist cmp h f \<Longrightarrow> wf_hist cmp (h @ xs) (wf_run z f xs)"
proof (induction xs arbitrary: h f)
  case (Cons x xs)
  then show ?case using wf_hist_step [of h f "fst x" "snd x" z] by fastforce
qed simp

text \<open>A fresh filter has the zero value as its best sample, so the first update resets it.\<close>

lemma wf_hist_first:
  assumes "cmp z z = 0" "f = NewWindowedFilter z len cmp"
  shows "wf_hist cmp [(s, t)] (wf_Update z f s t)"
  using wf_hist_Reset [of f "[]" s t] assms
  by (simp add: wf_Update_def NewWindowedFilter_def wf_zero_def)

lemma wf_run_hist:
  assumes "cmp z z = 0" "xs \<noteq> []"
  shows "wf_hist cmp xs (wf_run z (NewWindowedFilter z len cmp) xs)"
proof (cases xs)
  case (Cons x ys)
  then show ?thesis
    using wf_hist_run [OF wf_hist_first [OF assms(1) refl, of "fst x" "snd x" len], of ys z] by simp
qed (use assms in simp)

end

subsection \<open>Freshness\<close>

lemma wf_replace_windowLength [simp]: "windowLength (wf_replace f e) = windowLength f"
  by (simp add: wf_replace_def)

lemma wf_replace_est2:
  "est2 (wf_replace f e) = est2 f \<or> est2 (wf_replace f e) = e"
  by (simp add: wf_replace_def)

lemma wf_expire_fresh:
  assumes "wf_time e - wf_time (est2 f) \<le> windowLength f"
  shows "wf_time e - wf_time (est0 (wf_expire f e)) \<le> windowLength f"
  using assms by (simp add: wf_expire_def Let_def not_less)

lemma wf_Update_windowLength [simp]: "windowLength (wf_Update z f s t) = windowLength f"
  by (simp add: wf_Update_def wf_Reset_def Let_def wf_expire_def)

lemma wf_Update_fresh: "t - wf_time (est0 (wf_Update z f s t)) \<le> windowLength f"
proof (cases "comparator f (sample (est0 f)) z = 0 \<or> comparator f s (sample (est0 f)) \<ge> 0 \<or>
         t - wf_time (est2 f) > windowLength f")
  case True
  then show ?thesis by (simp add: wf_Update_def wf_Reset_def Let_def)
next
  case False
  let ?e = "\<lparr>sample = s, wf_time = t\<rparr>"
  have "wf_time ?e - wf_time (est2 (wf_replace f ?e)) \<le> windowLength (wf_replace f ?e)"
    using wf_replace_est2 [of f ?e] False by auto
  from wf_expire_fresh [OF this] False show ?thesis by (simp add: wf_Update_def Let_def)
qed

lemma wf_run_windowLength [simp]: "windowLength (wf_run z f xs) = windowLength f"
  by (induction xs arbitrary: f) simp_all

lemma wf_run_snoc: "wf_run z f (xs @ [x]) = wf_Update z (wf_run z f xs) (fst x) (snd x)"
  by (induction xs arbitrary: f) simp_all

lemma wf_run_fresh:
  assumes "xs \<noteq> []"
  shows "snd (last xs) - wf_time (est0 (wf_run z f xs)) \<le> windowLength f"
  using assms wf_run_snoc [of z f "butlast xs" "last xs"]
    wf_Update_fresh [of "snd (last xs)" z "wf_run z f (butlast xs)" "fst (last xs)"]
  by simp

subsection \<open>How long a sample counts\<close>

text \<open>
  A sample leads when it is at least every sample of the window before it. \<open>wf_leads\<close>: the best
  estimate is at least every leading sample of the window before the newest one, and is not older
  than it. This needs a clock that does not run backwards, and then the three estimates are in
  the order of their times.
\<close>

definition window_lead :: "('v \<Rightarrow> 'v \<Rightarrow> int) \<Rightarrow> time \<Rightarrow> ('v \<times> time) list \<Rightarrow> nat \<Rightarrow> bool" where
  "window_lead cmp len h i \<longleftrightarrow> (\<forall>j < i. snd (h ! i) - snd (h ! j) \<le> len \<longrightarrow> cmp (fst (h ! j)) (fst (h ! i)) \<le> 0)"

definition wf_ordered :: "time \<Rightarrow> 'v WindowedFilter \<Rightarrow> bool" where
  "wf_ordered t f \<longleftrightarrow>
     wf_time (est0 f) \<le> wf_time (est1 f) \<and> wf_time (est1 f) \<le> wf_time (est2 f) \<and> wf_time (est2 f) \<le> t"

definition wf_leads :: "('v \<Rightarrow> 'v \<Rightarrow> int) \<Rightarrow> ('v \<times> time) list \<Rightarrow> 'v WindowedFilter \<Rightarrow> bool" where
  "wf_leads cmp h f \<longleftrightarrow>
     (\<forall>i < length h. window_lead cmp (windowLength f) h i \<and> snd (last h) - snd (h ! i) \<le> windowLength f \<longrightarrow>
        snd (h ! i) \<le> wf_time (est0 f) \<and> cmp (fst (h ! i)) (sample (est0 f)) \<le> 0)"

lemma elapsed_mono:
  fixes a b t :: time
  shows "a \<le> b \<Longrightarrow> b \<le> t \<Longrightarrow> t - b \<le> t - a"
  by (simp add: word_le_nat_alt unat_sub)

lemma elapsed_shorter:
  fixes a now t :: time
  shows "a \<le> now \<Longrightarrow> now \<le> t \<Longrightarrow> now - a \<le> t - a"
  by (simp add: word_le_nat_alt unat_sub)

lemma sorted_last: "sorted (map snd h) \<Longrightarrow> y \<in> set h \<Longrightarrow> snd y \<le> snd (last h)"
  by (induction h rule: rev_induct) (auto simp: sorted_append)

lemma wf_ordered_later: "wf_ordered now f \<Longrightarrow> now \<le> t \<Longrightarrow> wf_ordered t f"
  by (auto simp: wf_ordered_def)

lemma wf_ordered_replace: "wf_ordered (wf_time e) f \<Longrightarrow> wf_ordered (wf_time e) (wf_replace f e)"
  by (auto simp: wf_ordered_def wf_replace_def)

lemma wf_ordered_expire:
  assumes "wf_ordered (wf_time e) f"
  shows "wf_ordered (wf_time e) (wf_expire f e)"
proof -
  from assms have "wf_time (est0 f) \<le> wf_time e" "wf_time (est1 f) \<le> wf_time e" by (auto simp: wf_ordered_def)
  with assms show ?thesis by (simp add: wf_ordered_def wf_expire_def Let_def)
qed

lemma wf_ordered_step:
  assumes "wf_ordered now f" "now \<le> t"
  shows "wf_ordered t (wf_Update z f s t)"
proof -
  let ?e = "\<lparr>sample = s, wf_time = t\<rparr>"
  have "wf_ordered t (wf_expire (wf_replace f ?e) ?e)"
    using wf_ordered_expire [of ?e, OF wf_ordered_replace] wf_ordered_later [OF assms] by simp
  moreover have "wf_ordered t (wf_Reset f s t)" by (simp add: wf_ordered_def wf_Reset_def Let_def)
  ultimately show ?thesis by (simp add: wf_Update_def Let_def)
qed

context cmp_order
begin

lemma Update_keeps_lead:
  assumes f: "comparator f = cmp" "wf_ordered now f" "now \<le> t" and z: "cmp z s \<le> 0"
    and x: "a \<le> wf_time (est0 f)" "cmp x (sample (est0 f)) \<le> 0" "t - a \<le> windowLength f"
  shows "a \<le> wf_time (est0 (wf_Update z f s t)) \<and> cmp x (sample (est0 (wf_Update z f s t))) \<le> 0"
proof -
  let ?e = "\<lparr>sample = s, wf_time = t\<rparr>"
  have o: "wf_time (est0 f) \<le> t" "wf_time (est2 f) \<le> t" "wf_time (est0 f) \<le> wf_time (est2 f)"
    using f(2,3) by (auto simp: wf_ordered_def)
  have young: "t - wf_time (est0 f) \<le> windowLength f" "t - wf_time (est2 f) \<le> windowLength f"
    using elapsed_mono [OF x(1) o(1)] elapsed_mono [OF order_trans [OF x(1) o(3)] o(2)] x(3) by simp_all
  show ?thesis
  proof (cases "cmp (sample (est0 f)) z = 0 \<or> cmp s (sample (est0 f)) \<ge> 0")
    case True
    then have "cmp (sample (est0 f)) s \<le> 0" 
      using cmp_trans [of "sample (est0 f)" z s] z cmp_flip [of "sample (est0 f)" s] by fastforce
    moreover have "wf_Update z f s t = wf_Reset f s t" using True f(1) by (auto simp: wf_Update_def)
    ultimately show ?thesis using cmp_trans [OF x(2)] order_trans [OF x(1) o(1)] by (simp add: wf_Reset_def Let_def)
  next
    case False
    have "est0 (wf_replace f ?e) = est0 f" by (simp add: wf_replace_def)
    with False f(1) young have "est0 (wf_Update z f s t) = est0 f"
      by (simp add: wf_Update_def wf_expire_def Let_def not_less [symmetric])
    with x show ?thesis by simp
  qed
qed

lemma Update_new_lead:
  assumes f: "wf_hist cmp h f"
    and lead: "\<And>y. y \<in> set h \<Longrightarrow> t - snd y \<le> windowLength f \<Longrightarrow> cmp (fst y) s \<le> 0"
  shows "est0 (wf_Update z f s t) = \<lparr>sample = s, wf_time = t\<rparr>"
proof (cases "cmp (sample (est0 f)) z = 0 \<or> cmp s (sample (est0 f)) \<ge> 0 \<or> t - wf_time (est2 f) > windowLength f")
  case True
  with f show ?thesis by (simp add: wf_Update_def wf_Reset_def wf_hist_def Let_def)
next
  case False
  have old: "t - wf_time e > windowLength f" if "suffix_best cmp h e" "\<not> cmp s (sample e) \<ge> 0" for e
  proof -
    have "(sample e, wf_time e) \<in> set h" using that(1) by (auto simp: suffix_best_def)
    from lead [OF this] that(2) cmp_flip [of "sample e" s] show ?thesis
      by (cases "t - wf_time e \<le> windowLength f") auto
  qed
  from f have h: "comparator f = cmp" "suffix_best cmp h (est0 f)" "suffix_best cmp h (est1 f)" "suffix_best cmp h (est2 f)"
    by (simp_all add: wf_hist_def)
  have "t - wf_time (est0 f) > windowLength f" using old [OF h(2)] False by blast
  moreover have "cmp s (sample (est2 f)) \<ge> 0" using old [OF h(4)] False by blast
  moreover have "cmp s (sample (est1 f)) \<ge> 0 \<or> t - wf_time (est1 f) > windowLength f" using old [OF h(3)] by blast
  ultimately show ?thesis using False h(1)
    by (auto simp: wf_Update_def wf_replace_def wf_expire_def Let_def)
qed

lemma wf_leads_step:
  assumes f: "wf_hist cmp h f" "wf_ordered (snd (last h)) f" "wf_leads cmp h f"
    and h: "h \<noteq> []" "\<forall>y \<in> set h. snd y \<le> snd (last h)" "snd (last h) \<le> t" and z: "cmp z s \<le> 0"
  shows "wf_leads cmp (h @ [(s, t)]) (wf_Update z f s t)"
  unfolding wf_leads_def
proof (intro allI impI, elim conjE)
  fix i
  assume i: "i < length (h @ [(s, t)])" and
    l: "window_lead cmp (windowLength (wf_Update z f s t)) (h @ [(s, t)]) i" and
    w: "snd (last (h @ [(s, t)])) - snd ((h @ [(s, t)]) ! i) \<le> windowLength (wf_Update z f s t)"
  show "snd ((h @ [(s, t)]) ! i) \<le> wf_time (est0 (wf_Update z f s t)) \<and>
      cmp (fst ((h @ [(s, t)]) ! i)) (sample (est0 (wf_Update z f s t))) \<le> 0"
  proof (cases "i = length h")
    case True
    have "cmp (fst y) s \<le> 0" if "y \<in> set h" "t - snd y \<le> windowLength f" for y
      using that l True by (auto simp: window_lead_def in_set_conv_nth nth_append)
    from Update_new_lead [OF f(1) this, of t z] True show ?thesis by simp
  next
    case False
    with i have j: "i < length h" "(h @ [(s, t)]) ! i = h ! i" by (simp_all add: nth_append)
    have "snd (h ! i) \<le> snd (last h)" using h(2) j(1) by simp
    from elapsed_shorter [OF this h(3)] w j have "snd (last h) - snd (h ! i) \<le> windowLength f" by simp
    moreover have "window_lead cmp (windowLength f) h i" using l j(1) by (auto simp: window_lead_def nth_append)
    ultimately have "snd (h ! i) \<le> wf_time (est0 f)" "cmp (fst (h ! i)) (sample (est0 f)) \<le> 0"
      using f(3) j(1) by (simp_all add: wf_leads_def)
    from Update_keeps_lead [OF _ f(2) h(3) z this] f(1) w j show ?thesis by (simp add: wf_hist_def)
  qed
qed

lemma wf_run_leads:
  assumes "cmp z z = 0" "xs \<noteq> []" "sorted (map snd xs)" "\<forall>x \<in> set xs. cmp z (fst x) \<le> 0"
  shows "wf_ordered (snd (last xs)) (wf_run z (NewWindowedFilter z len cmp) xs) \<and>
    wf_leads cmp xs (wf_run z (NewWindowedFilter z len cmp) xs)"
  using assms(2-4)
proof (induction xs rule: rev_nonempty_induct)
  case (single x)
  with assms(1) show ?case
    by (simp add: NewWindowedFilter_def wf_zero_def wf_Update_def wf_Reset_def wf_ordered_def wf_leads_def Let_def)
next
  case (snoc x h)
  let ?f = "wf_run z (NewWindowedFilter z len cmp) h"
  have t: "\<forall>y \<in> set h. snd y \<le> snd x" and s: "sorted (map snd h)" using snoc.prems(1) by (auto simp: sorted_append)
  have "\<forall>y \<in> set h. snd y \<le> snd (last h)" using sorted_last [OF s] by blast
  moreover have "snd (last h) \<le> snd x" using t snoc.hyps by simp
  moreover have "wf_ordered (snd (last h)) ?f" "wf_leads cmp h ?f" using snoc.IH s snoc.prems(2) by simp_all
  ultimately show ?case
    using wf_leads_step [OF wf_run_hist [OF assms(1) snoc.hyps], of len "snd x" z "fst x"] wf_ordered_step snoc.hyps snoc.prems(2)
    by (simp add: wf_run_snoc)
qed

end

interpretation max_cmp: cmp_order "MaxFilter :: 'v :: linorder \<Rightarrow> 'v \<Rightarrow> int"
  by unfold_locales (auto simp: MaxFilter_def split: if_splits)

interpretation min_cmp: cmp_order "MinFilter :: 'v :: linorder \<Rightarrow> 'v \<Rightarrow> int"
  by unfold_locales (auto simp: MinFilter_def split: if_splits)

lemma MaxFilter_le [simp]: "MaxFilter a b \<le> 0 \<longleftrightarrow> a \<le> b"
  by (auto simp: MaxFilter_def)

lemma MinFilter_le [simp]: "MinFilter a b \<le> 0 \<longleftrightarrow> b \<le> a"
  by (auto simp: MinFilter_def)

subsection \<open>Properties\<close>

text \<open>
  C13: The maximum filter on a clock that does not run backwards, with zero the least value. After
  any non-empty sequence of samples the best estimate is a sample that was really fed, recorded no
  longer than one window before the newest sample, and it is at least every sample from its own
  recording on. A sample that was at least every sample of the window before it counts for one
  whole window: until then the best estimate is not below it. The second and third best never
  exceed the best. A sample below the best of its time may be forgotten sooner, see \<open>wf_forgets\<close>.
\<close>

theorem wf_max_window:
  fixes xs :: "('v :: linorder \<times> time) list"
  assumes "xs \<noteq> []" "sorted (map snd xs)" "\<forall>x \<in> set xs. z \<le> fst x"
  shows "let f = wf_run z (NewWindowedFilter z len MaxFilter) xs in
    (\<exists>pre post. xs = pre @ (wf_GetBest f, wf_time (est0 f)) # post \<and>
       (\<forall>x \<in> set post. fst x \<le> wf_GetBest f)) \<and>
    snd (last xs) - wf_time (est0 f) \<le> len \<and>
    (\<forall>i < length xs. (\<forall>j < i. snd (xs ! i) - snd (xs ! j) \<le> len \<longrightarrow> fst (xs ! j) \<le> fst (xs ! i)) \<and>
       snd (last xs) - snd (xs ! i) \<le> len \<longrightarrow> fst (xs ! i) \<le> wf_GetBest f) \<and>
    wf_GetThirdBest f \<le> wf_GetSecondBest f \<and> wf_GetSecondBest f \<le> wf_GetBest f"
proof -
  let ?f = "wf_run z (NewWindowedFilter z len MaxFilter) xs"
  have z: "MaxFilter z z = 0" by (simp add: MaxFilter_def)
  have len: "windowLength ?f = len" by (simp add: NewWindowedFilter_def)
  have "wf_hist MaxFilter xs ?f" by (rule max_cmp.wf_run_hist [OF z assms(1)])
  moreover have "snd (last xs) - wf_time (est0 ?f) \<le> len"
    using wf_run_fresh [OF assms(1), of z "NewWindowedFilter z len MaxFilter"]
    by (simp add: NewWindowedFilter_def)
  moreover have "wf_leads MaxFilter xs ?f"
    using max_cmp.wf_run_leads [OF z assms(1,2), of len] assms(3) by simp
  then have "\<forall>i < length xs. (\<forall>j < i. snd (xs ! i) - snd (xs ! j) \<le> len \<longrightarrow> fst (xs ! j) \<le> fst (xs ! i)) \<and>
      snd (last xs) - snd (xs ! i) \<le> len \<longrightarrow> fst (xs ! i) \<le> sample (est0 ?f)"
    unfolding wf_leads_def window_lead_def len by simp
  ultimately show ?thesis
    by (simp add: wf_hist_def suffix_best_def wf_GetBest_def wf_GetSecondBest_def
        wf_GetThirdBest_def Let_def)
qed

theorem wf_max_window_witness:
  "let f = wf_run (0 :: 64 word) (NewWindowedFilter 0 10 MaxFilter) [(50, 1), (40, 4), (30, 9)] in
   (\<exists>pre post. [(50, 1), (40, 4), (30, 9)] = pre @ (wf_GetBest f, wf_time (est0 f)) # post) \<and>
   (50 :: 64 word) \<le> wf_GetBest f \<and> 9 - wf_time (est0 f) \<le> 10"
proof -
  let ?xs = "[(50, 1), (40, 4), (30, 9)] :: (64 word \<times> time) list"
  let ?f = "wf_run (0 :: 64 word) (NewWindowedFilter 0 10 MaxFilter) ?xs"
  have "?xs \<noteq> []" "sorted (map snd ?xs)" "\<forall>x \<in> set ?xs. 0 \<le> fst x" by simp_all
  note w = wf_max_window [OF this, of 10, unfolded Let_def]
  from w have "\<forall>i < length ?xs. (\<forall>j < i. snd (?xs ! i) - snd (?xs ! j) \<le> 10 \<longrightarrow> fst (?xs ! j) \<le> fst (?xs ! i)) \<and>
      snd (last ?xs) - snd (?xs ! i) \<le> 10 \<longrightarrow> fst (?xs ! i) \<le> wf_GetBest ?f" by (elim conjE)
  from this [rule_format, of 0] have "50 \<le> wf_GetBest ?f" by simp
  moreover from w have "\<exists>pre post. ?xs = pre @ (wf_GetBest ?f, wf_time (est0 ?f)) # post" by blast
  moreover from w have "snd (last ?xs) - wf_time (est0 ?f) \<le> 10" by (elim conjE)
  ultimately show ?thesis by (simp only: Let_def last.simps snd_conv list.simps if_True if_False) simp
qed

text \<open>
  A sample fed just after a better one is not recorded, since the two lower places still hold the
  better one: at time 12 the sample 40 of time 2 is one window old, and the best estimate is 10.
\<close>

lemma wf_forgets:
  "wf_GetBest (wf_run (0 :: 64 word) (NewWindowedFilter 0 10 MaxFilter) [(50, 1), (40, 2), (10, 5), (5, 12)]) = 10"
  by code_simp

text \<open>
  The minimum filter, dually: the best estimate is the minimum of every sample from its
  own recording on and is never older than the window.
\<close>

lemma wf_min_window:
  fixes xs :: "('v :: linorder \<times> time) list"
  assumes "xs \<noteq> []"
  shows "let f = wf_run z (NewWindowedFilter z len MinFilter) xs in
    (\<exists>pre post. xs = pre @ (wf_GetBest f, wf_time (est0 f)) # post \<and>
       (\<forall>x \<in> set post. wf_GetBest f \<le> fst x)) \<and>
    snd (last xs) - wf_time (est0 f) \<le> len"
proof -
  let ?f = "wf_run z (NewWindowedFilter z len MinFilter) xs"
  have "wf_hist MinFilter xs ?f"
    by (rule min_cmp.wf_run_hist) (simp_all add: MinFilter_def assms)
  moreover have "snd (last xs) - wf_time (est0 ?f) \<le> len"
    using wf_run_fresh [OF assms, of z "NewWindowedFilter z len MinFilter"]
    by (simp add: NewWindowedFilter_def)
  ultimately show ?thesis
    by (simp add: wf_hist_def suffix_best_def wf_GetBest_def Let_def)
qed

lemma wf_min_window_witness:
  "let f = wf_run (0 :: 64 word) (NewWindowedFilter 0 10 MinFilter) [(50, 1), (40, 4), (60, 12)] in
   wf_GetBest f = 40 \<and> snd (last [(50 :: 64 word, 1), (40, 4), (60, 12)]) - wf_time (est0 f) \<le> 10"
proof -
  have "wf_GetBest (wf_run (0 :: 64 word) (NewWindowedFilter 0 10 MinFilter)
      [(50, 1), (40, 4), (60, 12)]) = 40"
    by code_simp
  with wf_min_window [of "[(50 :: 64 word, 1), (40, 4), (60, 12)]" 0 10] show ?thesis
    by (simp only: Let_def) blast
qed

end
