(* ===== verification/BandwidthSampler.thy ===== *)
theory BandwidthSampler
  imports PacketQueue WindowedFilter
begin

section \<open>The bandwidth sampler of BBR\<close>

text \<open>
  Models \<open>protocol/tuic/congestion/bbr/bandwidth_sampler.go\<close>, \<open>bandwidth.go\<close> and \<open>refsampler.go\<close> over the packet-number
  indexed queue, the windowed filter and the ring buffer. A \<open>time.Time\<close> is an \<open>int\<close>, the nanoseconds since the zero
  time; a \<open>ByteCount\<close> is an \<open>int\<close> whose arithmetic wraps to 64 bits by \<open>s64\<close>; a \<open>Bandwidth\<close> is a \<open>64 word\<close>.
  Of the acked and lost packets that QUIC reports only the fields that are read are kept: the packet
  numbers, and the lost bytes. \<open>None\<close> is a panic of the queue or of the ring.
\<close>

subsection \<open>Numbers\<close>

definition s64 :: "int \<Rightarrow> int" where
  "s64 x = (x + 2 ^ 63) mod 2 ^ 64 - 2 ^ 63"

text \<open>\<open>Time.Sub\<close> saturates.\<close>

definition time_Sub :: "int \<Rightarrow> int \<Rightarrow> int" where
  "time_Sub a b = max (- (2 ^ 63)) (min (2 ^ 63 - 1) (a - b))"

definition infRTT :: int where "infRTT = 2 ^ 63 - 1"

type_synonym Bandwidth = "64 word"

definition infBandwidth :: Bandwidth where "infBandwidth = - 1"

definition BytesPerSecond :: Bandwidth where "BytesPerSecond = 8"

definition BandwidthFromDelta :: "int \<Rightarrow> int \<Rightarrow> Bandwidth" where
  "BandwidthFromDelta bytes delta = word_of_int bytes * 1000000000 div word_of_int delta * BytesPerSecond"

definition bytesFromBandwidthAndTimeDelta :: "Bandwidth \<Rightarrow> int \<Rightarrow> int" where
  "bytesFromBandwidthAndTimeDelta bandwidth delta = go_quot (s64 (sint bandwidth * delta)) (1000000000 * 8)"

text \<open>
  The product wraps before it is divided, so the result stays below \<open>2 ^ 31\<close>: its \<open>float64\<close> is exact,
  and so is the product with the thresholds 1.0 and 2.0, the only ones the code sets. The threshold is an \<open>int\<close>.
\<close>

lemma s64_range: "- (2 ^ 63) \<le> s64 x" "s64 x < 2 ^ 63"
  by (simp_all add: s64_def)

lemma bytesFromBandwidth_exact: "\<bar>bytesFromBandwidthAndTimeDelta bw d\<bar> < 2 ^ 31"
proof -
  have "\<bar>s64 (sint bw * d)\<bar> \<le> 2 ^ 63" using s64_range [of "sint bw * d"] by simp
  then have "\<bar>s64 (sint bw * d)\<bar> div 8000000000 \<le> 2 ^ 63 div 8000000000" by (rule zdiv_mono1) simp
  then show ?thesis by (auto simp: bytesFromBandwidthAndTimeDelta_def go_quot_def sgn_if abs_if split: if_splits)
qed

subsection \<open>Samples and events\<close>

record sendTimeState =
  isValid :: bool
  st_isAppLimited :: bool
  st_totalBytesSent :: int
  st_totalBytesAcked :: int
  st_totalBytesLost :: int
  st_bytesInFlight :: int

definition zero_sendTimeState :: sendTimeState where
  "zero_sendTimeState = \<lparr>isValid = False, st_isAppLimited = False, st_totalBytesSent = 0, st_totalBytesAcked = 0,
     st_totalBytesLost = 0, st_bytesInFlight = 0\<rparr>"

definition newSendTimeState :: "bool \<Rightarrow> int \<Rightarrow> int \<Rightarrow> int \<Rightarrow> int \<Rightarrow> sendTimeState" where
  "newSendTimeState appLimited sent acked lost inFlight =
     \<lparr>isValid = True, st_isAppLimited = appLimited, st_totalBytesSent = sent, st_totalBytesAcked = acked,
      st_totalBytesLost = lost, st_bytesInFlight = inFlight\<rparr>"

record extraAckedEvent =
  extraAcked :: int
  ev_bytesAcked :: int
  timeDelta :: int
  ev_round :: time

definition zero_event :: extraAckedEvent where
  "zero_event = \<lparr>extraAcked = 0, ev_bytesAcked = 0, timeDelta = 0, ev_round = 0\<rparr>"

definition maxExtraAckedEventFunc :: "extraAckedEvent \<Rightarrow> extraAckedEvent \<Rightarrow> int" where
  "maxExtraAckedEventFunc a b =
     (if extraAcked a > extraAcked b then 1 else if extraAcked a < extraAcked b then - 1 else 0)"

record bandwidthSample =
  bs_bandwidth :: Bandwidth
  bs_rtt :: int
  bs_sendRate :: Bandwidth
  stateAtSend :: sendTimeState

definition newBandwidthSample :: bandwidthSample where
  "newBandwidthSample = \<lparr>bs_bandwidth = 0, bs_rtt = 0, bs_sendRate = infBandwidth, stateAtSend = zero_sendTimeState\<rparr>"

subsection \<open>The ack height tracker\<close>

record maxAckHeightTracker =
  maxAckHeightFilter :: "extraAckedEvent WindowedFilter"
  aggregationEpochStartTime :: int
  aggregationEpochBytes :: int
  lastSentPacketNumberBeforeEpoch :: int
  numAckAggregationEpochs :: "64 word"
  ackAggregationBandwidthThreshold :: int
  startNewAggregationEpochAfterFullRound :: bool
  reduceExtraAckedOnBandwidthIncrease :: bool

definition newMaxAckHeightTracker :: "time \<Rightarrow> maxAckHeightTracker" where
  "newMaxAckHeightTracker len =
     \<lparr>maxAckHeightFilter = NewWindowedFilter zero_event len maxExtraAckedEventFunc,
      aggregationEpochStartTime = 0, aggregationEpochBytes = 0, lastSentPacketNumberBeforeEpoch = invalidPacketNumber,
      numAckAggregationEpochs = 0, ackAggregationBandwidthThreshold = 1,
      startNewAggregationEpochAfterFullRound = False, reduceExtraAckedOnBandwidthIncrease = False\<rparr>"

definition mah_Get :: "maxAckHeightTracker \<Rightarrow> int" where
  "mah_Get m = extraAcked (wf_GetBest (maxAckHeightFilter m))"

text \<open>One saved height, recalculated for the new bandwidth and reinserted.\<close>

definition mah_reinsert :: "Bandwidth \<Rightarrow> extraAckedEvent \<Rightarrow> extraAckedEvent WindowedFilter \<Rightarrow> extraAckedEvent WindowedFilter" where
  "mah_reinsert bandwidthEstimate e f =
     (let expectedBytesAcked = bytesFromBandwidthAndTimeDelta bandwidthEstimate (timeDelta e) in
      if expectedBytesAcked < ev_bytesAcked e
      then wf_Update zero_event f (e\<lparr>extraAcked := s64 (ev_bytesAcked e - expectedBytesAcked)\<rparr>) (ev_round e)
      else f)"

definition mah_start_epoch :: "int \<Rightarrow> int \<Rightarrow> int \<Rightarrow> maxAckHeightTracker \<Rightarrow> maxAckHeightTracker" where
  "mah_start_epoch bytesAcked ackTime lastSent m =
     m\<lparr>aggregationEpochBytes := bytesAcked, aggregationEpochStartTime := ackTime,
       lastSentPacketNumberBeforeEpoch := lastSent, numAckAggregationEpochs := numAckAggregationEpochs m + 1\<rparr>"

definition mah_Update ::
    "maxAckHeightTracker \<Rightarrow> Bandwidth \<Rightarrow> bool \<Rightarrow> time \<Rightarrow> int \<Rightarrow> int \<Rightarrow> int \<Rightarrow> int \<Rightarrow> int \<times> maxAckHeightTracker" where
  "mah_Update m0 bandwidthEstimate isNewMaxBandwidth roundTripCount lastSent lastAcked ackTime bytesAcked =
     (let m = (if reduceExtraAckedOnBandwidthIncrease m0 \<and> isNewMaxBandwidth then
                 let f = maxAckHeightFilter m0;
                     best = wf_GetBest f; secondBest = wf_GetSecondBest f; thirdBest = wf_GetThirdBest f in
                 m0\<lparr>maxAckHeightFilter :=
                   mah_reinsert bandwidthEstimate thirdBest
                     (mah_reinsert bandwidthEstimate secondBest
                       (mah_reinsert bandwidthEstimate best (wf_Clear zero_event f)))\<rparr>
               else m0);
          forceNewEpoch = (startNewAggregationEpochAfterFullRound m \<and>
            lastSentPacketNumberBeforeEpoch m \<noteq> invalidPacketNumber \<and> lastAcked \<noteq> invalidPacketNumber \<and>
            lastAcked > lastSentPacketNumberBeforeEpoch m) in
      if aggregationEpochStartTime m = 0 \<or> forceNewEpoch then (0, mah_start_epoch bytesAcked ackTime lastSent m)
      else
        let aggregationDelta = time_Sub ackTime (aggregationEpochStartTime m);
            expectedBytesAcked = bytesFromBandwidthAndTimeDelta bandwidthEstimate aggregationDelta in
        if aggregationEpochBytes m \<le> ackAggregationBandwidthThreshold m * expectedBytesAcked
        then (0, mah_start_epoch bytesAcked ackTime lastSent m)
        else
          let m1 = m\<lparr>aggregationEpochBytes := s64 (aggregationEpochBytes m + bytesAcked)\<rparr>;
              extraBytesAcked = s64 (aggregationEpochBytes m1 - expectedBytesAcked);
              newEvent = \<lparr>extraAcked = extraBytesAcked, ev_bytesAcked = aggregationEpochBytes m1,
                          timeDelta = aggregationDelta, ev_round = 0\<rparr> in
          (extraBytesAcked, m1\<lparr>maxAckHeightFilter := wf_Update zero_event (maxAckHeightFilter m1) newEvent roundTripCount\<rparr>))"

definition mah_SetFilterWindowLength :: "maxAckHeightTracker \<Rightarrow> time \<Rightarrow> maxAckHeightTracker" where
  "mah_SetFilterWindowLength m len = m\<lparr>maxAckHeightFilter := wf_SetWindowLength (maxAckHeightFilter m) len\<rparr>"

definition mah_Reset :: "maxAckHeightTracker \<Rightarrow> int \<Rightarrow> time \<Rightarrow> maxAckHeightTracker" where
  "mah_Reset m newHeight newTime =
     m\<lparr>maxAckHeightFilter := wf_Reset (maxAckHeightFilter m) (zero_event\<lparr>extraAcked := newHeight, ev_round := newTime\<rparr>) newTime\<rparr>"

subsection \<open>Ack points and send records\<close>

record ackPoint =
  ap_ackTime :: int
  ap_totalBytesAcked :: int

definition zero_ackPoint :: ackPoint where
  "zero_ackPoint = \<lparr>ap_ackTime = 0, ap_totalBytesAcked = 0\<rparr>"

record recentAckPoints =
  ackPoint0 :: ackPoint
  ackPoint1 :: ackPoint

definition rap_Update :: "recentAckPoints \<Rightarrow> int \<Rightarrow> int \<Rightarrow> recentAckPoints" where
  "rap_Update r ackTime tot =
     (let r1 = (if ackTime < ap_ackTime (ackPoint1 r) then r\<lparr>ackPoint1 := (ackPoint1 r)\<lparr>ap_ackTime := ackTime\<rparr>\<rparr>
                else if ackTime > ap_ackTime (ackPoint1 r)
                then r\<lparr>ackPoint0 := ackPoint1 r, ackPoint1 := (ackPoint1 r)\<lparr>ap_ackTime := ackTime\<rparr>\<rparr>
                else r) in
      r1\<lparr>ackPoint1 := (ackPoint1 r1)\<lparr>ap_totalBytesAcked := tot\<rparr>\<rparr>)"

definition rap_Clear :: recentAckPoints where
  "rap_Clear = \<lparr>ackPoint0 = zero_ackPoint, ackPoint1 = zero_ackPoint\<rparr>"

definition rap_LessRecentPoint :: "recentAckPoints \<Rightarrow> ackPoint" where
  "rap_LessRecentPoint r = (if ap_totalBytesAcked (ackPoint0 r) \<noteq> 0 then ackPoint0 r else ackPoint1 r)"

record connectionStateOnSentPacket =
  sentTime :: int
  cs_size :: int
  cs_totalBytesSentAtLastAckedPacket :: int
  cs_lastAckedPacketSentTime :: int
  cs_lastAckedPacketAckTime :: int
  cs_sendTimeState :: sendTimeState
  consumed :: bool

definition zero_record :: connectionStateOnSentPacket where
  "zero_record = \<lparr>sentTime = 0, cs_size = 0, cs_totalBytesSentAtLastAckedPacket = 0, cs_lastAckedPacketSentTime = 0,
     cs_lastAckedPacketAckTime = 0, cs_sendTimeState = zero_sendTimeState, consumed = False\<rparr>"

record congestionEventSample =
  sampleMaxBandwidth :: Bandwidth
  sampleIsAppLimited :: bool
  sampleRtt :: int
  sampleMaxInflight :: int
  lastPacketSendState :: sendTimeState
  ce_extraAcked :: int

definition newCongestionEventSample :: congestionEventSample where
  "newCongestionEventSample = \<lparr>sampleMaxBandwidth = 0, sampleIsAppLimited = False, sampleRtt = infRTT, sampleMaxInflight = 0,
     lastPacketSendState = zero_sendTimeState, ce_extraAcked = 0\<rparr>"

subsection \<open>The sampler\<close>

definition initialConnectionStateMapSlots :: int where "initialConnectionStateMapSlots = 64"

text \<open>\<open>MaxCongestionWindowPackets\<close> is a constant of quic-go and an argument here.\<close>

definition maxConnectionStateMapSlots :: "int \<Rightarrow> int" where
  "maxConnectionStateMapSlots maxCongestionWindowPackets = go_quot (5 * maxCongestionWindowPackets) 2"

definition defaultCandidatesBufferSize :: nat where "defaultCandidatesBufferSize = 256"

record bandwidthSampler =
  totalBytesSent :: int
  totalBytesAcked :: int
  totalBytesLost :: int
  totalBytesNeutered :: int
  totalBytesSentAtLastAckedPacket :: int
  lastAckedPacketSentTime :: int
  lastAckedPacketAckTime :: int
  lastSentPacket :: int
  lastAckedPacket :: int
  isAppLimited :: bool
  endOfAppLimitedPhase :: int
  connectionStateMap :: "connectionStateOnSentPacket packetNumberIndexedQueue"
  recent :: recentAckPoints
  a0Candidates :: "ackPoint RingBuffer"
  ackHeight :: maxAckHeightTracker
  totalBytesAckedAfterLastAckEvent :: int
  overestimateAvoidance :: bool
  limitMaxAckHeightTrackerBySendRate :: bool

definition newBandwidthSampler :: "int \<Rightarrow> time \<Rightarrow> bandwidthSampler" where
  "newBandwidthSampler maxCongestionWindowPackets len =
     \<lparr>totalBytesSent = 0, totalBytesAcked = 0, totalBytesLost = 0, totalBytesNeutered = 0,
      totalBytesSentAtLastAckedPacket = 0, lastAckedPacketSentTime = 0, lastAckedPacketAckTime = 0,
      lastSentPacket = invalidPacketNumber, lastAckedPacket = invalidPacketNumber, isAppLimited = False,
      endOfAppLimitedPhase = invalidPacketNumber,
      connectionStateMap = newPacketNumberIndexedQueue zero_record initialConnectionStateMapSlots
        (maxConnectionStateMapSlots maxCongestionWindowPackets),
      recent = rap_Clear, a0Candidates = rb_Init zero_ackPoint 0, ackHeight = newMaxAckHeightTracker len,
      totalBytesAckedAfterLastAckEvent = 0, overestimateAvoidance = False,
      limitMaxAckHeightTrackerBySendRate = False\<rparr>"

definition newConnectionStateOnSentPacket :: "int \<Rightarrow> int \<Rightarrow> int \<Rightarrow> bandwidthSampler \<Rightarrow> connectionStateOnSentPacket" where
  "newConnectionStateOnSentPacket t sz inFlight b =
     \<lparr>sentTime = t, cs_size = sz, cs_totalBytesSentAtLastAckedPacket = totalBytesSentAtLastAckedPacket b,
      cs_lastAckedPacketSentTime = lastAckedPacketSentTime b, cs_lastAckedPacketAckTime = lastAckedPacketAckTime b,
      cs_sendTimeState = newSendTimeState (isAppLimited b) (totalBytesSent b) (totalBytesAcked b) (totalBytesLost b) inFlight,
      consumed = False\<rparr>"

definition bs_EnableOverestimateAvoidance :: "bandwidthSampler \<Rightarrow> bandwidthSampler" where
  "bs_EnableOverestimateAvoidance b =
     (if overestimateAvoidance b then b
      else b\<lparr>overestimateAvoidance := True, a0Candidates := rb_Init zero_ackPoint defaultCandidatesBufferSize,
             ackHeight := (ackHeight b)\<lparr>ackAggregationBandwidthThreshold := 2\<rparr>\<rparr>)"

text \<open>What \<open>OnPacketSent\<close> does when nothing is in flight: the new transmission is the A0 point.\<close>

definition open_transmission :: "bandwidthSampler \<Rightarrow> int \<Rightarrow> bandwidthSampler option" where
  "open_transmission b t = do {
     let b = b\<lparr>lastAckedPacketAckTime := t\<rparr>;
     b \<leftarrow> (if overestimateAvoidance b then do {
             let r = rap_Update rap_Clear t (totalBytesAcked b);
             c \<leftarrow> rb_PushBack zero_ackPoint (rb_Clear zero_ackPoint (a0Candidates b)) (ackPoint1 r);
             Some (b\<lparr>recent := r, a0Candidates := c\<rparr>) }
           else Some b);
     Some (b\<lparr>totalBytesSentAtLastAckedPacket := totalBytesSent b, lastAckedPacketSentTime := t\<rparr>) }"

definition bs_OnPacketSent :: "bandwidthSampler \<Rightarrow> int \<Rightarrow> int \<Rightarrow> int \<Rightarrow> int \<Rightarrow> bool \<Rightarrow> bandwidthSampler option" where
  "bs_OnPacketSent b t packetNumber bytes bytesInFlight isRetransmittable =
     (let b = b\<lparr>lastSentPacket := packetNumber\<rparr> in
      if \<not> isRetransmittable then Some b
      else do {
        let b = b\<lparr>totalBytesSent := s64 (totalBytesSent b + bytes)\<rparr>;
        b \<leftarrow> (if bytesInFlight = 0 then open_transmission b t else Some b);
        (_, m) \<leftarrow> pq_Emplace zero_record (connectionStateMap b) packetNumber
                   (Some (newConnectionStateOnSentPacket t bytes (s64 (bytesInFlight + bytes)) b));
        Some (b\<lparr>connectionStateMap := m\<rparr>) })"

text \<open>Setting \<open>consumed\<close> through the pointer that \<open>GetEntry\<close> returned.\<close>

definition mark_consumed ::
    "connectionStateOnSentPacket packetNumberIndexedQueue \<Rightarrow> int \<Rightarrow> connectionStateOnSentPacket packetNumberIndexedQueue option" where
  "mark_consumed p n = do {
     ew \<leftarrow> pq_getEntryWraper p n;
     Some (case ew of None \<Rightarrow> p
           | Some i \<Rightarrow> let w = ring (entries p) ! i in
               p\<lparr>entries := (entries p)\<lparr>ring := (ring (entries p))[i := w\<lparr>entry := (entry w)\<lparr>consumed := True\<rparr>\<rparr>]\<rparr>\<rparr>) }"

definition sentPacketToSendTimeState :: "connectionStateOnSentPacket \<Rightarrow> sendTimeState" where
  "sentPacketToSendTimeState e = (cs_sendTimeState e)\<lparr>isValid := True\<rparr>"

definition bs_OnPacketLost :: "bandwidthSampler \<Rightarrow> int \<Rightarrow> int \<Rightarrow> (sendTimeState \<times> bandwidthSampler) option" where
  "bs_OnPacketLost b packetNumber bytesLost = do {
     let b = b\<lparr>totalBytesLost := s64 (totalBytesLost b + bytesLost)\<rparr>;
     sp \<leftarrow> pq_GetEntry (connectionStateMap b) packetNumber;
     case sp of
       None \<Rightarrow> Some (zero_sendTimeState, b)
     | Some e \<Rightarrow> do {
         m \<leftarrow> mark_consumed (connectionStateMap b) packetNumber;
         Some (sentPacketToSendTimeState e, b\<lparr>connectionStateMap := m\<rparr>) } }"

definition bs_OnPacketNeutered :: "bandwidthSampler \<Rightarrow> int \<Rightarrow> bandwidthSampler option" where
  "bs_OnPacketNeutered b packetNumber = do {
     (e, m) \<leftarrow> pq_Remove zero_record (connectionStateMap b) packetNumber;
     Some (b\<lparr>totalBytesNeutered := (case e of None \<Rightarrow> totalBytesNeutered b
               | Some x \<Rightarrow> s64 (totalBytesNeutered b + cs_size x)), connectionStateMap := m\<rparr>) }"

definition bs_OnAppLimited :: "bandwidthSampler \<Rightarrow> bandwidthSampler" where
  "bs_OnAppLimited b = b\<lparr>isAppLimited := True, endOfAppLimitedPhase := lastSentPacket b\<rparr>"

definition bs_reclaimConsumed :: "bandwidthSampler \<Rightarrow> bandwidthSampler option" where
  "bs_reclaimConsumed b = do {
     (_, m) \<leftarrow> pq_DropConsumedFront zero_record (connectionStateMap b) consumed;
     Some (b\<lparr>connectionStateMap := m\<rparr>) }"

definition bs_RemoveObsoletePackets :: "bandwidthSampler \<Rightarrow> int \<Rightarrow> bandwidthSampler option" where
  "bs_RemoveObsoletePackets b leastUnacked = do {
     m \<leftarrow> pq_RemoveUpTo zero_record (connectionStateMap b) leastUnacked;
     Some (b\<lparr>connectionStateMap := m\<rparr>) }"

definition bs_SetMaxAckHeightTrackerWindowLength :: "bandwidthSampler \<Rightarrow> time \<Rightarrow> bandwidthSampler" where
  "bs_SetMaxAckHeightTrackerWindowLength b len = b\<lparr>ackHeight := mah_SetFilterWindowLength (ackHeight b) len\<rparr>"

definition bs_ResetMaxAckHeightTracker :: "bandwidthSampler \<Rightarrow> int \<Rightarrow> time \<Rightarrow> bandwidthSampler" where
  "bs_ResetMaxAckHeightTracker b newHeight newTime = b\<lparr>ackHeight := mah_Reset (ackHeight b) newHeight newTime\<rparr>"

definition bs_SetStartNewAggregationEpochAfterFullRound :: "bandwidthSampler \<Rightarrow> bool \<Rightarrow> bandwidthSampler" where
  "bs_SetStartNewAggregationEpochAfterFullRound b v =
     b\<lparr>ackHeight := (ackHeight b)\<lparr>startNewAggregationEpochAfterFullRound := v\<rparr>\<rparr>"

definition bs_SetLimitMaxAckHeightTrackerBySendRate :: "bandwidthSampler \<Rightarrow> bool \<Rightarrow> bandwidthSampler" where
  "bs_SetLimitMaxAckHeightTrackerBySendRate b v = b\<lparr>limitMaxAckHeightTrackerBySendRate := v\<rparr>"

definition bs_SetReduceExtraAckedOnBandwidthIncrease :: "bandwidthSampler \<Rightarrow> bool \<Rightarrow> bandwidthSampler" where
  "bs_SetReduceExtraAckedOnBandwidthIncrease b v =
     b\<lparr>ackHeight := (ackHeight b)\<lparr>reduceExtraAckedOnBandwidthIncrease := v\<rparr>\<rparr>"

subsection \<open>Choosing A0\<close>

text \<open>The first candidate from \<open>i\<close> on that lies past \<open>tot\<close>, and the loop that pops while its counter is below \<open>Len() - 1\<close>.\<close>

function a0_scan :: "ackPoint RingBuffer \<Rightarrow> int \<Rightarrow> nat \<Rightarrow> nat option option" where
  "a0_scan r tot i =
     (if i < rb_Len r then
        Option.bind (rb_Offset r (int i)) (\<lambda>j.
          if ap_totalBytesAcked (ring r ! j) > tot then Some (Some i) else a0_scan r tot (Suc i))
      else Some None)"
  by pat_completeness auto
termination by (relation "measure (\<lambda>(r, _, i). rb_Len r - i)") auto

declare a0_scan.simps [simp del]
declare pq_dropConsumed.simps [code] pq_halve.simps [code]

partial_function (option) a0_drain :: "int \<Rightarrow> ackPoint RingBuffer \<Rightarrow> ackPoint RingBuffer option" where
  "a0_drain k r =
     (if k < int (rb_Len r) - 1
      then Option.bind (rb_PopFront zero_ackPoint r) (\<lambda>(_, r'). a0_drain (k + 1) r') else Some r)"

definition chooseA0Point :: "ackPoint RingBuffer \<Rightarrow> int \<Rightarrow> (ackPoint option \<times> ackPoint RingBuffer) option" where
  "chooseA0Point r tot =
     (if rb_Empty r then Some (None, r)
      else if rb_Len r = 1 then do {
        i \<leftarrow> rb_Front r;
        Some (Some (ring r ! i), r) }
      else do {
        found \<leftarrow> a0_scan r tot 1;
        case found of
          Some i \<Rightarrow> do {
            j \<leftarrow> rb_Offset r (int i - 1);
            (_, r') \<leftarrow> pop_n (rb_PopFront zero_ackPoint) (i - 1) r;
            Some (Some (ring r ! j), r') }
        | None \<Rightarrow> do {
            j \<leftarrow> rb_Back r;
            r' \<leftarrow> a0_drain 0 r;
            Some (Some (ring r ! j), r') } })"

declare a0_drain.simps [code]

subsection \<open>Acknowledgements\<close>

definition ack_inner :: "bandwidthSampler \<Rightarrow> int \<Rightarrow> int \<Rightarrow> connectionStateOnSentPacket \<Rightarrow> bandwidthSampler" where
  "ack_inner b ackTime packetNumber e =
     (let b1 = b\<lparr>totalBytesAcked := s64 (totalBytesAcked b + cs_size e),
                 totalBytesSentAtLastAckedPacket := st_totalBytesSent (cs_sendTimeState e),
                 lastAckedPacketSentTime := sentTime e, lastAckedPacketAckTime := ackTime\<rparr>;
          b2 = (if overestimateAvoidance b1 then b1\<lparr>recent := rap_Update (recent b1) ackTime (totalBytesAcked b1)\<rparr> else b1) in
      if isAppLimited b2 \<and> (endOfAppLimitedPhase b2 = invalidPacketNumber \<or> packetNumber > endOfAppLimitedPhase b2)
      then b2\<lparr>isAppLimited := False\<rparr> else b2)"

definition send_rate :: "connectionStateOnSentPacket \<Rightarrow> Bandwidth" where
  "send_rate e =
     (if sentTime e > cs_lastAckedPacketSentTime e
      then BandwidthFromDelta (s64 (st_totalBytesSent (cs_sendTimeState e) - cs_totalBytesSentAtLastAckedPacket e))
             (time_Sub (sentTime e) (cs_lastAckedPacketSentTime e))
      else infBandwidth)"

definition ack_a0 :: "bandwidthSampler \<Rightarrow> connectionStateOnSentPacket \<Rightarrow> (ackPoint \<times> bandwidthSampler) option" where
  "ack_a0 b e = do {
     let recorded = \<lparr>ap_ackTime = cs_lastAckedPacketAckTime e, ap_totalBytesAcked = st_totalBytesAcked (cs_sendTimeState e)\<rparr>;
     if overestimateAvoidance b then do {
       (a0, c) \<leftarrow> chooseA0Point (a0Candidates b) (st_totalBytesAcked (cs_sendTimeState e));
       Some (case a0 of Some a \<Rightarrow> a | None \<Rightarrow> recorded, b\<lparr>a0Candidates := c\<rparr>) }
     else Some (recorded, b) }"

definition bs_onPacketAcknowledged :: "bandwidthSampler \<Rightarrow> int \<Rightarrow> int \<Rightarrow> (bandwidthSample \<times> bandwidthSampler) option" where
  "bs_onPacketAcknowledged b ackTime packetNumber = do {
     let b = b\<lparr>lastAckedPacket := packetNumber\<rparr>;
     sp \<leftarrow> pq_GetEntry (connectionStateMap b) packetNumber;
     case sp of
       None \<Rightarrow> Some (newBandwidthSample, b)
     | Some e \<Rightarrow> do {
         m \<leftarrow> mark_consumed (connectionStateMap b) packetNumber;
         let b = ack_inner (b\<lparr>connectionStateMap := m\<rparr>) ackTime packetNumber e;
         if cs_lastAckedPacketSentTime e = 0 then Some (newBandwidthSample, b)
         else do {
           (a0, b) \<leftarrow> ack_a0 b e;
           if time_Sub ackTime (ap_ackTime a0) \<le> 0 then Some (newBandwidthSample, b)
           else
             let ackRate = BandwidthFromDelta (s64 (totalBytesAcked b - ap_totalBytesAcked a0)) (time_Sub ackTime (ap_ackTime a0)) in
             Some (\<lparr>bs_bandwidth = min (send_rate e) ackRate, bs_rtt = time_Sub ackTime (sentTime e),
                    bs_sendRate = send_rate e, stateAtSend = sentPacketToSendTimeState e\<rparr>, b) } } }"

definition bs_onAckEventEnd :: "bandwidthSampler \<Rightarrow> Bandwidth \<Rightarrow> bool \<Rightarrow> time \<Rightarrow> (int \<times> bandwidthSampler) option" where
  "bs_onAckEventEnd b bandwidthEstimate isNewMaxBandwidth roundTripCount =
     (let newlyAckedBytes = s64 (totalBytesAcked b - totalBytesAckedAfterLastAckEvent b) in
      if newlyAckedBytes = 0 then Some (0, b)
      else do {
        let (extra, h) = mah_Update (ackHeight b) bandwidthEstimate isNewMaxBandwidth roundTripCount (lastSentPacket b)
              (lastAckedPacket b) (lastAckedPacketAckTime b) newlyAckedBytes;
        let b = b\<lparr>totalBytesAckedAfterLastAckEvent := totalBytesAcked b, ackHeight := h\<rparr>;
        if overestimateAvoidance b \<and> extra = 0 then do {
          c \<leftarrow> rb_PushBack zero_ackPoint (a0Candidates b) (rap_LessRecentPoint (recent b));
          Some (extra, b\<lparr>a0Candidates := c\<rparr>) }
        else Some (extra, b) })"

subsection \<open>Congestion events\<close>

primrec lost_loop :: "(int \<times> int) list \<Rightarrow> sendTimeState \<Rightarrow> bandwidthSampler \<Rightarrow> (sendTimeState \<times> bandwidthSampler) option" where
  "lost_loop [] s b = Some (s, b)"
| "lost_loop (p # ps) s b = do {
     (sendState, b) \<leftarrow> bs_OnPacketLost b (fst p) (snd p);
     lost_loop ps (if isValid sendState then sendState else s) b }"

text \<open>The event sample, the last valid send state and the largest send rate, after one more sample.\<close>

definition event_add ::
    "bandwidthSample \<Rightarrow> int \<Rightarrow> congestionEventSample \<times> sendTimeState \<times> Bandwidth \<Rightarrow> congestionEventSample \<times> sendTimeState \<times> Bandwidth" where
  "event_add smp tot acc =
     (case acc of (ev, st, rate) \<Rightarrow>
        if \<not> isValid (stateAtSend smp) then (ev, st, rate)
        else
          let st = stateAtSend smp;
              ev = (if bs_rtt smp \<noteq> 0 then ev\<lparr>sampleRtt := min (sampleRtt ev) (bs_rtt smp)\<rparr> else ev);
              ev = (if bs_bandwidth smp > sampleMaxBandwidth ev
                    then ev\<lparr>sampleMaxBandwidth := bs_bandwidth smp, sampleIsAppLimited := st_isAppLimited st\<rparr> else ev);
              rate = (if bs_sendRate smp \<noteq> infBandwidth then max rate (bs_sendRate smp) else rate);
              inflightSample = s64 (tot - st_totalBytesAcked st);
              ev = (if inflightSample > sampleMaxInflight ev then ev\<lparr>sampleMaxInflight := inflightSample\<rparr> else ev) in
          (ev, st, rate))"

primrec ack_loop ::
    "int \<Rightarrow> int list \<Rightarrow> congestionEventSample \<times> sendTimeState \<times> Bandwidth \<Rightarrow> bandwidthSampler \<Rightarrow>
       ((congestionEventSample \<times> sendTimeState \<times> Bandwidth) \<times> bandwidthSampler) option" where
  "ack_loop ackTime [] acc b = Some (acc, b)"
| "ack_loop ackTime (n # ns) acc b = do {
     (smp, b) \<leftarrow> bs_onPacketAcknowledged b ackTime n;
     ack_loop ackTime ns (event_add smp (totalBytesAcked b) acc) b }"

definition event_sendState :: "int list \<Rightarrow> (int \<times> int) list \<Rightarrow> sendTimeState \<Rightarrow> sendTimeState \<Rightarrow> sendTimeState" where
  "event_sendState acked lost lostState ackedState =
     (if \<not> isValid lostState then ackedState
      else if \<not> isValid ackedState then lostState
      else if fst (last lost) > last acked then lostState else ackedState)"

definition bs_OnCongestionEvent ::
    "bandwidthSampler \<Rightarrow> int \<Rightarrow> int list \<Rightarrow> (int \<times> int) list \<Rightarrow> Bandwidth \<Rightarrow> Bandwidth \<Rightarrow> time \<Rightarrow>
       (congestionEventSample \<times> bandwidthSampler) option" where
  "bs_OnCongestionEvent b ackTime acked lost maxBandwidth estBandwidthUpperBound roundTripCount = do {
     (lostState, b) \<leftarrow> lost_loop lost zero_sendTimeState b;
     (ev, b) \<leftarrow>
       (if acked = [] then Some (newCongestionEventSample\<lparr>lastPacketSendState := lostState\<rparr>, b)
        else do {
          ((ev, ackedState, maxSendRate), b) \<leftarrow> ack_loop ackTime acked (newCongestionEventSample, zero_sendTimeState, 0) b;
          let ev = ev\<lparr>lastPacketSendState := event_sendState acked lost lostState ackedState\<rparr>;
          let isNewMaxBandwidth = (sampleMaxBandwidth ev > maxBandwidth);
          let bw = max maxBandwidth (sampleMaxBandwidth ev);
          let bw = (if limitMaxAckHeightTrackerBySendRate b then max bw maxSendRate else bw);
          (extra, b) \<leftarrow> bs_onAckEventEnd b (min estBandwidthUpperBound bw) isNewMaxBandwidth roundTripCount;
          Some (ev\<lparr>ce_extraAcked := extra\<rparr>, b) });
     b \<leftarrow> bs_reclaimConsumed b;
     Some (ev, b) }"

subsection \<open>The shared sampler\<close>

record RefSampler =
  sampler :: bandwidthSampler
  maxBandwidth :: "Bandwidth WindowedFilter"

record RefSample =
  rs_Bandwidth :: Bandwidth
  rs_RTT :: int
  rs_AppLimited :: bool
  rs_ExtraAcked :: int
  rs_Sample :: Bandwidth

definition NewRefSampler :: "int \<Rightarrow> time \<Rightarrow> RefSampler" where
  "NewRefSampler maxCongestionWindowPackets w =
     \<lparr>sampler = newBandwidthSampler maxCongestionWindowPackets w, maxBandwidth = NewWindowedFilter 0 w MaxFilter\<rparr>"

definition ref_OnPacketSent :: "RefSampler \<Rightarrow> int \<Rightarrow> int \<Rightarrow> int \<Rightarrow> int \<Rightarrow> bool \<Rightarrow> RefSampler option" where
  "ref_OnPacketSent r t n bytes inFlight retrans = do {
     b \<leftarrow> bs_OnPacketSent (sampler r) t n bytes inFlight retrans;
     Some (r\<lparr>sampler := b\<rparr>) }"

definition ref_OnCongestionEvent :: "RefSampler \<Rightarrow> int \<Rightarrow> int list \<Rightarrow> (int \<times> int) list \<Rightarrow> time \<Rightarrow> (RefSample \<times> RefSampler) option" where
  "ref_OnCongestionEvent r ackTime acked lost rnd = do {
     (event, b) \<leftarrow> bs_OnCongestionEvent (sampler r) ackTime acked lost (wf_GetBest (maxBandwidth r)) infBandwidth rnd;
     let f = (if totalBytesAcked b \<noteq> totalBytesAcked (sampler r) \<and>
                 (\<not> sampleIsAppLimited event \<or> sampleMaxBandwidth event > wf_GetBest (maxBandwidth r))
              then wf_Update 0 (maxBandwidth r) (sampleMaxBandwidth event) rnd else maxBandwidth r);
     Some (\<lparr>rs_Bandwidth = wf_GetBest f, rs_RTT = sampleRtt event, rs_AppLimited = sampleIsAppLimited event,
            rs_ExtraAcked = ce_extraAcked event, rs_Sample = sampleMaxBandwidth event\<rparr>,
           r\<lparr>sampler := b, maxBandwidth := f\<rparr>) }"

definition ref_MaxBandwidthBytesPerSecond :: "RefSampler \<Rightarrow> 64 word" where
  "ref_MaxBandwidthBytesPerSecond r = wf_GetBest (maxBandwidth r) div BytesPerSecond"

definition ref_SetWindowLength :: "RefSampler \<Rightarrow> time \<Rightarrow> RefSampler" where
  "ref_SetWindowLength r w =
     r\<lparr>maxBandwidth := wf_SetWindowLength (maxBandwidth r) w,
       sampler := bs_SetMaxAckHeightTrackerWindowLength (sampler r) w\<rparr>"

definition ref_OnAppLimited :: "RefSampler \<Rightarrow> RefSampler" where
  "ref_OnAppLimited r = r\<lparr>sampler := bs_OnAppLimited (sampler r)\<rparr>"

definition ref_RemoveObsoletePackets :: "RefSampler \<Rightarrow> int \<Rightarrow> RefSampler option" where
  "ref_RemoveObsoletePackets r leastUnacked = do {
     b \<leftarrow> bs_RemoveObsoletePackets (sampler r) leastUnacked;
     Some (r\<lparr>sampler := b\<rparr>) }"

subsection \<open>Invariant\<close>

definition sampler_inv :: "bandwidthSampler \<Rightarrow> bool" where
  "sampler_inv b \<longleftrightarrow>
     pq_inv (connectionStateMap b) \<and> pq_front_live (connectionStateMap b) \<and> rb_wf (a0Candidates b) \<and>
     s64 (totalBytesAcked b) = totalBytesAcked b \<and> s64 (totalBytesLost b) = totalBytesLost b"

abbreviation records :: "bandwidthSampler \<Rightarrow> int \<Rightarrow> connectionStateOnSentPacket option" where
  "records b \<equiv> pq_map (connectionStateMap b)"

lemma s64_s64 [simp]: "s64 (s64 x) = s64 x"
  by (simp add: s64_def)

lemma s64_add [simp]: "s64 (s64 x + y) = s64 (x + y)"
  by (simp add: s64_def mod_simps algebra_simps)

lemma s64_0 [simp]: "s64 0 = 0"
  by (simp add: s64_def)

lemma sampler_inv_new: "sampler_inv (newBandwidthSampler w len)"
  by (simp add: sampler_inv_def newBandwidthSampler_def pq_inv_new)

lemma mark_consumed_ok:
  assumes "pq_inv p" "pq_front_live p"
  shows "\<exists>p'. mark_consumed p n = Some p' \<and> pq_inv p' \<and> pq_front_live p' \<and>
    pq_map p' = (pq_map p)(n := map_option (\<lambda>e. e\<lparr>consumed := True\<rparr>) (pq_map p n))"
proof -
  obtain ew where ew: "pq_getEntryWraper p n = Some ew"
      "map_option (\<lambda>i. entry (ring (entries p) ! i)) ew = pq_map p n"
    using pq_GetEntry_map_aux [OF assms(1), of n]
    by (cases "pq_getEntryWraper p n") (auto simp: pq_GetEntry_def)
  show ?thesis
  proof (cases ew)
    case None
    with ew assms show ?thesis by (auto simp: mark_consumed_def fun_upd_idem)
  next
    case (Some i)
    with ew(1) obtain k where kl: "k < length (pq_els p)" and k: "n = firstPacket p + int k"
      and slot: "i = rb_slot (entries p) k" and w: "ring (entries p) ! i = pq_els p ! k"
      and i: "present (pq_els p ! k)"
      using pq_getEntryWraper_slot [OF assms(1)] by blast
    let ?w = "(pq_els p ! k)\<lparr>entry := (entry (pq_els p ! k))\<lparr>consumed := True\<rparr>\<rparr>"
    define p1 where "p1 = p\<lparr>entries := (entries p)\<lparr>ring := (ring (entries p))[i := ?w]\<rparr>\<rparr>"
    from assms(1) have "rb_wf (entries p)" by (simp add: pq_inv_def pq_pre_def)
    then have els: "rb_wf (entries p1)" "pq_els p1 = (pq_els p)[k := ?w]"
      using rb_write_slot [of "entries p" k] kl by (simp_all add: p1_def slot pq_els_def)
    have "pq_map p1 = (pq_map p)(n \<mapsto> entry ?w)"
      using pn_map_update [OF kl] els(2) k i by (simp add: pq_map_def p1_def)
    moreover have "live_count (pq_els p1) = live_count (pq_els p)"
      using kl i unfolding els(2)
      by (subst (2) id_take_nth_drop [OF kl], subst upd_conv_take_nth_drop [OF kl]) simp
    then have "pq_inv p1" using assms(1) els by (auto simp: pq_inv_def pq_pre_def p1_def)
    moreover have "pq_front_live p1"
      using assms(2) kl i els(2) unfolding pq_front_live_def by (cases "pq_els p"; cases k) auto
    moreover have "mark_consumed p n = Some p1"
      using ew(1) Some w by (simp add: mark_consumed_def p1_def Let_def)
    moreover have "pq_map p n = Some (entry (pq_els p ! k))" using ew(2) Some w by simp
    ultimately show ?thesis by simp
  qed
qed

subsection \<open>Choosing A0 never panics\<close>

lemma a0_scan_ok:
  "rb_wf r \<Longrightarrow> a0_scan r tot i = Some (List.find (\<lambda>j. ap_totalBytesAcked (rb_list r ! j) > tot) [i..<rb_Len r])"
proof (induction r tot i rule: a0_scan.induct)
  case (1 r tot i)
  show ?case
  proof (cases "i < rb_Len r")
    case True
    with rb_Offset_ok [OF 1(2) True] 1 show ?thesis
      by (subst a0_scan.simps) (simp add: upt_conv_Cons)
  next
    case False
    then show ?thesis by (subst a0_scan.simps) simp
  qed
qed

lemma a0_drain_ok:
  "rb_wf r \<Longrightarrow> \<exists>r'. a0_drain (int k) r = Some r' \<and> rb_wf r' \<and> rb_list r' = drop ((rb_Len r - k) div 2) (rb_list r)"
proof (induction "rb_Len r" arbitrary: r k)
  case 0
  then show ?case by (subst a0_drain.simps) simp
next
  case (Suc n)
  show ?case
  proof (cases "k < n")
    case True
    obtain x xs where xs: "rb_list r = x # xs" using Suc(2) length_rb_list [of r] by (cases "rb_list r") auto
    obtain r1 where r1: "rb_PopFront zero_ackPoint r = Some (x, r1)" "rb_wf r1" "rb_list r1 = xs"
      using rb_PopFront_ok [OF Suc(3) xs] by blast
    have len: "rb_Len r1 = n" using length_rb_list [of r1] length_rb_list [of r] r1(3) xs Suc(2) by simp
    have half: "(Suc n - k) div 2 = Suc ((n - Suc k) div 2)" using True by (simp add: Suc_diff_le le_div_geq)
    have "a0_drain (int k) r = a0_drain (int (Suc k)) r1"
      using True r1(1) Suc(2) by (subst a0_drain.simps) (simp add: add.commute flip: Suc(2))
    with Suc(1) [of r1 "Suc k"] len r1 xs half show ?thesis by (simp flip: Suc(2))
  next
    case False
    then have "(Suc n - k) div 2 = 0" by simp
    with False Suc show ?thesis by (subst a0_drain.simps) (simp flip: Suc(2))
  qed
qed

lemma chooseA0Point_late:
  assumes "rb_wf r" "2 \<le> rb_Len r" "\<forall>p \<in> set (tl (rb_list r)). ap_totalBytesAcked p \<le> tot"
  shows "\<exists>r'. chooseA0Point r tot = Some (Some (last (rb_list r)), r') \<and> rb_wf r' \<and>
    rb_list r' = drop (rb_Len r div 2) (rb_list r)"
proof -
  have ne: "\<not> rb_Empty r" "rb_list r \<noteq> []" using assms rb_Len_0_iff rb_Empty_iff by fastforce+
  have "ap_totalBytesAcked (rb_list r ! j) \<le> tot" if "1 \<le> j" "j < rb_Len r" for j
    using assms(3) that nth_tl [of "j - 1" "rb_list r"] by (metis One_nat_def Suc_pred diff_less_mono
      length_rb_list length_tl less_eq_Suc_le nth_mem)
  then have "List.find (\<lambda>j. ap_totalBytesAcked (rb_list r ! j) > tot) [1..<rb_Len r] = None"
    by (fastforce simp: find_None_iff simp del: nth_rb_list dest: leD)
  with a0_scan_ok [OF assms(1), of tot 1] have "a0_scan r tot 1 = Some None" by simp
  moreover obtain j where "rb_Back r = Some j" "ring r ! j = last (rb_list r)"
    using rb_Back_ok [OF assms(1) ne(2)] by blast
  ultimately show ?thesis using a0_drain_ok [OF assms(1), of 0] ne(1) assms(2)
    by (auto simp: chooseA0Point_def)
qed

lemma chooseA0Point_early:
  assumes "rb_wf r" "2 \<le> rb_Len r"
    "List.find (\<lambda>j. ap_totalBytesAcked (rb_list r ! j) > tot) [1..<rb_Len r] = Some i"
  shows "\<exists>r'. chooseA0Point r tot = Some (Some (rb_list r ! (i - 1)), r') \<and> rb_wf r' \<and>
    rb_list r' = drop (i - 1) (rb_list r)"
proof -
  have i: "1 \<le> i" "i < rb_Len r" using assms(3) by (auto simp: find_Some_iff simp del: nth_rb_list)
  obtain r' where r': "pop_n (rb_PopFront zero_ackPoint) (i - 1) r = Some (take (i - 1) (rb_list r), r')"
      "rb_wf r'" "rb_list r' = drop (i - 1) (rb_list r)"
    using rb.pop_n_law [OF assms(1), of "i - 1" zero_ackPoint] less_imp_diff_less [OF i(2), of 1] by auto
  have "\<not> rb_Empty r" using assms rb_Len_0_iff by fastforce
  moreover have "rb_Offset r (int i - 1) = Some (rb_slot r (i - 1))"
    using rb_Offset_ok [OF assms(1), of "i - 1"] i by (simp add: of_nat_diff)
  ultimately show ?thesis using r' i assms a0_scan_ok [OF assms(1), of tot 1]
    by (auto simp: chooseA0Point_def)
qed

lemma chooseA0Point_ok:
  assumes "rb_wf r"
  shows "\<exists>a r'. chooseA0Point r tot = Some (a, r') \<and> rb_wf r'"
proof (cases "2 \<le> rb_Len r")
  case True
  show ?thesis
  proof (cases "List.find (\<lambda>j. ap_totalBytesAcked (rb_list r ! j) > tot) [1..<rb_Len r]")
    case None
    with a0_scan_ok [OF assms, of tot 1] have "a0_scan r tot 1 = Some None" by simp
    moreover have "\<not> rb_Empty r" "rb_list r \<noteq> []" using True assms rb_Len_0_iff rb_Empty_iff by fastforce+
    ultimately show ?thesis
      using True a0_drain_ok [OF assms, of 0] rb_Back_ok [OF assms] by (auto simp: chooseA0Point_def)
  next
    case (Some i)
    with chooseA0Point_early [OF assms True] show ?thesis by blast
  qed
next
  case False
  show ?thesis
  proof (cases "rb_list r")
    case Nil
    with assms show ?thesis by (simp add: chooseA0Point_def rb_Empty_iff)
  next
    case (Cons x xs)
    with False have "rb_Len r = 1" using length_rb_list [of r] by simp
    with assms Cons rb_Front_ok [OF assms Cons] show ?thesis by (simp add: chooseA0Point_def rb_Empty_iff)
  qed
qed

subsection \<open>One packet\<close>

text \<open>The records of \<open>ns\<close> marked consumed, and the size of the record of a packet.\<close>

definition consume :: "int set \<Rightarrow> (int \<Rightarrow> connectionStateOnSentPacket option) \<Rightarrow> int \<Rightarrow> connectionStateOnSentPacket option" where
  "consume ns m n = (if n \<in> ns then map_option (\<lambda>e. e\<lparr>consumed := True\<rparr>) (m n) else m n)"

definition record_size :: "(int \<Rightarrow> connectionStateOnSentPacket option) \<Rightarrow> int \<Rightarrow> int" where
  "record_size m n = (case m n of None \<Rightarrow> 0 | Some e \<Rightarrow> cs_size e)"

lemma consume_empty [simp]: "consume {} m = m"
  by (simp add: consume_def fun_eq_iff)

lemma consume_consume [simp]: "consume A (consume B m) = consume (A \<union> B) m"
  by (auto simp: consume_def fun_eq_iff option.map_comp o_def)

lemma record_size_consume [simp]: "record_size (consume A m) n = record_size m n"
  by (auto simp: record_size_def consume_def split: option.splits)

lemma mark_consumed_records:
  assumes "pq_inv p" "pq_front_live p"
  obtains p' where "mark_consumed p n = Some p'" "pq_inv p'" "pq_front_live p'" "pq_map p' = consume {n} (pq_map p)"
  using mark_consumed_ok [OF assms, of n] by (auto simp: consume_def fun_eq_iff)

lemma consume_None: "m n = None \<Longrightarrow> consume {n} m = m"
  by (auto simp: consume_def fun_eq_iff)

lemma ack_inner_simps [simp]:
  "connectionStateMap (ack_inner b t n e) = connectionStateMap b"
  "a0Candidates (ack_inner b t n e) = a0Candidates b"
  "totalBytesAcked (ack_inner b t n e) = s64 (totalBytesAcked b + cs_size e)"
  "totalBytesLost (ack_inner b t n e) = totalBytesLost b"
  "overestimateAvoidance (ack_inner b t n e) = overestimateAvoidance b"
  by (simp_all add: ack_inner_def Let_def)

lemma ack_a0_ok:
  assumes "rb_wf (a0Candidates b)"
  shows "\<exists>a c. ack_a0 b e = Some (a, b\<lparr>a0Candidates := c\<rparr>) \<and> rb_wf c"
proof (cases "overestimateAvoidance b")
  case True
  with chooseA0Point_ok [OF assms, of "st_totalBytesAcked (cs_sendTimeState e)"] show ?thesis
    by (auto simp: ack_a0_def)
next
  case False
  with assms show ?thesis
    by (intro exI [of _ "\<lparr>ap_ackTime = cs_lastAckedPacketAckTime e, ap_totalBytesAcked = st_totalBytesAcked (cs_sendTimeState e)\<rparr>"]
        exI [of _ "a0Candidates b"]) (simp add: ack_a0_def)
qed

lemma onPacketAcknowledged_ok:
  assumes "sampler_inv b"
  shows "\<exists>s b'. bs_onPacketAcknowledged b t n = Some (s, b') \<and> sampler_inv b' \<and>
    records b' = consume {n} (records b) \<and> totalBytesLost b' = totalBytesLost b \<and>
    totalBytesAcked b' = s64 (totalBytesAcked b + record_size (records b) n)"
proof -
  from assms have inv: "pq_inv (connectionStateMap b)" "pq_front_live (connectionStateMap b)" "rb_wf (a0Candidates b)"
    by (simp_all add: sampler_inv_def)
  note get = pq_GetEntry_map_aux [OF inv(1), of n]
  show ?thesis
  proof (cases "records b n")
    case None
    with get assms show ?thesis
      by (simp add: bs_onPacketAcknowledged_def consume_None record_size_def sampler_inv_def)
  next
    case (Some e)
    obtain m where m: "mark_consumed (connectionStateMap b) n = Some m" "pq_inv m" "pq_front_live m"
        "pq_map m = consume {n} (records b)"
      using mark_consumed_records [OF inv(1,2)] by blast
    define b1 where "b1 = ack_inner (b\<lparr>lastAckedPacket := n, connectionStateMap := m\<rparr>) t n e"
    have "rb_wf (a0Candidates b1)" using inv(3) by (simp add: b1_def)
    then obtain a c where a: "ack_a0 b1 e = Some (a, b1\<lparr>a0Candidates := c\<rparr>)" "rb_wf c"
      using ack_a0_ok by blast
    have keep: "sampler_inv b2 \<and> records b2 = consume {n} (records b) \<and> totalBytesLost b2 = totalBytesLost b \<and>
        totalBytesAcked b2 = s64 (totalBytesAcked b + record_size (records b) n)"
      if "b2 = b1 \<or> b2 = b1\<lparr>a0Candidates := c\<rparr>" for b2
      using that m a(2) inv(3) assms Some by (auto simp: b1_def sampler_inv_def record_size_def)
    have "\<exists>s b2. bs_onPacketAcknowledged b t n = Some (s, b2) \<and> (b2 = b1 \<or> b2 = b1\<lparr>a0Candidates := c\<rparr>)"
      using get Some m(1) a(1) by (simp add: bs_onPacketAcknowledged_def b1_def Let_def)
    with keep show ?thesis by blast
  qed
qed

lemma OnPacketLost_ok:
  assumes "sampler_inv b"
  shows "\<exists>s b'. bs_OnPacketLost b n k = Some (s, b') \<and> sampler_inv b' \<and>
    records b' = consume {n} (records b) \<and> totalBytesAcked b' = totalBytesAcked b \<and>
    totalBytesLost b' = s64 (totalBytesLost b + k)"
proof -
  from assms have inv: "pq_inv (connectionStateMap b)" "pq_front_live (connectionStateMap b)"
    by (simp_all add: sampler_inv_def)
  obtain m where "mark_consumed (connectionStateMap b) n = Some m" "pq_inv m" "pq_front_live m"
      "pq_map m = consume {n} (records b)"
    using mark_consumed_records [OF inv] by blast
  with assms pq_GetEntry_map_aux [OF inv(1), of n] show ?thesis
    by (cases "records b n") (auto simp: bs_OnPacketLost_def consume_None sampler_inv_def)
qed

subsection \<open>The loops of an event\<close>

lemma lost_loop_ok:
  "sampler_inv b \<Longrightarrow> \<exists>s' b'. lost_loop ps s b = Some (s', b') \<and> sampler_inv b' \<and>
     records b' = consume (fst ` set ps) (records b) \<and> totalBytesAcked b' = totalBytesAcked b \<and>
     totalBytesLost b' = s64 (totalBytesLost b + sum_list (map snd ps))"
proof (induction ps arbitrary: s b)
  case Nil
  then show ?case by (simp add: sampler_inv_def)
next
  case (Cons p ps)
  obtain s1 b1 where b1: "bs_OnPacketLost b (fst p) (snd p) = Some (s1, b1)" "sampler_inv b1"
      "records b1 = consume {fst p} (records b)" "totalBytesAcked b1 = totalBytesAcked b"
      "totalBytesLost b1 = s64 (totalBytesLost b + snd p)"
    using OnPacketLost_ok [OF Cons.prems] by blast
  obtain s' b' where "lost_loop ps (if isValid s1 then s1 else s) b1 = Some (s', b')" "sampler_inv b'"
      "records b' = consume (fst ` set ps) (records b1)" "totalBytesAcked b' = totalBytesAcked b1"
      "totalBytesLost b' = s64 (totalBytesLost b1 + sum_list (map snd ps))"
    using Cons.IH [OF b1(2)] by blast
  with b1 show ?case by (simp add: add.assoc)
qed

lemma ack_loop_ok:
  "sampler_inv b \<Longrightarrow> \<exists>acc' b'. ack_loop t ns acc b = Some (acc', b') \<and> sampler_inv b' \<and>
     records b' = consume (set ns) (records b) \<and> totalBytesLost b' = totalBytesLost b \<and>
     totalBytesAcked b' = s64 (totalBytesAcked b + sum_list (map (record_size (records b)) ns))"
proof (induction ns arbitrary: acc b)
  case Nil
  then show ?case by (cases acc) (simp add: sampler_inv_def)
next
  case (Cons n ns)
  obtain s b1 where b1: "bs_onPacketAcknowledged b t n = Some (s, b1)" "sampler_inv b1"
      "records b1 = consume {n} (records b)" "totalBytesLost b1 = totalBytesLost b"
      "totalBytesAcked b1 = s64 (totalBytesAcked b + record_size (records b) n)"
    using onPacketAcknowledged_ok [OF Cons.prems] by blast
  obtain acc' b' where "ack_loop t ns (event_add s (totalBytesAcked b1) acc) b1 = Some (acc', b')" "sampler_inv b'"
      "records b' = consume (set ns) (records b1)" "totalBytesLost b' = totalBytesLost b1"
      "totalBytesAcked b' = s64 (totalBytesAcked b1 + sum_list (map (record_size (records b1)) ns))"
    using Cons.IH [OF b1(2)] by blast
  moreover have "record_size (consume {n} (records b)) = record_size (records b)" by (rule ext) simp
  ultimately show ?case using b1 by (cases acc') (simp add: add.assoc)
qed

subsection \<open>The event\<close>

lemma onAckEventEnd_ok:
  assumes "sampler_inv b"
  shows "\<exists>x b'. bs_onAckEventEnd b bw isNew rnd = Some (x, b') \<and> sampler_inv b' \<and>
    connectionStateMap b' = connectionStateMap b \<and> totalBytesAcked b' = totalBytesAcked b \<and>
    totalBytesLost b' = totalBytesLost b"
proof -
  obtain c where "rb_PushBack zero_ackPoint (a0Candidates b) (rap_LessRecentPoint (recent b)) = Some c" "rb_wf c"
    using rb_PushBack_ok [of "a0Candidates b"] assms by (auto simp: sampler_inv_def)
  with assms show ?thesis by (auto simp: bs_onAckEventEnd_def sampler_inv_def Let_def split: prod.splits)
qed

lemma reclaimConsumed_ok:
  assumes "sampler_inv b"
  shows "\<exists>b'. bs_reclaimConsumed b = Some b' \<and> sampler_inv b' \<and>
    (\<forall>n e. records b n = Some e \<and> \<not> consumed e \<longrightarrow> records b' n = Some e) \<and> records b' \<subseteq>\<^sub>m records b \<and>
    (pq_els (connectionStateMap b') \<noteq> [] \<longrightarrow> \<not> consumed (entry (hd (pq_els (connectionStateMap b'))))) \<and>
    totalBytesAcked b' = totalBytesAcked b \<and> totalBytesLost b' = totalBytesLost b"
proof -
  let ?p = "connectionStateMap b"
  have "pq_inv ?p" using assms by (simp add: sampler_inv_def)
  then obtain k m where m: "pq_DropConsumedFront zero_record ?p consumed = Some (k, m)" "pq_inv m" "pq_front_live m"
      "pq_map m = pq_map ?p |` {firstPacket ?p + int k..}"
      "\<And>n x. pq_map ?p n = Some x \<Longrightarrow> n < firstPacket ?p + int k \<Longrightarrow> consumed x"
      "pq_els m \<noteq> [] \<longrightarrow> \<not> consumed (entry (hd (pq_els m)))"
    using pq_DropConsumedFront_safe_aux [of ?p zero_record consumed] by blast
  have "pq_map m n = Some e" if "records b n = Some e" "\<not> consumed e" for n e
    using that m(4) m(5) [OF that(1)] by (auto simp: restrict_map_def not_less [symmetric])
  moreover have "pq_map m \<subseteq>\<^sub>m records b" unfolding m(4) by (auto simp: map_le_def restrict_map_def split: if_splits)
  ultimately show ?thesis using m assms by (simp add: bs_reclaimConsumed_def sampler_inv_def)
qed

lemma OnCongestionEvent_ok:
  assumes "sampler_inv b"
  shows "\<exists>s b'. bs_OnCongestionEvent b t acked lost bw est rnd = Some (s, b') \<and> sampler_inv b' \<and>
    totalBytesAcked b' = s64 (totalBytesAcked b + sum_list (map (record_size (records b)) acked)) \<and>
    totalBytesLost b' = s64 (totalBytesLost b + sum_list (map snd lost)) \<and>
    (\<forall>n e. records b n = Some e \<and> \<not> consumed e \<and> n \<notin> set acked \<and> n \<notin> fst ` set lost \<longrightarrow> records b' n = Some e) \<and>
    records b' \<subseteq>\<^sub>m consume (set acked \<union> fst ` set lost) (records b) \<and>
    (pq_els (connectionStateMap b') \<noteq> [] \<longrightarrow> \<not> consumed (entry (hd (pq_els (connectionStateMap b')))))"
proof -
  let ?ns = "set acked \<union> fst ` set lost"
  obtain ls b1 where b1: "lost_loop lost zero_sendTimeState b = Some (ls, b1)" "sampler_inv b1"
      "records b1 = consume (fst ` set lost) (records b)" "totalBytesAcked b1 = totalBytesAcked b"
      "totalBytesLost b1 = s64 (totalBytesLost b + sum_list (map snd lost))"
    using lost_loop_ok [OF assms] by blast
  obtain ev st rate b2 where b2: "ack_loop t acked (newCongestionEventSample, zero_sendTimeState, 0) b1 = Some ((ev, st, rate), b2)"
      "sampler_inv b2" "records b2 = consume ?ns (records b)" "totalBytesLost b2 = totalBytesLost b1"
      "totalBytesAcked b2 = s64 (totalBytesAcked b + sum_list (map (record_size (records b)) acked))"
  proof -
    have "record_size (records b1) = record_size (records b)" unfolding b1(3) by (rule ext) simp
    with ack_loop_ok [OF b1(2), of t acked "(newCongestionEventSample, zero_sendTimeState, 0)"] b1 that
    show thesis by auto
  qed
  define body where "body = (\<lambda>b3. \<exists>ev'. bs_OnCongestionEvent b t acked lost bw est rnd =
      Option.bind (bs_reclaimConsumed b3) (\<lambda>b'. Some (ev', b')))"
  obtain b3 where b3: "body b3" "sampler_inv b3" "records b3 = consume ?ns (records b)"
      "totalBytesAcked b3 = totalBytesAcked b2" "totalBytesLost b3 = totalBytesLost b1"
  proof (cases "acked = []")
    case True
    with b1 b2 that [of b1] show thesis by (auto simp: body_def bs_OnCongestionEvent_def)
  next
    case False
    let ?bw = "max bw (sampleMaxBandwidth ev)"
    obtain x b3 where "bs_onAckEventEnd b2 (min est (if limitMaxAckHeightTrackerBySendRate b2 then max ?bw rate else ?bw))
        (sampleMaxBandwidth ev > bw) rnd = Some (x, b3)" "sampler_inv b3" "connectionStateMap b3 = connectionStateMap b2"
        "totalBytesAcked b3 = totalBytesAcked b2" "totalBytesLost b3 = totalBytesLost b2"
      using onAckEventEnd_ok [OF b2(2)] by blast
    with False b1(1) b2 that [of b3] show thesis by (auto simp: body_def bs_OnCongestionEvent_def Let_def cong: if_cong)
  qed
  obtain b' where b': "bs_reclaimConsumed b3 = Some b'" "sampler_inv b'"
      "\<And>n e. records b3 n = Some e \<Longrightarrow> \<not> consumed e \<Longrightarrow> records b' n = Some e" "records b' \<subseteq>\<^sub>m records b3"
      "pq_els (connectionStateMap b') \<noteq> [] \<longrightarrow> \<not> consumed (entry (hd (pq_els (connectionStateMap b'))))"
      "totalBytesAcked b' = totalBytesAcked b3" "totalBytesLost b' = totalBytesLost b3"
    using reclaimConsumed_ok [OF b3(2)] by blast
  have "records b' n = Some e"
    if "records b n = Some e" "\<not> consumed e" "n \<notin> set acked" "n \<notin> fst ` set lost" for n e
    using that b'(3) [of n e] b3(3) by (simp add: consume_def)
  with b' b3 b2 b1 show ?thesis by (auto simp: body_def)
qed

subsection \<open>Runs\<close>

text \<open>
  The calls a sender makes. \<open>sampler_within\<close> holds of a sequence in which no packet number is negative
  and no retransmittable packet is sent past the slot budget of the record map, and \<open>touches n\<close> of a call that may settle packet \<open>n\<close>.
\<close>

datatype sampler_op =
    Sent int int int int bool
  | Event int "int list" "(int \<times> int) list" Bandwidth Bandwidth time
  | Neutered int
  | AppLimited
  | Obsolete int

primrec sampler_do :: "sampler_op \<Rightarrow> bandwidthSampler \<Rightarrow> bandwidthSampler option" where
  "sampler_do (Sent t n bytes inFlight retrans) b = bs_OnPacketSent b t n bytes inFlight retrans"
| "sampler_do (Event t acked lost bw est rnd) b = map_option snd (bs_OnCongestionEvent b t acked lost bw est rnd)"
| "sampler_do (Neutered n) b = bs_OnPacketNeutered b n"
| "sampler_do AppLimited b = Some (bs_OnAppLimited b)"
| "sampler_do (Obsolete n) b = bs_RemoveObsoletePackets b n"

primrec sampler_run :: "sampler_op list \<Rightarrow> bandwidthSampler \<Rightarrow> bandwidthSampler option" where
  "sampler_run [] b = Some b"
| "sampler_run (x # xs) b = Option.bind (sampler_do x b) (sampler_run xs)"

fun op_within :: "sampler_op \<Rightarrow> bandwidthSampler \<Rightarrow> bool" where
  "op_within (Sent t n bytes inFlight retrans) b =
     (0 \<le> n \<and> (retrans \<longrightarrow> pq_IsEmpty (connectionStateMap b) \<or>
        n - firstPacket (connectionStateMap b) < maxSlots (connectionStateMap b)))"
| "op_within _ b = True"

primrec sampler_within :: "sampler_op list \<Rightarrow> bandwidthSampler \<Rightarrow> bool" where
  "sampler_within [] b = True"
| "sampler_within (x # xs) b = (op_within x b \<and> (case sampler_do x b of None \<Rightarrow> True | Some b' \<Rightarrow> sampler_within xs b'))"

primrec touches :: "int \<Rightarrow> sampler_op \<Rightarrow> bool" where
  "touches n (Sent t k bytes inFlight retrans) = (k = n)"
| "touches n (Event t acked lost bw est rnd) = (n \<in> set acked \<or> n \<in> fst ` set lost)"
| "touches n (Neutered k) = (k = n)"
| "touches n AppLimited = False"
| "touches n (Obsolete k) = (n < k)"

lemma open_transmission_ok:
  assumes "rb_wf (a0Candidates b)"
  shows "\<exists>b'. open_transmission b t = Some b' \<and> rb_wf (a0Candidates b') \<and> connectionStateMap b' = connectionStateMap b \<and>
    totalBytesAcked b' = totalBytesAcked b \<and> totalBytesLost b' = totalBytesLost b"
proof (cases "overestimateAvoidance b")
  case True
  obtain c where "rb_PushBack zero_ackPoint (rb_Clear zero_ackPoint (a0Candidates b))
      (ackPoint1 (rap_Update rap_Clear t (totalBytesAcked b))) = Some c" "rb_wf c"
    using rb_PushBack_ok [of "rb_Clear zero_ackPoint (a0Candidates b)" zero_ackPoint] rb_wf_Clear [of zero_ackPoint "a0Candidates b"]
    by metis
  with True show ?thesis by (simp add: open_transmission_def)
next
  case False
  with assms show ?thesis by (simp add: open_transmission_def)
qed

lemma pq_Emplace_within:
  assumes "pq_inv p" "pq_front_live p" "0 \<le> n" "pq_IsEmpty p \<or> n - firstPacket p < maxSlots p"
  shows "\<exists>m. pq_Emplace z p n (Some x) = Some (pq_IsEmpty p \<or> pq_LastPacket p < n, m) \<and> pq_inv m \<and> pq_front_live m \<and>
    pq_map m = (if pq_IsEmpty p \<or> pq_LastPacket p < n then (pq_map p)(n \<mapsto> x) else pq_map p)"
proof (cases "pq_IsEmpty p \<or> pq_LastPacket p < n")
  case True
  with pq_Emplace_refines_aux [OF assms(1-3), of z x] assms(4) show ?thesis by metis
next
  case False
  with pq_Emplace_refines_aux [OF assms(1-3), of z x] assms(2) show ?thesis by metis
qed

lemma OnPacketSent_ok:
  assumes "sampler_inv b" "op_within (Sent t n bytes inFlight retrans) b"
  shows "\<exists>b'. bs_OnPacketSent b t n bytes inFlight retrans = Some b' \<and> sampler_inv b' \<and>
    totalBytesAcked b' = totalBytesAcked b \<and> (\<forall>k. k \<noteq> n \<longrightarrow> records b' k = records b k) \<and>
    (retrans \<and> (pq_IsEmpty (connectionStateMap b) \<or> pq_LastPacket (connectionStateMap b) < n) \<longrightarrow>
       (\<exists>e. records b' n = Some e \<and> \<not> consumed e \<and> cs_size e = bytes))"
proof (cases retrans)
  case False
  with assms show ?thesis by (simp add: bs_OnPacketSent_def sampler_inv_def)
next
  case True
  let ?p = "connectionStateMap b"
  from assms(1) have inv: "pq_inv ?p" "pq_front_live ?p" "rb_wf (a0Candidates b)" by (simp_all add: sampler_inv_def)
  from assms(2) True have n: "0 \<le> n" "pq_IsEmpty ?p \<or> n - firstPacket ?p < maxSlots ?p" by simp_all
  let ?b0 = "b\<lparr>lastSentPacket := n, totalBytesSent := s64 (totalBytesSent b + bytes)\<rparr>"
  obtain b1 where b1: "(if inFlight = 0 then open_transmission ?b0 t else Some ?b0) = Some b1" "rb_wf (a0Candidates b1)"
      "connectionStateMap b1 = ?p" "totalBytesAcked b1 = totalBytesAcked b" "totalBytesLost b1 = totalBytesLost b"
    using open_transmission_ok [of ?b0 t] inv(3) by (cases "inFlight = 0") auto
  obtain m where m: "pq_Emplace zero_record ?p n (Some (newConnectionStateOnSentPacket t bytes (s64 (inFlight + bytes)) b1)) =
        Some (pq_IsEmpty ?p \<or> pq_LastPacket ?p < n, m)" "pq_inv m" "pq_front_live m"
      "pq_map m = (if pq_IsEmpty ?p \<or> pq_LastPacket ?p < n
         then (pq_map ?p)(n \<mapsto> newConnectionStateOnSentPacket t bytes (s64 (inFlight + bytes)) b1) else pq_map ?p)"
    using pq_Emplace_within [OF inv(1,2) n] by blast
  let ?b' = "b1\<lparr>connectionStateMap := m\<rparr>"
  have "bs_OnPacketSent b t n bytes inFlight retrans = Some ?b'" using True b1(1,3) m(1) by (simp add: bs_OnPacketSent_def)
  moreover have "sampler_inv ?b'" using assms(1) b1 m(2,3) by (simp add: sampler_inv_def)
  moreover have "\<forall>k. k \<noteq> n \<longrightarrow> records ?b' k = records b k" using m(4) by simp
  moreover have "pq_IsEmpty ?p \<or> pq_LastPacket ?p < n \<longrightarrow>
      records ?b' n = Some (newConnectionStateOnSentPacket t bytes (s64 (inFlight + bytes)) b1)"
    using m(4) by simp
  ultimately show ?thesis using b1(4) by (auto simp: newConnectionStateOnSentPacket_def)
qed

lemma sampler_do_ok:
  assumes "sampler_inv b" "op_within x b"
  shows "\<exists>b'. sampler_do x b = Some b' \<and> sampler_inv b' \<and>
    (\<forall>n e. records b n = Some e \<and> \<not> consumed e \<and> \<not> touches n x \<longrightarrow> records b' n = Some e)"
proof (cases x)
  case (Sent t n bytes inFlight retrans)
  with assms(2) OnPacketSent_ok [OF assms(1), of t n bytes inFlight retrans]
  obtain b' where "bs_OnPacketSent b t n bytes inFlight retrans = Some b'" "sampler_inv b'"
      "\<And>k. k \<noteq> n \<Longrightarrow> records b' k = records b k" by blast
  with Sent show ?thesis by simp
next
  case (Event t acked lost bw est rnd)
  then show ?thesis using OnCongestionEvent_ok [OF assms(1), of t acked lost bw est rnd] by auto
next
  case (Neutered n)
  then show ?thesis
    using pq_Remove_refines_aux [of "connectionStateMap b" zero_record n] assms(1)
    by (auto simp: bs_OnPacketNeutered_def sampler_inv_def)
next
  case AppLimited
  then show ?thesis using assms by (simp add: bs_OnAppLimited_def sampler_inv_def)
next
  case (Obsolete n)
  then show ?thesis
    using pq_RemoveUpTo_refines_aux [of "connectionStateMap b" zero_record n] assms(1)
    by (auto simp: bs_RemoveObsoletePackets_def sampler_inv_def restrict_map_def)
qed

lemma sampler_run_ok:
  "sampler_inv b \<Longrightarrow> sampler_within xs b \<Longrightarrow> \<exists>b'. sampler_run xs b = Some b' \<and> sampler_inv b' \<and>
     (\<forall>n e. records b n = Some e \<and> \<not> consumed e \<and> (\<forall>x \<in> set xs. \<not> touches n x) \<longrightarrow> records b' n = Some e)"
proof (induction xs arbitrary: b)
  case (Cons x xs)
  obtain b1 where b1: "sampler_do x b = Some b1" "sampler_inv b1"
      "\<And>n e. records b n = Some e \<Longrightarrow> \<not> consumed e \<Longrightarrow> \<not> touches n x \<Longrightarrow> records b1 n = Some e"
    using sampler_do_ok [OF Cons.prems(1), of x] Cons.prems(2) by auto
  moreover obtain b' where "sampler_run xs b1 = Some b'" "sampler_inv b'"
      "\<And>n e. records b1 n = Some e \<Longrightarrow> \<not> consumed e \<Longrightarrow> \<forall>x \<in> set xs. \<not> touches n x \<Longrightarrow> records b' n = Some e"
    using Cons.IH [OF b1(2)] Cons.prems(2) b1(1) by auto
  ultimately show ?case by simp
qed simp

subsection \<open>The estimate of the shared sampler\<close>

definition wf_ranked :: "'v :: linorder WindowedFilter \<Rightarrow> bool" where
  "wf_ranked f \<longleftrightarrow> comparator f = MaxFilter \<and> sample (est2 f) \<le> sample (est1 f) \<and> sample (est1 f) \<le> sample (est0 f)"

lemma MaxFilter_cmp [simp]: "MaxFilter a b = 0 \<longleftrightarrow> a = b" "0 \<le> MaxFilter a b \<longleftrightarrow> b \<le> a"
  by (auto simp: MaxFilter_def)

lemma wf_replace_ranked:
  "wf_ranked f \<Longrightarrow> sample e \<le> sample (est0 f) \<Longrightarrow>
     wf_ranked (wf_replace f e) \<and> sample e \<le> sample (est2 (wf_replace f e))"
  by (auto simp: wf_ranked_def wf_replace_def)

lemma wf_expire_ranked:
  "wf_ranked f \<Longrightarrow> sample e \<le> sample (est2 f) \<Longrightarrow>
     wf_ranked (wf_expire f e) \<and> sample e \<le> sample (est0 (wf_expire f e))"
  by (auto simp: wf_ranked_def wf_expire_def Let_def)

lemma wf_Update_ranked:
  assumes "wf_ranked f"
  shows "wf_ranked (wf_Update z f s t) \<and> s \<le> wf_GetBest (wf_Update z f s t)"
proof (cases "sample (est0 f) = z \<or> sample (est0 f) \<le> s \<or> t - wf_time (est2 f) > windowLength f")
  case True
  with assms show ?thesis by (auto simp: wf_Update_def wf_Reset_def wf_ranked_def wf_GetBest_def Let_def)
next
  case False
  let ?e = "\<lparr>sample = s, wf_time = t\<rparr>"
  from False have "sample ?e \<le> sample (est0 f)" by auto
  note wf_replace_ranked [OF assms this]
  then have "wf_ranked (wf_expire (wf_replace f ?e) ?e) \<and> sample ?e \<le> sample (est0 (wf_expire (wf_replace f ?e) ?e))"
    using wf_expire_ranked by blast
  moreover have "wf_Update z f s t = wf_expire (wf_replace f ?e) ?e"
    using False assms by (simp add: wf_Update_def wf_ranked_def Let_def)
  ultimately show ?thesis by (simp add: wf_GetBest_def)
qed

definition ref_inv :: "RefSampler \<Rightarrow> bool" where
  "ref_inv r \<longleftrightarrow> sampler_inv (sampler r) \<and> wf_ranked (maxBandwidth r)"

lemma ref_inv_new: "ref_inv (NewRefSampler w len)"
  by (simp add: ref_inv_def NewRefSampler_def sampler_inv_new wf_ranked_def NewWindowedFilter_def)

lemma ref_event_ok:
  assumes "ref_inv r"
  shows "\<exists>s r'. ref_OnCongestionEvent r t acked lost rnd = Some (s, r') \<and> ref_inv r' \<and>
    rs_Bandwidth s = wf_GetBest (maxBandwidth r') \<and>
    (totalBytesAcked (sampler r') \<noteq> totalBytesAcked (sampler r) \<longrightarrow> rs_Sample s \<le> rs_Bandwidth s) \<and>
    (totalBytesAcked (sampler r') = totalBytesAcked (sampler r) \<longrightarrow> maxBandwidth r' = maxBandwidth r)"
proof -
  obtain ev b where "bs_OnCongestionEvent (sampler r) t acked lost (wf_GetBest (maxBandwidth r)) infBandwidth rnd = Some (ev, b)"
      "sampler_inv b"
    using OnCongestionEvent_ok assms unfolding ref_inv_def by blast
  with assms wf_Update_ranked [of "maxBandwidth r" 0 "sampleMaxBandwidth ev" rnd] show ?thesis
    by (auto simp: ref_OnCongestionEvent_def ref_inv_def Let_def not_less)
qed

lemma ref_rtt_no_ack:
  assumes "ref_inv r"
  shows "\<exists>s r'. ref_OnCongestionEvent r t [] lost rnd = Some (s, r') \<and> rs_RTT s = infRTT"
proof -
  have inv: "sampler_inv (sampler r)" using assms by (simp add: ref_inv_def)
  obtain ls b1 where b1: "lost_loop lost zero_sendTimeState (sampler r) = Some (ls, b1)" "sampler_inv b1"
    using lost_loop_ok [OF inv] by blast
  obtain b where "bs_reclaimConsumed b1 = Some b" using reclaimConsumed_ok [OF b1(2)] by blast
  with b1(1) show ?thesis
    by (simp add: ref_OnCongestionEvent_def bs_OnCongestionEvent_def newCongestionEventSample_def Let_def)
qed

subsection \<open>Properties\<close>

text \<open>
  C6: Delivery is never lost from the accounting. Send a packet with a new number, then make any sequence of calls within the
  slot budget, none of which settles that packet: other packets sent, acked, lost or neutered, app-limited phases, records
  reclaimed after every event. No call panics, and when the packet is acked at last, its bytes are added to the bytes acked.
\<close>

theorem sampler_counts_delivery:
  assumes "sampler_inv b" "pq_IsEmpty (connectionStateMap b) \<or> pq_LastPacket (connectionStateMap b) < n"
    "sampler_within (Sent ts n bytes inFlight True # xs) b" "\<forall>x \<in> set xs. \<not> touches n x"
  shows "\<exists>b1 s b2. sampler_run (Sent ts n bytes inFlight True # xs) b = Some b1 \<and>
    bs_OnCongestionEvent b1 t [n] [] bw est rnd = Some (s, b2) \<and> sampler_inv b2 \<and>
    totalBytesAcked b2 = s64 (totalBytesAcked b1 + bytes)"
proof -
  obtain b0 e where b0: "bs_OnPacketSent b ts n bytes inFlight True = Some b0" "sampler_inv b0"
      "records b0 n = Some e" "\<not> consumed e" "cs_size e = bytes"
    using OnPacketSent_ok [OF assms(1), of ts n bytes inFlight True] assms(2,3) by auto
  then have "sampler_within xs b0" using assms(3) by simp
  then obtain b1 where b1: "sampler_run xs b0 = Some b1" "sampler_inv b1" "records b1 n = Some e"
    using sampler_run_ok [OF b0(2)] b0(3,4) assms(4) by blast
  obtain s b2 where "bs_OnCongestionEvent b1 t [n] [] bw est rnd = Some (s, b2)" "sampler_inv b2"
      "totalBytesAcked b2 = s64 (totalBytesAcked b1 + sum_list (map (record_size (records b1)) [n]))"
    using OnCongestionEvent_ok [OF b1(2)] by blast
  with b0 b1 show ?thesis by (simp add: record_size_def)
qed

theorem sampler_counts_delivery_witness:
  "\<exists>b1 s b2. sampler_run [Sent 5 0 1200 0 True, Sent 6 1 900 1200 True, Event 9 [1] [] 0 0 1, AppLimited]
       (newBandwidthSampler 40 10) = Some b1 \<and>
     bs_OnCongestionEvent b1 12 [0] [] 0 0 2 = Some (s, b2) \<and> totalBytesAcked b2 = s64 (totalBytesAcked b1 + 1200)"
proof -
  let ?xs = "[Sent 6 1 900 1200 True, Event 9 [1] [] 0 0 1, AppLimited]"
  have within: "sampler_within (Sent 5 0 1200 0 True # ?xs) (newBandwidthSampler 40 10)" by code_simp
  have empty: "pq_IsEmpty (connectionStateMap (newBandwidthSampler 40 10)) \<or>
      pq_LastPacket (connectionStateMap (newBandwidthSampler 40 10)) < 0" by code_simp
  have "\<forall>x \<in> set ?xs. \<not> touches 0 x" by simp
  from sampler_counts_delivery [OF sampler_inv_new empty within this, of 12 0 0 2] show ?thesis by blast
qed

text \<open>
  C20: What a congestion event does to the counters and the records. It never panics; the bytes acked grow by the sizes of the
  records of the acked packets and the bytes lost by the reported bytes, modulo 64 bits; the record of a packet that is
  outstanding and not in the event is kept as it is; every record that remains is the old one, marked when its packet was
  in the event; and the record left at the front of the map is not a consumed one.
\<close>

theorem OnCongestionEvent_accounts:
  assumes "sampler_inv b"
  shows "\<exists>s b'. bs_OnCongestionEvent b t acked lost bw est rnd = Some (s, b') \<and> sampler_inv b' \<and>
    totalBytesAcked b' = s64 (totalBytesAcked b + sum_list (map (record_size (records b)) acked)) \<and>
    totalBytesLost b' = s64 (totalBytesLost b + sum_list (map snd lost)) \<and>
    (\<forall>n e. records b n = Some e \<and> \<not> consumed e \<and> n \<notin> set acked \<and> n \<notin> fst ` set lost \<longrightarrow> records b' n = Some e) \<and>
    records b' \<subseteq>\<^sub>m consume (set acked \<union> fst ` set lost) (records b) \<and>
    (pq_els (connectionStateMap b') \<noteq> [] \<longrightarrow> \<not> consumed (entry (hd (pq_els (connectionStateMap b')))))"
  using assms by (rule OnCongestionEvent_ok)

theorem OnCongestionEvent_accounts_witness:
  "\<exists>s b'. bs_OnCongestionEvent (newBandwidthSampler 40 10) 9 [1] [(2, 700)] 0 0 1 = Some (s, b') \<and> totalBytesLost b' = s64 700"
  using OnCongestionEvent_accounts [OF sampler_inv_new, of 40 10 9 "[1]" "[(2, 700)]" 0 0 1]
  by (auto simp: newBandwidthSampler_def)

text \<open>
  C32: The shared sampler reports a consistent estimate. Every event returns, the bandwidth it reports is the best of the filter it
  leaves behind, an event that acked bytes never reports a bandwidth below its own sample, app-limited or not, and an event
  that acked none leaves the filter alone.
\<close>

theorem ref_estimate_covers_sample:
  assumes "ref_inv r"
  shows "\<exists>s r'. ref_OnCongestionEvent r t acked lost rnd = Some (s, r') \<and> ref_inv r' \<and>
    rs_Bandwidth s = wf_GetBest (maxBandwidth r') \<and>
    (totalBytesAcked (sampler r') \<noteq> totalBytesAcked (sampler r) \<longrightarrow> rs_Sample s \<le> rs_Bandwidth s) \<and>
    (totalBytesAcked (sampler r') = totalBytesAcked (sampler r) \<longrightarrow> maxBandwidth r' = maxBandwidth r)"
  using assms by (rule ref_event_ok)

declare pq_dropConsumed.simps [code]

definition ref_example :: RefSampler where
  "ref_example = the (ref_OnPacketSent (NewRefSampler 40 10) 5000 1 100 0 True)"

theorem ref_estimate_covers_sample_witness:
  "\<exists>s r'. ref_OnCongestionEvent ref_example 9000 [1] [] 1 = Some (s, r') \<and> ref_inv r' \<and>
     totalBytesAcked (sampler r') = 100 \<and> rs_Bandwidth s = wf_GetBest (maxBandwidth r') \<and> rs_Sample s \<le> rs_Bandwidth s"
proof -
  have "ref_inv ref_example" "totalBytesAcked (sampler ref_example) = 0"
      "map_option (\<lambda>(s, r'). totalBytesAcked (sampler r')) (ref_OnCongestionEvent ref_example 9000 [1] [] 1) = Some 100"
    by code_simp+
  with ref_estimate_covers_sample [of ref_example 9000 "[1]" "[]" 1] show ?thesis by auto
qed

text \<open>
  C39: When no candidate after the first lies past the packet, \<open>chooseA0Point\<close> picks the last candidate, but with three or
  more it does not leave that candidate in front, as the other branch does: the loop compares its counter with the length that
  its own pops shrink, so only half of the candidates are dropped.
\<close>

theorem chooseA0_keeps_stale:
  assumes "rb_wf r" "3 \<le> rb_Len r" "\<forall>p \<in> set (tl (rb_list r)). ap_totalBytesAcked p \<le> tot"
  shows "\<exists>r'. chooseA0Point r tot = Some (Some (last (rb_list r)), r') \<and>
    rb_list r' = drop (rb_Len r div 2) (rb_list r) \<and> 2 \<le> rb_Len r'"
proof -
  obtain r' where r': "chooseA0Point r tot = Some (Some (last (rb_list r)), r')"
      "rb_list r' = drop (rb_Len r div 2) (rb_list r)"
    using chooseA0Point_late [OF assms(1) _ assms(3)] assms(2) by auto
  moreover have "rb_Len r' = rb_Len r - rb_Len r div 2"
    using r'(2) length_rb_list [of r'] by (simp del: length_rb_list) simp
  ultimately show ?thesis using assms(2) by auto
qed

definition a0_example :: "ackPoint RingBuffer" where
  "a0_example = \<lparr>ring = map (\<lambda>k. \<lparr>ap_ackTime = k, ap_totalBytesAcked = 10 * k\<rparr>) [1, 2, 3, 4], headPos = 0, tailPos = 3, full = False\<rparr>"

theorem chooseA0_keeps_stale_witness:
  "\<exists>r'. chooseA0Point a0_example 30 = Some (Some \<lparr>ap_ackTime = 3, ap_totalBytesAcked = 30\<rparr>, r') \<and> rb_Len r' = 2"
proof -
  have "rb_wf a0_example" "3 \<le> rb_Len a0_example" "\<forall>p \<in> set (tl (rb_list a0_example)). ap_totalBytesAcked p \<le> 30"
    by code_simp+
  from chooseA0_keeps_stale [OF this] obtain r' where r': "chooseA0Point a0_example 30 = Some (Some (last (rb_list a0_example)), r')"
      "rb_list r' = drop (rb_Len a0_example div 2) (rb_list a0_example)" by blast
  moreover have "last (rb_list a0_example) = \<lparr>ap_ackTime = 3, ap_totalBytesAcked = 30\<rparr>"
      "length (drop (rb_Len a0_example div 2) (rb_list a0_example)) = 2" by code_simp+
  ultimately show ?thesis by (metis length_rb_list)
qed

end
