(* ===== verification/Pool.thy ===== *)
theory Pool
  imports Prelude
begin

section \<open>The bucketed buffer pool\<close>

text \<open>
  Models \<open>pool/pool.go\<close>. The pool is a function from bucket numbers to the arrays stored there;
  an array stands for a slice resliced to its capacity. \<open>sync.Pool\<close> may drop entries at any
  time and hand out any of the others, so its \<open>Get\<close> is the argument \<open>pick\<close>: given what a bucket
  holds it returns an array and the remaining entries, or \<open>None\<close> when it calls \<open>New\<close>. What the
  code relies on is that \<open>pick\<close> invents no array. A returned slice is its array and its length.
\<close>

definition num :: nat where "num = 17"
definition maxsize :: int where "maxsize = 2 ^ (num - 1)"
definition minsizePower :: nat where "minsizePower = 6"
definition minsize :: int where "minsize = 2 ^ minsizePower"

text \<open>\<open>bits.Len32\<close>: the number of bits needed to write the number.\<close>

fun bits_Len :: "nat \<Rightarrow> nat" where
  "bits_Len 0 = 0"
| "bits_Len (Suc n) = Suc (bits_Len (Suc n div 2))"

text \<open>\<open>need\<close> is converted to \<open>uint32\<close>; a shift by a negative count panics.\<close>

definition GetBiggerClosestN :: "int \<Rightarrow> nat option" where
  "GetBiggerClosestN need =
     (if need \<le> 0 then Some minsizePower
      else
        let n = bits_Len (nat (need mod 2 ^ 32)) in
        if n = 0 then None
        else if need = 2 ^ (n - 1) then Some (n - 1)
        else Some n)"

type_synonym pool_state = "nat \<Rightarrow> bytes list"
type_synonym pool_pick = "bytes list \<Rightarrow> (bytes \<times> bytes list) option"

definition clamp_bucket :: "nat \<Rightarrow> nat" where
  "clamp_bucket i = (if i < minsizePower then minsizePower else i)"

text \<open>\<open>pools[i].Get()\<close>; buckets below \<open>minsizePower\<close> have no \<open>New\<close>.\<close>

definition bucket_Get :: "pool_pick \<Rightarrow> nat \<Rightarrow> pool_state \<Rightarrow> (bytes \<times> pool_state) option" where
  "bucket_Get pick i st =
     (if num \<le> i then None
      else case pick (st i) of
        Some (b, rest) \<Rightarrow> Some (b, st(i := rest))
      | None \<Rightarrow> if minsizePower \<le> i then Some (replicate (2 ^ i) 0, st(i := [])) else None)"

definition pool_Get :: "pool_pick \<Rightarrow> int \<Rightarrow> pool_state \<Rightarrow> ((bytes \<times> nat) \<times> pool_state) option" where
  "pool_Get pick sz st =
     (if 1 \<le> sz \<and> sz \<le> maxsize then do {
        i \<leftarrow> GetBiggerClosestN sz;
        (b, st') \<leftarrow> bucket_Get pick (clamp_bucket i) st;
        if int (length b) < sz then Some ((replicate (nat sz) 0, nat sz), st')
        else Some ((b, nat sz), st') }
      else if sz < 0 then None
      else Some ((replicate (nat sz) 0, nat sz), st))"

definition pool_GetFullCap :: "pool_pick \<Rightarrow> int \<Rightarrow> pool_state \<Rightarrow> ((bytes \<times> nat) \<times> pool_state) option" where
  "pool_GetFullCap pick sz st = do {
     ((a, _), st') \<leftarrow> pool_Get pick sz st;
     Some ((a, length a), st') }"

definition pool_GetZero :: "pool_pick \<Rightarrow> int \<Rightarrow> pool_state \<Rightarrow> ((bytes \<times> nat) \<times> pool_state) option" where
  "pool_GetZero pick sz st = do {
     ((a, n), st') \<leftarrow> pool_Get pick sz st;
     Some ((replicate n 0 @ drop n a, n), st') }"

definition pool_Put :: "bytes \<Rightarrow> pool_state \<Rightarrow> pool_state option" where
  "pool_Put b st =
     (let sz = int (length b) in
      if sz < minsize \<or> sz > maxsize then Some st
      else do {
        i \<leftarrow> GetBiggerClosestN sz;
        let i' = clamp_bucket i;
        Some (if i' < num then st(i' := b # st i') else st) })"

subsection \<open>The bucket of a size\<close>

lemma bits_Len_bounds: "0 < n \<Longrightarrow> 2 ^ (bits_Len n - 1) \<le> n \<and> n < 2 ^ bits_Len n"
proof (induction n rule: bits_Len.induct)
  case (2 n)
  show ?case
  proof (cases "Suc n div 2 = 0")
    case True
    then have "n = 0" by simp
    then show ?thesis by simp
  next
    case False
    then obtain k where k: "bits_Len (Suc n div 2) = Suc k"
      by (cases "Suc n div 2") auto
    from 2 False have "2 ^ k \<le> Suc n div 2" "Suc n div 2 < 2 * 2 ^ k" by (simp_all add: k)
    then have "2 * 2 ^ k \<le> Suc n" "Suc n < 2 * (2 * 2 ^ k)" by linarith+
    with k show ?thesis by simp
  qed
qed simp

lemma bits_Len_pos: "0 < n \<Longrightarrow> 0 < bits_Len n"
  by (cases n) auto

lemma GetBiggerClosestN_least_aux:
  assumes "1 \<le> need" "need < 2 ^ 32"
  shows "\<exists>n. GetBiggerClosestN need = Some n \<and> need \<le> 2 ^ n \<and> (\<forall>m. need \<le> 2 ^ m \<longrightarrow> n \<le> m)"
proof -
  define k where "k = nat need"
  have k: "need = int k" "0 < k" "need mod 2 ^ 32 = int k" using assms by (simp_all add: k_def)
  define n where "n = bits_Len k"
  have n: "0 < n" "2 ^ (n - 1) \<le> k" "k < 2 ^ n"
    using bits_Len_bounds [OF k(2)] bits_Len_pos [OF k(2)] by (simp_all add: n_def)
  have pw: "int k = 2 ^ m \<longleftrightarrow> k = 2 ^ m" "int k \<le> 2 ^ m \<longleftrightarrow> k \<le> 2 ^ m" for m
    by (metis of_nat_eq_iff of_nat_numeral of_nat_power) (metis of_nat_le_iff of_nat_numeral of_nat_power)
  have eq: "GetBiggerClosestN need = Some (if k = 2 ^ (n - 1) then n - 1 else n)"
    using assms n(1) k by (simp add: GetBiggerClosestN_def n_def pw)
  have "(if k = 2 ^ (n - 1) then n - 1 else n) \<le> m" if "k \<le> 2 ^ m" for m
  proof (rule ccontr)
    assume "\<not> ?thesis"
    then have "m \<le> n - 1" "k = 2 ^ (n - 1) \<longrightarrow> m < n - 1" by (auto split: if_splits)
    moreover have "(2 :: nat) ^ (n - 1) \<le> 2 ^ m" using n(2) that by (rule order_trans)
    then have "n - 1 \<le> m" by simp
    ultimately have "m = n - 1" "k \<noteq> 2 ^ (n - 1)" by auto
    with n(2) that show False by simp
  qed
  with eq k(1) n pw show ?thesis by (auto split: if_splits)
qed

subsection \<open>What the pool keeps\<close>

text \<open>
  The bucket bound: an array in bucket \<open>i\<close> has a capacity between the smallest pooled size and
  \<open>2^i\<close>, and more than half of that, so nothing above \<open>maxsize\<close> is ever retained.
\<close>

definition pool_inv :: "pool_state \<Rightarrow> bool" where
  "pool_inv st \<longleftrightarrow> (\<forall>i. \<forall>b \<in> set (st i). minsizePower \<le> i \<and> i < num \<and>
     64 \<le> length b \<and> length b \<le> 2 ^ i \<and> 2 ^ (i - 1) < length b)"

definition honest :: "pool_pick \<Rightarrow> bool" where
  "honest pick \<longleftrightarrow> (\<forall>xs b rest. pick xs = Some (b, rest) \<longrightarrow> b \<in> set xs \<and> set rest \<subseteq> set xs)"

lemma GetBiggerClosestN_pooled:
  assumes "1 \<le> sz" "sz \<le> maxsize"
  shows "\<exists>i. GetBiggerClosestN sz = Some i \<and> sz \<le> 2 ^ i \<and> i \<le> 16 \<and> (0 < i \<longrightarrow> 2 ^ (i - 1) < sz)"
proof -
  from assms obtain i where i: "GetBiggerClosestN sz = Some i" "sz \<le> 2 ^ i" "\<And>m. sz \<le> 2 ^ m \<Longrightarrow> i \<le> m"
    using GetBiggerClosestN_least_aux [of sz] by (auto simp: maxsize_def num_def)
  moreover have "i \<le> 16" using i(3) [of 16] assms(2) by (simp add: maxsize_def num_def)
  moreover have "2 ^ (i - 1) < sz" if "0 < i" using i(3) [of "i - 1"] that by fastforce
  ultimately show ?thesis by blast
qed

lemma bucket_Get_ok:
  assumes "minsizePower \<le> i" "i < num" "honest pick"
  shows "\<exists>b st'. bucket_Get pick i st = Some (b, st') \<and> (pool_inv st \<longrightarrow> pool_inv st')"
proof (cases "pick (st i)")
  case None
  with assms(1,2) show ?thesis by (simp add: bucket_Get_def pool_inv_def)
next
  case (Some br)
  then have "set (snd br) \<subseteq> set (st i)" using assms(3) by (cases br) (auto simp: honest_def)
  with Some assms(2) show ?thesis by (cases br) (fastforce simp: bucket_Get_def pool_inv_def)
qed

lemma pool_Get_ok:
  assumes "0 \<le> sz" "honest pick"
  shows "\<exists>a st'. pool_Get pick sz st = Some ((a, nat sz), st') \<and> nat sz \<le> length a \<and> (pool_inv st \<longrightarrow> pool_inv st')"
proof (cases "1 \<le> sz \<and> sz \<le> maxsize")
  case True
  then obtain i where i: "GetBiggerClosestN sz = Some i" "i \<le> 16"
    using GetBiggerClosestN_pooled [of sz] by blast
  then have "minsizePower \<le> clamp_bucket i" "clamp_bucket i < num"
    by (simp_all add: clamp_bucket_def num_def minsizePower_def)
  then obtain b st' where "bucket_Get pick (clamp_bucket i) st = Some (b, st')" "pool_inv st \<longrightarrow> pool_inv st'"
    using bucket_Get_ok [OF _ _ assms(2)] by blast
  with True i(1) show ?thesis by (auto simp: pool_Get_def)
next
  case False
  with assms(1) show ?thesis by (auto simp: pool_Get_def)
qed

lemma pool_Put_ok:
  assumes "pool_inv st"
  shows "\<exists>st'. pool_Put b st = Some st' \<and> pool_inv st'"
proof (cases "int (length b) < minsize \<or> int (length b) > maxsize")
  case True
  with assms show ?thesis by (simp add: pool_Put_def)
next
  case False
  then have l: "64 \<le> length b" "1 \<le> int (length b)" "int (length b) \<le> maxsize"
    by (simp_all add: minsize_def minsizePower_def)
  obtain i where i: "GetBiggerClosestN (int (length b)) = Some i" "int (length b) \<le> 2 ^ i" "i \<le> 16"
      "0 < i \<longrightarrow> 2 ^ (i - 1) < int (length b)"
    using GetBiggerClosestN_pooled [OF l(2,3)] by blast
  have "6 \<le> i"
  proof (rule ccontr)
    assume "\<not> 6 \<le> i"
    then have "(2 :: int) ^ i \<le> 2 ^ 5" by (intro power_increasing) auto
    with i(2) have "int (length b) \<le> 2 ^ 5" by (rule order_trans)
    with l(1) show False by simp
  qed
  then have c: "clamp_bucket i = i" "minsizePower \<le> i" "i < num"
    using i(3) by (simp_all add: clamp_bucket_def minsizePower_def num_def)
  have "length b \<le> 2 ^ i" "2 ^ (i - 1) < length b"
    using i(2,4) \<open>6 \<le> i\<close> by simp_all
  with assms c l(1) have "pool_inv (st(i := b # st i))" by (auto simp: pool_inv_def)
  with False c i(1) show ?thesis by (simp add: pool_Put_def Let_def)
qed

subsection \<open>Properties of the pool\<close>

text \<open>
  C36: For every size a 32-bit length can have, \<open>GetBiggerClosestN\<close> is the least exponent whose
  power of two is large enough; in particular it does not panic.
\<close>

theorem GetBiggerClosestN_least:
  assumes "1 \<le> need" "need < 2 ^ 32"
  shows "\<exists>n. GetBiggerClosestN need = Some n \<and> need \<le> 2 ^ n \<and> (\<forall>m. need \<le> 2 ^ m \<longrightarrow> n \<le> m)"
  by (rule GetBiggerClosestN_least_aux [OF assms])

theorem GetBiggerClosestN_least_witness:
  "\<exists>n. GetBiggerClosestN 1025 = Some n \<and> 1025 \<le> (2 :: int) ^ n \<and> (\<forall>m. 1025 \<le> (2 :: int) ^ m \<longrightarrow> n \<le> m)"
  using GetBiggerClosestN_least [of 1025] by simp

text \<open>
  C33: \<open>Get\<close> followed by \<open>Put\<close>, on any pool within its bucket bound and whichever stored array
  \<open>sync.Pool\<close> hands out: the slice has the requested length and at least that capacity,
  \<open>GetZero\<close> clears all of it, and no operation panics or retains an array outside the bound.
\<close>

theorem pool_Get_Put_safe:
  assumes "pool_inv st" "\<forall>xs b rest. pick xs = Some (b, rest) \<longrightarrow> b \<in> set xs \<and> set rest \<subseteq> set xs" "0 \<le> sz"
  shows "\<exists>a st1 st2. pool_Get pick sz st = Some ((a, nat sz), st1) \<and> sz \<le> int (length a) \<and> pool_inv st1 \<and>
    pool_Put a st1 = Some st2 \<and> pool_inv st2 \<and>
    (\<exists>z. pool_GetZero pick sz st = Some ((z, nat sz), st1) \<and> take (nat sz) z = replicate (nat sz) 0)"
proof -
  have "honest pick" using assms(2) by (simp add: honest_def)
  then obtain a st1 where g: "pool_Get pick sz st = Some ((a, nat sz), st1)" "nat sz \<le> length a" "pool_inv st1"
    using pool_Get_ok [OF assms(3), of pick st] assms(1) by blast
  obtain st2 where "pool_Put a st1 = Some st2" "pool_inv st2" using pool_Put_ok [OF g(3)] by blast
  with g assms(3) show ?thesis by (auto simp: pool_GetZero_def)
qed

theorem pool_Get_Put_safe_witness:
  "\<exists>a st1. pool_Get (\<lambda>xs. case xs of [] \<Rightarrow> None | b # bs \<Rightarrow> Some (b, bs)) 100
      ((\<lambda>_. [])(7 := [replicate 70 1])) = Some ((a, 100), st1) \<and> 100 \<le> int (length a)"
proof -
  let ?pick = "\<lambda>xs. case xs of [] \<Rightarrow> None | b # bs \<Rightarrow> Some (b, bs)" and ?st = "(\<lambda>_. [])(7 := [replicate 70 1])"
  have "pool_inv ?st" by (simp add: pool_inv_def minsizePower_def num_def)
  moreover have "\<forall>xs b rest. ?pick xs = Some (b, rest) \<longrightarrow> b \<in> set xs \<and> set rest \<subseteq> set xs"
    by (auto split: list.splits)
  moreover have "0 \<le> (100 :: int)" by simp
  ultimately obtain a st1 where "pool_Get ?pick 100 ?st = Some ((a, nat 100), st1)" "100 \<le> int (length a)"
    using pool_Get_Put_safe [of ?st ?pick 100] by blast
  then show ?thesis unfolding nat_numeral by blast
qed

end
