(* ===== verification/Io.thy ===== *)
theory Io
  imports Prelude
begin

section \<open>Byte streams and slices being filled\<close>

text \<open>
  What the wire codecs use of \<open>io\<close> and \<open>encoding/binary\<close>. A reader over a stream that ends is
  the list of bytes still to come: \<open>io.ReadFull\<close> of a slice of length \<open>n\<close> returns \<open>io.EOF\<close> when
  nothing is left, \<open>io.ErrUnexpectedEOF\<close> when less than \<open>n\<close> bytes are, and otherwise the bytes
  and the rest of the stream. Errors built with \<open>fmt.Errorf\<close> are \<open>Err\<close> of their format string.
\<close>

definition sum_bind :: "'e + 'a \<Rightarrow> ('a \<Rightarrow> 'e + 'b) \<Rightarrow> 'e + 'b" where
  "sum_bind m f = (case m of Inl e \<Rightarrow> Inl e | Inr x \<Rightarrow> f x)"

definition sum_map_error :: "('e \<Rightarrow> 'f) \<Rightarrow> 'e + 'a \<Rightarrow> 'f + 'a" where
  "sum_map_error f m = (case m of Inl e \<Rightarrow> Inl (f e) | Inr x \<Rightarrow> Inr x)"

lemma sum_bind_simps [simp]: "sum_bind (Inl e) f = Inl e" "sum_bind (Inr x) f = f x"
  by (simp_all add: sum_bind_def)

lemma sum_bind_Inr: "sum_bind m f = Inr y \<longleftrightarrow> (\<exists>x. m = Inr x \<and> f x = Inr y)"
  by (cases m) simp_all

definition io_ReadFull :: "nat \<Rightarrow> bytes \<Rightarrow> go_error + bytes \<times> bytes" where
  "io_ReadFull n bs =
     (if n = 0 then Inr ([], bs)
      else if bs = [] then Inl EOF
      else if length bs < n then Inl ErrUnexpectedEOF
      else Inr (take n bs, drop n bs))"

definition io_ReadByte :: "bytes \<Rightarrow> go_error + byte \<times> bytes" where
  "io_ReadByte bs = (case bs of [] \<Rightarrow> Inl EOF | b # rest \<Rightarrow> Inr (b, rest))"

text \<open>\<open>binary.BigEndian.Uint16(b[i:])\<close>, and \<open>binary.Read\<close> of one and two byte integers.\<close>

definition u16_at :: "bytes \<Rightarrow> nat \<Rightarrow> 16 word" where
  "u16_at bs i = get_u16 (bs ! i) (bs ! (i + 1))"

definition u32_at :: "bytes \<Rightarrow> nat \<Rightarrow> 32 word" where
  "u32_at bs i = get_u32 (bs ! i) (bs ! (i + 1)) (bs ! (i + 2)) (bs ! (i + 3))"

definition read_u16 :: "bytes \<Rightarrow> go_error + 16 word \<times> bytes" where
  "read_u16 bs = sum_bind (io_ReadFull 2 bs) (\<lambda>(b, rest). Inr (u16_at b 0, rest))"

definition read_u8 :: "bytes \<Rightarrow> go_error + byte \<times> bytes" where
  "read_u8 bs = sum_bind (io_ReadFull 1 bs) (\<lambda>(b, rest). Inr (b ! 0, rest))"

text \<open>
  Slices being filled: \<open>put_at b i xs\<close> stores \<open>xs\<close> at index \<open>i\<close> (an index or a \<open>PutUint16\<close> out of
  range panics), \<open>copy_at b i xs\<close> is \<open>copy(b[i:], xs)\<close> with its count, and \<open>on_tail b i f\<close>
  hands the subslice \<open>b[i:]\<close>, which shares the array, to a function that fills it.
\<close>

definition put_at :: "bytes \<Rightarrow> nat \<Rightarrow> bytes \<Rightarrow> bytes option" where
  "put_at b i xs = (if i + length xs \<le> length b then Some (take i b @ xs @ drop (i + length xs) b) else None)"

definition copy_at :: "bytes \<Rightarrow> nat \<Rightarrow> bytes \<Rightarrow> (nat \<times> bytes) option" where
  "copy_at b i xs =
     (if i \<le> length b then Some (min (length b - i) (length xs), take i b @ go_copy (drop i b) xs) else None)"

definition on_tail :: "bytes \<Rightarrow> nat \<Rightarrow> (bytes \<Rightarrow> (nat \<times> bytes) option) \<Rightarrow> (nat \<times> bytes) option" where
  "on_tail b i f =
     (if i \<le> length b then do {
        (n, t) \<leftarrow> f (drop i b);
        Some (n, take i b @ t) }
      else None)"

text \<open>
  An \<open>io.Writer\<close> with its \<open>WriteByte\<close> is a function from its state and the bytes to an error and
  the new state; \<open>write_all\<close> makes several writes and stops at the first error.
\<close>

type_synonym 'w bwriter = "'w \<Rightarrow> bytes \<Rightarrow> go_error option \<times> 'w"

primrec write_all :: "'w bwriter \<Rightarrow> 'w \<Rightarrow> bytes list \<Rightarrow> go_error option \<times> 'w" where
  "write_all wr w [] = (None, w)"
| "write_all wr w (x # xs) =
     (case wr w x of (Some e, w') \<Rightarrow> (Some e, w') | (None, w') \<Rightarrow> write_all wr w' xs)"

lemma write_all_append:
  "write_all wr w (xs @ ys) =
     (case write_all wr w xs of (Some e, w') \<Rightarrow> (Some e, w') | (None, w') \<Rightarrow> write_all wr w' ys)"
  by (induction xs arbitrary: w) (auto split: prod.splits option.splits)

subsection \<open>Reading what was written\<close>

lemma io_ReadFull_append [simp]: "length xs = n \<Longrightarrow> io_ReadFull n (xs @ rest) = Inr (xs, rest)"
  by (auto simp: io_ReadFull_def)

lemma io_ReadFull_Inr: "io_ReadFull n bs = Inr (xs, rest) \<longleftrightarrow> length xs = n \<and> bs = xs @ rest"
  by (auto simp: io_ReadFull_def)

lemma io_ReadFull_0 [simp]: "io_ReadFull 0 bs = Inr ([], bs)"
  by (simp add: io_ReadFull_def)

lemma io_ReadFull_1 [simp]: "io_ReadFull (Suc 0) (b # rest) = Inr ([b], rest)" "io_ReadFull (Suc 0) [] = Inl EOF"
  by (simp_all add: io_ReadFull_def)

lemma io_ReadByte_Cons [simp]: "io_ReadByte (b # rest) = Inr (b, rest)" "io_ReadByte [] = Inl EOF"
  by (simp_all add: io_ReadByte_def)

lemma io_ReadByte_Inr: "io_ReadByte bs = Inr (b, rest) \<longleftrightarrow> bs = b # rest"
  by (auto simp: io_ReadByte_def split: list.splits)

lemma u16_at_put [simp]: "u16_at (put_u16 w @ rest) 0 = w" "u16_at (put_u16 w) 0 = w"
  by (simp_all add: u16_at_def put_u16_def)

lemma u16_at_append: "u16_at (xs @ ys) (length xs + i) = u16_at ys i"
  by (simp add: u16_at_def nth_append)

lemma u16_at_drop: "i + 2 \<le> length bs \<Longrightarrow> drop i bs = put_u16 (u16_at bs i) @ drop (i + 2) bs"
  unfolding u16_at_def put_get_u16
  by (simp add: Cons_nth_drop_Suc)

lemma read_u16_append [simp]: "read_u16 (put_u16 w @ rest) = Inr (w, rest)"
  by (simp add: read_u16_def)

lemma read_u16_Inr: "read_u16 bs = Inr (w, rest) \<longleftrightarrow> bs = put_u16 w @ rest"
proof
  assume "read_u16 bs = Inr (w, rest)"
  then obtain b where "length b = 2" "bs = b @ rest" "w = u16_at b 0"
    by (auto simp: read_u16_def sum_bind_Inr io_ReadFull_Inr)
  with u16_at_drop [of 0 b] show "bs = put_u16 w @ rest" by simp
qed simp

lemma read_u8_append [simp]: "read_u8 (b # rest) = Inr (b, rest)"
  by (simp add: read_u8_def io_ReadFull_def)

lemma read_u8_Inr: "read_u8 bs = Inr (b, rest) \<longleftrightarrow> bs = b # rest"
  by (cases bs) (auto simp: read_u8_def io_ReadFull_def)

lemmas io_Inr = io_ReadFull_Inr io_ReadByte_Inr read_u16_Inr read_u8_Inr sum_bind_Inr

subsection \<open>Filling a slice from the front\<close>

lemma put_at_front:
  assumes "length pre = i" "length xs \<le> length b"
  shows "put_at (pre @ b) i xs = Some (pre @ xs @ drop (length xs) b)"
  using assms by (simp add: put_at_def)

lemma copy_at_front:
  assumes "length pre = i" "length xs \<le> length b"
  shows "copy_at (pre @ b) i xs = Some (length xs, pre @ xs @ drop (length xs) b)"
  using assms by (simp add: copy_at_def go_copy_fits)

lemma on_tail_front:
  assumes "length pre = i"
  shows "on_tail (pre @ b) i f = map_option (\<lambda>(n, t). (n, pre @ t)) (f b)"
  using assms by (cases "f b") (auto simp: on_tail_def)

end
