(* ===== verification/Utf8.thy ===== *)
theory Utf8
  imports Prelude
begin

section \<open>UTF-8\<close>

text \<open>
  \<open>utf8.AppendRune\<close> and \<open>utf8.DecodeRune\<close> of the Go library, which the byte buffer and the
  URL parser use. A rune is a signed 32-bit value, compared as \<open>uint32\<close>; surrogates and
  values past \<open>U+10FFFF\<close> are written as \<open>U+FFFD\<close>, and an invalid or truncated encoding
  reads as \<open>(U+FFFD, 1)\<close>. The encoding of the valid runes is a prefix code.
\<close>

definition utf8_cont :: "byte \<Rightarrow> bool" where
  "utf8_cont c \<longleftrightarrow> 0x80 \<le> c \<and> c \<le> 0xBF"

definition utf8_AppendRune :: "32 word \<Rightarrow> bytes" where
  "utf8_AppendRune r =
     (if r \<le> 0x7F then [ucast r]
      else if r \<le> 0x7FF then [0xC0 OR ucast (drop_bit 6 r), 0x80 OR ucast (r AND 0x3F)]
      else if r > 0x10FFFF \<or> (0xD800 \<le> r \<and> r \<le> 0xDFFF) then [0xEF, 0xBF, 0xBD]
      else if r \<le> 0xFFFF then
        [0xE0 OR ucast (drop_bit 12 r), 0x80 OR ucast (drop_bit 6 r AND 0x3F), 0x80 OR ucast (r AND 0x3F)]
      else
        [0xF0 OR ucast (drop_bit 18 r), 0x80 OR ucast (drop_bit 12 r AND 0x3F),
         0x80 OR ucast (drop_bit 6 r AND 0x3F), 0x80 OR ucast (r AND 0x3F)])"

definition utf8_DecodeRune :: "bytes \<Rightarrow> 32 word \<times> nat" where
  "utf8_DecodeRune p =
     (case p of
        [] \<Rightarrow> (0xFFFD, 0)
      | a # p1 \<Rightarrow>
          if a < 0x80 then (ucast a, 1)
          else if a < 0xC2 \<or> a > 0xF4 then (0xFFFD, 1)
          else
            (case p1 of
               [] \<Rightarrow> (0xFFFD, 1)
             | b # p2 \<Rightarrow>
                 let lo = (if a = 0xE0 then 0xA0 else if a = 0xF0 then 0x90 else 0x80);
                     hi = (if a = 0xED then 0x9F else if a = 0xF4 then 0x8F else 0xBF) in
                 if b < lo \<or> b > hi then (0xFFFD, 1)
                 else if a < 0xE0 then
                   (push_bit 6 (ucast (a AND 0x1F)) OR ucast (b AND 0x3F), 2)
                 else
                   (case p2 of
                      [] \<Rightarrow> (0xFFFD, 1)
                    | c # p3 \<Rightarrow>
                        if \<not> utf8_cont c then (0xFFFD, 1)
                        else if a < 0xF0 then
                          (push_bit 12 (ucast (a AND 0x0F)) OR push_bit 6 (ucast (b AND 0x3F)) OR
                           ucast (c AND 0x3F), 3)
                        else
                          (case p3 of
                             [] \<Rightarrow> (0xFFFD, 1)
                           | d # _ \<Rightarrow>
                               if \<not> utf8_cont d then (0xFFFD, 1)
                               else
                                 (push_bit 18 (ucast (a AND 0x07)) OR push_bit 12 (ucast (b AND 0x3F)) OR
                                  push_bit 6 (ucast (c AND 0x3F)) OR ucast (d AND 0x3F), 4)))))"

definition utf8_valid :: "32 word \<Rightarrow> bool" where
  "utf8_valid r \<longleftrightarrow> r \<le> 0x10FFFF \<and> \<not> (0xD800 \<le> r \<and> r \<le> 0xDFFF)"

text \<open>Decoding one rune off the front of a byte string, as the readers of the code do.\<close>

definition utf8_dec :: "bytes \<Rightarrow> go_error + 32 word \<times> bytes" where
  "utf8_dec bs =
     (if bs = [] then Inl EOF
      else let (r, n) = utf8_DecodeRune bs in Inr (r, drop n bs))"

subsection \<open>Lead and trail bytes\<close>

lemma utf8_lead2: "y < 0x20 \<Longrightarrow> (0xC0 :: byte) OR y = 0xC0 + y \<and> (0xC0 + y) AND 0x1F = y"
  by (rule byte_below [of _ 32 y], code_simp) (simp add: word_less_nat_alt)

lemma utf8_lead3: "y < 0x10 \<Longrightarrow> (0xE0 :: byte) OR y = 0xE0 + y \<and> (0xE0 + y) AND 0x0F = y"
  by (rule byte_below [of _ 16 y], code_simp) (simp add: word_less_nat_alt)

lemma utf8_lead4: "y < 0x08 \<Longrightarrow> (0xF0 :: byte) OR y = 0xF0 + y \<and> (0xF0 + y) AND 0x07 = y"
  by (rule byte_below [of _ 8 y], code_simp) (simp add: word_less_nat_alt)

lemma utf8_trail: "y < 0x40 \<Longrightarrow> (0x80 :: byte) OR y = 0x80 + y \<and> (0x80 + y) AND 0x3F = y \<and> utf8_cont (0x80 + y)"
  by (rule byte_below [of _ 64 y], code_simp) (simp add: word_less_nat_alt)

lemma bit_bounded:
  assumes "bit (r :: 32 word) n" "unat r < 2 ^ k"
  shows "n < k"
proof -
  have "bit (unat r) n" using assms(1) by (simp add: bit_unsigned_iff)
  then have "odd (unat r div 2 ^ n)" by (simp add: bit_iff_odd)
  then have "2 ^ n \<le> unat r" by (cases "unat r < 2 ^ n") auto
  then have "(2 :: nat) ^ n < 2 ^ k" using assms(2) by (rule le_less_trans)
  then show ?thesis by simp
qed

lemma masks: "(0x3F :: 32 word) = mask 6" by (simp add: mask_eq_exp_minus_1)

lemma utf8_join2: 
  assumes "unat (r :: 32 word) < 2 ^ 11"
  shows "push_bit 6 (ucast (ucast (drop_bit 6 r) :: byte)) OR ucast (ucast (r AND 0x3F) :: byte) = r"
  unfolding masks 
proof (rule bit_word_eqI, goal_cases)
  case (1 n)
  then show ?case
    using bit_bounded [OF _ assms, of n]
    by (cases "n < 6"; cases "n < 12"; cases "n < 18") (auto simp: bit_simps)
qed

lemma utf8_join3: 
  assumes "unat (r :: 32 word) < 2 ^ 16"
  shows "push_bit 12 (ucast (ucast (drop_bit 12 r) :: byte)) OR push_bit 6 (ucast (ucast (drop_bit 6 r AND 0x3F) :: byte)) OR ucast (ucast (r AND 0x3F) :: byte) = r"
  unfolding masks 
proof (rule bit_word_eqI, goal_cases)
  case (1 n)
  then show ?case
    using bit_bounded [OF _ assms, of n]
    by (cases "n < 6"; cases "n < 12"; cases "n < 18") (auto simp: bit_simps)
qed

lemma utf8_join4: 
  assumes "unat (r :: 32 word) < 2 ^ 21"
  shows "push_bit 18 (ucast (ucast (drop_bit 18 r) :: byte)) OR push_bit 12 (ucast (ucast (drop_bit 12 r AND 0x3F) :: byte)) OR push_bit 6 (ucast (ucast (drop_bit 6 r AND 0x3F) :: byte)) OR ucast (ucast (r AND 0x3F) :: byte) = r"
  unfolding masks 
proof (rule bit_word_eqI, goal_cases)
  case (1 n)
  then show ?case
    using bit_bounded [OF _ assms, of n]
    by (cases "n < 6"; cases "n < 12"; cases "n < 18") (auto simp: bit_simps)
qed


lemma rune_shift: "unat (drop_bit n r :: 32 word) = unat r div 2 ^ n"
  using unsigned_less [of r, where ?'a=nat]
  by (simp add: unsigned_drop_bit_eq take_bit_nat_eq_self drop_bit_eq_div [where ?'a=nat] del: drop_bit_eq_div)

lemma rune_top: "unat (ucast (drop_bit n r :: 32 word) :: byte) = unat r div 2 ^ n mod 256"
  by (simp add: unsigned_ucast_eq take_bit_eq_mod [where ?'a=nat] rune_shift del: drop_bit_eq_div)

lemma rune_low: "unat (ucast (r AND 0x3F :: 32 word) :: byte) = unat r mod 64"
proof -
  have "unat (r AND mask 6) = unat r mod 64"
    by (simp add: unsigned_take_bit_eq take_bit_eq_mod [where ?'a=nat] flip: take_bit_eq_mask)
  then show ?thesis by (simp add: masks unsigned_ucast_eq take_bit_eq_mod [where ?'a=nat])
qed

lemmas rune_bytes = rune_top rune_low rune_shift

lemma byte_plus: "unat a + unat b < 256 \<Longrightarrow> unat (a + b :: byte) = unat a + unat b"
  by (simp add: unat_word_ariths)

lemma div_mod_64: "x div m mod 64 = x div m - 64 * (x div (m * 64))" for x m :: nat
  by (simp add: minus_mult_div_eq_mod [symmetric] div_mult2_eq)

lemma rune3_range:
  fixes x :: nat
  assumes "0x800 \<le> x" "x < 2 ^ 16" "\<not> (0xD800 \<le> x \<and> x \<le> 0xDFFF)"
  shows "x div 2 ^ 12 mod 256 = 0 \<Longrightarrow> 0x20 \<le> x div 2 ^ 6 mod 64"
    and "x div 2 ^ 12 mod 256 = 13 \<Longrightarrow> x div 2 ^ 6 mod 64 \<le> 0x1F"
proof -
  have top: "x div 2 ^ 12 mod 256 = x div 4096" using assms(2) by simp
  have mid: "x div 2 ^ 6 mod 64 = x div 64 - 64 * (x div 4096)"
    using div_mod_64 [of x 64] by simp
  show "0x20 \<le> x div 2 ^ 6 mod 64" if "x div 2 ^ 12 mod 256 = 0"
    using that assms unfolding top mid by linarith
  show "x div 2 ^ 6 mod 64 \<le> 0x1F" if "x div 2 ^ 12 mod 256 = 13"
    using that assms unfolding top mid by linarith
qed

lemma rune4_range:
  fixes x :: nat
  assumes "0x10000 \<le> x" "x \<le> 0x10FFFF"
  shows "x div 2 ^ 18 mod 256 \<le> 4"
    and "x div 2 ^ 18 mod 256 = 0 \<Longrightarrow> 0x10 \<le> x div 2 ^ 12 mod 64"
    and "x div 2 ^ 18 mod 256 = 4 \<Longrightarrow> x div 2 ^ 12 mod 64 \<le> 0x0F"
proof -
  have top: "x div 2 ^ 18 mod 256 = x div 262144" using assms(2) by simp
  have mid: "x div 2 ^ 12 mod 64 = x div 4096 - 64 * (x div 262144)"
    using div_mod_64 [of x 4096] by simp
  show "x div 2 ^ 18 mod 256 \<le> 4"
    using assms unfolding top by linarith
  show "0x10 \<le> x div 2 ^ 12 mod 64" if "x div 2 ^ 18 mod 256 = 0"
    using that assms unfolding top mid by linarith
  show "x div 2 ^ 12 mod 64 \<le> 0x0F" if "x div 2 ^ 18 mod 256 = 4"
    using that assms unfolding top mid by linarith
qed

lemma utf8_round2:
  assumes "0x80 \<le> r" "r \<le> (0x7FF :: 32 word)"
  shows "utf8_DecodeRune (utf8_AppendRune r @ rest) = (r, 2) \<and> length (utf8_AppendRune r) = 2"
proof -
  define y :: byte where "y = ucast (drop_bit 6 r)"
  define k :: byte where "k = ucast (r AND 0x3F)"
  have r: "128 \<le> unat r" "unat r < 2 ^ 11" using assms by (simp_all add: word_le_nat_alt)
  have y: "unat y < 32" "2 \<le> unat y" and k: "unat k < 64"
    using r unfolding y_def k_def rune_bytes by auto
  then have b: "y < 0x20" "k < 0x40" by (simp_all add: word_less_nat_alt)
  have u: "unat (0xC0 + y) = 0xC0 + unat y" "unat (0x80 + k) = 0x80 + unat k"
    using y k by (simp_all add: byte_plus)
  have "utf8_AppendRune r = [0xC0 + y, 0x80 + k]"
    using r utf8_lead2 [of y] utf8_trail [of k] b
    by (auto simp: utf8_AppendRune_def y_def [symmetric] k_def [symmetric] word_le_nat_alt)
  moreover have "push_bit 6 (ucast ((0xC0 + y) AND 0x1F)) OR ucast ((0x80 + k) AND 0x3F) = r"
    using utf8_join2 [OF r(2)] utf8_lead2 [of y] utf8_trail [of k] b
    by (simp add: y_def [symmetric] k_def [symmetric])
  ultimately show ?thesis using y k
    by (auto simp: utf8_DecodeRune_def word_less_nat_alt word_le_nat_alt u word_unat_eq_iff)
qed

lemma utf8_round3:
  assumes "0x800 \<le> r" "r \<le> (0xFFFF :: 32 word)" "\<not> (0xD800 \<le> r \<and> r \<le> 0xDFFF)"
  shows "utf8_DecodeRune (utf8_AppendRune r @ rest) = (r, 3) \<and> length (utf8_AppendRune r) = 3"
proof -
  define y :: byte where "y = ucast (drop_bit 12 r)"
  define j :: byte where "j = ucast (drop_bit 6 r AND 0x3F)"
  define k :: byte where "k = ucast (r AND 0x3F)"
  have r: "0x800 \<le> unat r" "unat r < 2 ^ 16" "\<not> (0xD800 \<le> unat r \<and> unat r \<le> 0xDFFF)"
    using assms by (simp_all add: word_le_nat_alt)
  have y: "unat y < 16" and j: "unat j < 64" and k: "unat k < 64"
    and lo: "unat y = 0 \<Longrightarrow> 0x20 \<le> unat j" and hi: "unat y = 13 \<Longrightarrow> unat j \<le> 0x1F"
    using r rune3_range [OF r] unfolding y_def j_def k_def rune_bytes by auto
  then have b: "y < 0x10" "j < 0x40" "k < 0x40" by (simp_all add: word_less_nat_alt)
  have u: "unat (0xE0 + y) = 0xE0 + unat y" "unat (0x80 + j) = 0x80 + unat j"
      "unat (0x80 + k) = 0x80 + unat k"
    using y j k by (simp_all add: byte_plus)
  have "utf8_AppendRune r = [0xE0 + y, 0x80 + j, 0x80 + k]"
    using r utf8_lead3 [of y] utf8_trail [of j] utf8_trail [of k] b
    by (auto simp: utf8_AppendRune_def y_def [symmetric] j_def [symmetric] k_def [symmetric] word_le_nat_alt word_less_nat_alt)
  moreover have "push_bit 12 (ucast ((0xE0 + y) AND 0x0F)) OR push_bit 6 (ucast ((0x80 + j) AND 0x3F)) OR ucast ((0x80 + k) AND 0x3F) = r"
    using utf8_join3 [OF r(2)] utf8_lead3 [of y] utf8_trail [of j] utf8_trail [of k] b
    by (simp add: y_def [symmetric] j_def [symmetric] k_def [symmetric])
  moreover have "utf8_cont (0x80 + k)" using utf8_trail [of k] b by simp
  moreover have "0xE0 + y = 0xE0 \<longleftrightarrow> unat y = 0" "0xE0 + y = 0xED \<longleftrightarrow> unat y = 13"
      "0xE0 + y \<noteq> 0xF0" "0xE0 + y \<noteq> 0xF4"
    using y u by (simp_all add: word_unat_eq_iff)
  ultimately show ?thesis using y j lo hi
    by (auto simp: utf8_DecodeRune_def word_less_nat_alt word_le_nat_alt u)
qed

lemma utf8_round4:
  assumes "0x10000 \<le> r" "r \<le> (0x10FFFF :: 32 word)"
  shows "utf8_DecodeRune (utf8_AppendRune r @ rest) = (r, 4) \<and> length (utf8_AppendRune r) = 4"
proof -
  define y :: byte where "y = ucast (drop_bit 18 r)"
  define i :: byte where "i = ucast (drop_bit 12 r AND 0x3F)"
  define j :: byte where "j = ucast (drop_bit 6 r AND 0x3F)"
  define k :: byte where "k = ucast (r AND 0x3F)"
  have r: "0x10000 \<le> unat r" "unat r \<le> 0x10FFFF" using assms by (simp_all add: word_le_nat_alt)
  then have r': "unat r < 2 ^ 21" by simp
  have y: "unat y \<le> 4" and i: "unat i < 64" and j: "unat j < 64" and k: "unat k < 64"
    and lo: "unat y = 0 \<Longrightarrow> 0x10 \<le> unat i" and hi: "unat y = 4 \<Longrightarrow> unat i \<le> 0x0F"
    using r rune4_range [OF r] unfolding y_def i_def j_def k_def rune_bytes by auto
  then have b: "y < 8" "i < 0x40" "j < 0x40" "k < 0x40" by (simp_all add: word_less_nat_alt)
  have u: "unat (0xF0 + y) = 0xF0 + unat y" "unat (0x80 + i) = 0x80 + unat i"
      "unat (0x80 + j) = 0x80 + unat j" "unat (0x80 + k) = 0x80 + unat k"
    using y i j k by (simp_all add: byte_plus)
  note t = utf8_lead4 [of y] utf8_trail [of i] utf8_trail [of j] utf8_trail [of k]
  have "utf8_AppendRune r = [0xF0 + y, 0x80 + i, 0x80 + j, 0x80 + k]"
    using r t b
    by (auto simp: utf8_AppendRune_def y_def [symmetric] i_def [symmetric] j_def [symmetric] k_def [symmetric] word_le_nat_alt word_less_nat_alt)
  moreover have "push_bit 18 (ucast ((0xF0 + y) AND 0x07)) OR push_bit 12 (ucast ((0x80 + i) AND 0x3F)) OR push_bit 6 (ucast ((0x80 + j) AND 0x3F)) OR ucast ((0x80 + k) AND 0x3F) = r"
    using utf8_join4 [OF r'] t b
    by (simp add: y_def [symmetric] i_def [symmetric] j_def [symmetric] k_def [symmetric])
  moreover have "utf8_cont (0x80 + j)" "utf8_cont (0x80 + k)" using t b by simp_all
  moreover have "0xF0 + y = 0xF0 \<longleftrightarrow> unat y = 0" "0xF0 + y = 0xF4 \<longleftrightarrow> unat y = 4"
      "0xF0 + y \<noteq> 0xE0" "0xF0 + y \<noteq> 0xED"
    using y u by (simp_all add: word_unat_eq_iff)
  ultimately show ?thesis using y i lo hi
    by (auto simp: utf8_DecodeRune_def word_less_nat_alt word_le_nat_alt u)
qed

lemma utf8_round1:
  assumes "r \<le> (0x7F :: 32 word)"
  shows "utf8_DecodeRune (utf8_AppendRune r @ rest) = (r, 1) \<and> length (utf8_AppendRune r) = 1"
proof -
  have r: "unat r < 2 ^ 7" using assms by (simp add: word_le_nat_alt)
  have "unat (ucast r :: byte) < 0x80"
    using r by (simp add: unsigned_ucast_eq take_bit_eq_mod [where ?'a=nat])
  moreover have "ucast (ucast r :: byte) = r"
    using bit_bounded [OF _ r] by (intro bit_word_eqI) (fastforce simp: bit_simps)
  ultimately show ?thesis
    using assms by (simp add: utf8_AppendRune_def utf8_DecodeRune_def word_less_nat_alt)
qed

lemma utf8_round_trip:
  assumes "utf8_valid r"
  shows "utf8_DecodeRune (utf8_AppendRune r @ rest) = (r, length (utf8_AppendRune r))"
proof -
  consider "r \<le> 0x7F" | "0x80 \<le> r" "r \<le> 0x7FF" | "0x800 \<le> r" "r \<le> 0xFFFF" | "0x10000 \<le> r"
    by (auto simp: word_le_nat_alt) linarith
  then show ?thesis
    using assms utf8_round1 [of r] utf8_round2 [of r] utf8_round3 [of r] utf8_round4 [of r]
    by cases (auto simp: utf8_valid_def)
qed

lemma utf8_AppendRune_nonempty: "utf8_AppendRune r \<noteq> []" "length (utf8_AppendRune r) \<le> 4"
  by (auto simp: utf8_AppendRune_def)

lemma utf8_DecodeRune_size: "p \<noteq> [] \<Longrightarrow>
    1 \<le> snd (utf8_DecodeRune p) \<and> snd (utf8_DecodeRune p) \<le> length p \<and> snd (utf8_DecodeRune p) \<le> 4"
  by (auto simp: utf8_DecodeRune_def Let_def split: list.splits)

interpretation utf8: prefix_codec utf8_valid utf8_AppendRune utf8_dec
  by unfold_locales (simp add: utf8_dec_def utf8_round_trip utf8_AppendRune_nonempty)

end
