(* ===== verification/GoStrings.thy ===== *)
theory GoStrings
  imports Io Utf8 "HOL-Library.Char_ord" "HOL-Library.Sublist"
begin

section \<open>Go strings\<close>

text \<open>
  A Go string is a sequence of bytes, here a HOL \<open>string\<close>: a \<open>char\<close> of HOL is one byte.
  This theory has what the URL parser uses of the package \<open>strings\<close>, with \<open>None\<close> for
  the index \<open>-1\<close>, and the runes that \<open>range\<close> over a string yields.
\<close>

abbreviation between :: "char \<Rightarrow> char \<Rightarrow> char \<Rightarrow> bool" where
  "between lo c hi \<equiv> lo \<le> c \<and> c \<le> hi"

definition byte_of :: "char \<Rightarrow> byte" where
  "byte_of c = of_char c"

definition str_of_byte :: "byte \<Rightarrow> char" where
  "str_of_byte b = char_of (unat b)"

definition str_Cut :: "string \<Rightarrow> char \<Rightarrow> string \<times> string \<times> bool" where
  "str_Cut s c = (takeWhile (\<lambda>x. x \<noteq> c) s, drop 1 (dropWhile (\<lambda>x. x \<noteq> c) s), c \<in> set s)"

primrec str_Index :: "string \<Rightarrow> string \<Rightarrow> nat option" where
  "str_Index [] p = (if p = [] then Some 0 else None)"
| "str_Index (c # s) p = (if prefix p (c # s) then Some 0 else map_option Suc (str_Index s p))"

definition str_LastIndex :: "string \<Rightarrow> char \<Rightarrow> nat option" where
  "str_LastIndex s c =
     (if c \<in> set s then Some (length s - 1 - length (takeWhile (\<lambda>x. x \<noteq> c) (rev s))) else None)"

definition str_Contains :: "string \<Rightarrow> char \<Rightarrow> bool" where
  "str_Contains s c \<longleftrightarrow> c \<in> set s"

definition str_HasPrefix :: "string \<Rightarrow> string \<Rightarrow> bool" where
  "str_HasPrefix s p \<longleftrightarrow> prefix p s"

definition str_HasSuffix :: "string \<Rightarrow> string \<Rightarrow> bool" where
  "str_HasSuffix s p \<longleftrightarrow> suffix p s"

definition str_Count :: "string \<Rightarrow> char \<Rightarrow> nat" where
  "str_Count s c = count_list s c"

text \<open>\<open>strings.ToLower\<close> of an ASCII string, the only kind it is applied to.\<close>

definition str_ToLower :: "string \<Rightarrow> string" where
  "str_ToLower s = map (\<lambda>c. if between (CHR ''A'') c (CHR ''Z'') then str_of_byte (byte_of c + 32) else c) s"

text \<open>The runes of a string.\<close>

function go_runes :: "bytes \<Rightarrow> 32 word list" where
  "go_runes bs = (if bs = [] then [] else let (r, n) = utf8_DecodeRune bs in r # go_runes (drop n bs))"
  by pat_completeness auto
termination
proof (relation "measure length")
  fix bs x r n
  assume "bs \<noteq> []" "x = utf8_DecodeRune bs" "(r, n) = x"
  moreover then have "0 < n" using utf8_DecodeRune_size [of bs] by (metis snd_conv One_nat_def Suc_le_eq)
  ultimately show "(drop n bs, bs) \<in> measure length" by simp
qed simp

declare go_runes.simps [simp del]

definition str_runes :: "string \<Rightarrow> 32 word list" where
  "str_runes s = go_runes (map byte_of s)"

subsection \<open>Characters\<close>

text \<open>A fact about every byte is checked on the 256 of them.\<close>

lemma of_char_bound: "(of_char c :: nat) < 256"
  by (metis of_char_mod_256 mod_less_divisor zero_less_numeral)

lemma every_char: "list_all P (map (char_of :: nat \<Rightarrow> char) [0..<256]) \<Longrightarrow> P c"
proof -
  assume "list_all P (map (char_of :: nat \<Rightarrow> char) [0..<256])"
  moreover have "c = char_of (of_char c :: nat)" "of_char c \<in> set [0..<256]" using of_char_bound [of c] by simp_all
  ultimately show ?thesis unfolding list_all_iff set_map by blast
qed

lemma unat_byte_of: "unat (byte_of c) = of_char c"
proof -
  have "byte_of c = word_of_nat (of_char c)" by (simp add: byte_of_def of_nat_of_char)
  then show ?thesis
    using of_char_bound [of c] by (simp add: unsigned_of_nat take_bit_nat_eq_self)
qed

lemma byte_of_inverse [simp]: "str_of_byte (byte_of c) = c"
  by (simp add: str_of_byte_def unat_byte_of)

lemma str_of_byte_inverse [simp]: "byte_of (str_of_byte b) = b"
proof -
  have "byte_of (str_of_byte b) = word_of_nat (of_char (char_of (unat b) :: char))"
    unfolding byte_of_def str_of_byte_def of_nat_of_char ..
  also have "of_char (char_of (unat b) :: char) = unat b" using unsigned_less [of b, where ?'a = nat] by simp
  finally show ?thesis by simp
qed

subsection \<open>Cutting and searching\<close>

lemma str_Cut_append: "c \<notin> set a \<Longrightarrow> str_Cut (a @ c # b) c = (a, b, True)"
  by (simp add: str_Cut_def takeWhile_append dropWhile_append)

lemma str_Cut_none:
  assumes "c \<notin> set a"
  shows "str_Cut a c = (a, [], False)"
proof -
  have "\<forall>x \<in> set a. x \<noteq> c" using assms by blast
  then have "takeWhile (\<lambda>x. x \<noteq> c) a = a" "dropWhile (\<lambda>x. x \<noteq> c) a = []"
    by (simp_all only: takeWhile_eq_all_conv dropWhile_eq_Nil_conv)
  with assms show ?thesis by (simp only: str_Cut_def drop_Nil)
qed

lemma str_CutD:
  assumes "str_Cut s c = (a, b, f)"
  shows "c \<notin> set a" "f \<Longrightarrow> s = a @ c # b" "\<not> f \<Longrightarrow> s = a" "\<not> f \<Longrightarrow> b = []"
proof -
  have "c \<notin> set a \<and> (f \<longrightarrow> s = a @ c # b) \<and> (\<not> f \<longrightarrow> s = a \<and> b = [])"
  proof (cases "c \<in> set s")
    case True
    then obtain x y where "s = x @ c # y" "c \<notin> set x" by (meson split_list_first)
    with assms show ?thesis by (simp add: str_Cut_append)
  next
    case False
    from assms [unfolded str_Cut_none [OF False]] False show ?thesis by blast
  qed
  then show "c \<notin> set a" "f \<Longrightarrow> s = a @ c # b" "\<not> f \<Longrightarrow> s = a" "\<not> f \<Longrightarrow> b = []" by blast+
qed

lemma str_Cut_shorter: "q \<noteq> [] \<Longrightarrow> length (fst (snd (str_Cut q c))) < length q"
  using length_dropWhile_le [of "\<lambda>x. x \<noteq> c" q] by (cases q) (simp_all add: str_Cut_def del: length_dropWhile_le)

lemma str_LastIndex_append: "c \<notin> set b \<Longrightarrow> str_LastIndex (a @ c # b) c = Some (length a)"
  by (simp add: str_LastIndex_def takeWhile_append)

lemma str_LastIndex_none [simp]: "str_LastIndex s c = None \<longleftrightarrow> c \<notin> set s"
  by (simp add: str_LastIndex_def)

lemma str_LastIndex_split:
  assumes "str_LastIndex s c = Some i"
  obtains a b where "s = a @ c # b" "c \<notin> set b" "length a = i"
proof -
  have "c \<in> set s" using assms by (simp add: str_LastIndex_def split: if_splits)
  then obtain a b where "s = a @ c # b" "c \<notin> set b" by (meson split_list_last)
  then show ?thesis using assms that str_LastIndex_append by fastforce
qed

lemma str_Index_none: "str_Index s p = None \<longleftrightarrow> \<not> sublist p s"
proof (induction s)
  case (Cons c s)
  then show ?case by (simp add: sublist_Cons_right)
qed simp

lemma str_Index_Some:
  "str_Index s p = Some i \<Longrightarrow> prefix p (drop i s) \<and> i \<le> length s \<and> (\<forall>j < i. \<not> prefix p (drop j s))"
proof (induction s arbitrary: i)
  case (Cons c s)
  show ?case
  proof (cases "prefix p (c # s)")
    case False
    then obtain k where k: "str_Index s p = Some k" "i = Suc k" using Cons.prems by auto
    with Cons.IH [OF k(1)] False show ?thesis by (auto simp: less_Suc_eq_0_disj)
  qed (use Cons.prems in auto)
qed (auto split: if_splits)

lemma str_HasSuffix_char: "str_HasSuffix s [d] \<longleftrightarrow> s \<noteq> [] \<and> last s = d"
  by (cases s rule: rev_cases) (auto simp: str_HasSuffix_def suffix_def)

subsection \<open>Runes\<close>

text \<open>A predicate that only holds of ASCII runes can be read off the bytes.\<close>

lemma or_ge: "(z :: 'a::len word) \<le> x \<Longrightarrow> z \<le> x OR y"
  unfolding word_le_def uint_or by (rule order_trans [OF _ or_greater_eq]) simp_all

lemma or_ge2: "(z :: 'a::len word) \<le> y \<Longrightarrow> z \<le> x OR y"
  by (subst or.commute) (rule or_ge)

lemma byte_bound: "unat (a :: byte) < 256"
  using unsigned_less [of a, where ?'a = nat] by simp

lemma unat_lead:
  fixes a :: byte
  assumes "m \<le> 8" "n \<le> 24"
  shows "unat (push_bit n (ucast (a AND mask m)) :: 32 word) = unat a mod 2 ^ m * 2 ^ n"
proof -
  have "unat a mod 2 ^ m < 2 ^ m" "(2 :: nat) ^ m \<le> 2 ^ 8" using assms(1) by (simp, intro power_increasing) simp_all
  then have a: "unat a mod 2 ^ m < 2 ^ 8" by linarith
  then have "unat (ucast (a AND mask m) :: 32 word) = unat a mod 2 ^ m"
    unfolding unsigned_ucast_eq take_bit_eq_mask [symmetric] unsigned_take_bit_eq take_bit_eq_mod [where 'a = nat]
    using byte_bound [of a] by (subst mod_less) simp_all
  moreover have "unat a mod 2 ^ m * 2 ^ n < 2 ^ 8 * 2 ^ 24"
    using a power_increasing [of n 24 "2 :: nat"] assms(2) by (intro mult_less_le_imp_less) simp_all
  ultimately show ?thesis
    unfolding unsigned_push_bit_eq by (simp add: take_bit_nat_eq_self push_bit_eq_mult [where 'a = nat])
qed

lemma mod_range: "k * d + r \<le> x \<Longrightarrow> x < (k + 1) * d \<Longrightarrow> r \<le> x mod d" for x :: nat
  using div_nat_eqI [of d k x] minus_mod_eq_div_mult [of x d] by (simp add: algebra_simps)

lemma lead_ge:
  fixes a :: byte
  assumes "m \<le> 8" "n \<le> 24" "k * 2 ^ m + r \<le> unat a" "unat a < (k + 1) * 2 ^ m" "128 \<le> r * 2 ^ n"
  shows "(0x80 :: 32 word) \<le> push_bit n (ucast (a AND mask m))"
proof -
  have "128 \<le> unat a mod 2 ^ m * 2 ^ n"
    using order_trans [OF assms(5) mult_le_mono1 [OF mod_range [OF assms(3,4)]]] .
  then show ?thesis using unat_lead [OF assms(1,2), of a] by (simp add: word_le_nat_alt)
qed

lemma masks_byte: "(0x1F :: byte) = mask 5" "(0x0F :: byte) = mask 4" "(0x07 :: byte) = mask 3" "(0x3F :: byte) = mask 6"
  by (simp_all add: mask_eq_exp_minus_1)

lemma utf8_lead_rune:
  assumes "p = a # p1" "\<not> a < 0x80"
  shows "0x80 \<le> fst (utf8_DecodeRune p)"
proof -
  have l2: "(0x80 :: 32 word) \<le> push_bit 6 (ucast (a AND 0x1F))" if "0xC2 \<le> a" "a < 0xE0"
    unfolding masks_byte using that by (intro lead_ge [where k = 6 and r = 2]) (simp_all add: word_le_nat_alt word_less_nat_alt)
  have l3: "(0x80 :: 32 word) \<le> push_bit 12 (ucast (a AND 0x0F))" if "0xE0 < a" "a < 0xF0"
    unfolding masks_byte using that by (intro lead_ge [where k = 14 and r = 1]) (simp_all add: word_le_nat_alt word_less_nat_alt)
  have l4: "(0x80 :: 32 word) \<le> push_bit 18 (ucast (a AND 0x07))" if "0xF0 < a" "a \<le> 0xF4"
    unfolding masks_byte using that by (intro lead_ge [where k = 30 and r = 1]) (simp_all add: word_le_nat_alt word_less_nat_alt)
  have t3: "(0x80 :: 32 word) \<le> push_bit 6 (ucast (b AND 0x3F))" if "0xA0 \<le> b" "b \<le> 0xBF" for b :: byte
    unfolding masks_byte using that by (intro lead_ge [where k = 2 and r = 32]) (simp_all add: word_le_nat_alt word_less_nat_alt)
  have t4: "(0x80 :: 32 word) \<le> push_bit 12 (ucast (b AND 0x3F))" if "0x90 \<le> b" "b \<le> 0xBF" for b :: byte
    unfolding masks_byte using that by (intro lead_ge [where k = 2 and r = 16]) (simp_all add: word_le_nat_alt word_less_nat_alt)
  show ?thesis
  proof (cases "a < 0xC2 \<or> a > 0xF4 \<or> p1 = []")
    case False
    then obtain b p2 where p1: "p1 = b # p2" and a: "0xC2 \<le> a" "a \<le> 0xF4" by (cases p1) auto
    have "a < 0xE0 \<or> a = 0xE0 \<or> 0xE0 < a \<and> a < 0xF0 \<or> a = 0xF0 \<or> 0xF0 < a" by auto
    then show ?thesis
    proof (elim disjE)
      assume "a < 0xE0"
      then show ?thesis using assms a l2 by (simp add: utf8_DecodeRune_def Let_def p1 or_ge)
    next
      assume "a = 0xE0"
      then show ?thesis using assms t3 [of b]
        by (simp add: utf8_DecodeRune_def Let_def p1 not_less or_ge split: list.splits)
    next
      assume "0xE0 < a \<and> a < 0xF0"
      moreover then have "\<not> a < 0xE0" "a \<noteq> 0xE0" "a \<noteq> 0xF0" "a \<noteq> 0xF4" by auto
      ultimately show ?thesis using assms a l3
        by (simp add: utf8_DecodeRune_def Let_def p1 or_ge split: list.splits)
    next
      assume "a = 0xF0"
      then show ?thesis using assms t4 [of b]
        by (simp add: utf8_DecodeRune_def Let_def p1 not_less or_ge or_ge2 split: list.splits)
    next
      assume "0xF0 < a"
      moreover then have "\<not> a < 0xE0" "\<not> a < 0xF0" "a \<noteq> 0xE0" "a \<noteq> 0xF0" "a \<noteq> 0xED"
        by (auto simp: word_less_nat_alt)
      ultimately show ?thesis using assms a l4
        by (simp add: utf8_DecodeRune_def Let_def p1 or_ge split: list.splits)
    qed
  qed (use assms in \<open>auto simp: utf8_DecodeRune_def\<close>)
qed

lemma list_all_runes:
  assumes "\<And>r. Q r \<Longrightarrow> r < 0x80"
  shows "list_all Q (str_runes s) \<longleftrightarrow> list_all (\<lambda>c. Q (ucast (byte_of c))) s"
proof -
  have "list_all Q (go_runes bs) \<longleftrightarrow> list_all (\<lambda>b. Q (ucast b)) bs" for bs
  proof (induction bs rule: go_runes.induct)
    case (1 bs)
    show ?case
    proof (cases bs)
      case (Cons a p1)
      obtain r n where d: "utf8_DecodeRune bs = (r, n)" by fastforce
      note step = go_runes.simps [of bs, simplified d]
      show ?thesis
      proof (cases "a < 0x80")
        case True
        then have "r = ucast a" "n = 1" using d by (simp_all add: Cons utf8_DecodeRune_def)
        then show ?thesis using 1 [OF _ d [symmetric] refl] step Cons by simp
      next
        case False
        then have "\<not> Q r" using utf8_lead_rune [OF Cons False] d assms [of r] by auto
        moreover have "\<not> Q (ucast a)"
          using False assms [of "ucast a"] byte_bound [of a]
          by (auto simp: word_less_nat_alt unsigned_ucast_eq take_bit_nat_eq_self)
        ultimately show ?thesis using step Cons by simp
      qed
    qed (simp add: go_runes.simps)
  qed
  then show ?thesis by (simp add: str_runes_def list.pred_map comp_def)
qed

end
