(* ===== verification/NetAddr.thy ===== *)
theory NetAddr
  imports GoStrings
begin

section \<open>Network addresses of the standard library\<close>

text \<open>
  What the protocols use of the packages \<open>net\<close>, \<open>net/netip\<close> and \<open>strconv\<close>: addresses and
  their textual forms, ports, and the splitting of \<open>host:port\<close>. The callers only test parse errors
  for being nil, so a failed parse is \<open>None\<close>. A \<open>net.IP\<close> is a byte slice.
\<close>

subsection \<open>Numbers\<close>

definition digit_char :: "nat \<Rightarrow> char" where
  "digit_char d = ''0123456789abcdef'' ! d"

function format_uint :: "nat \<Rightarrow> nat \<Rightarrow> string" where
  "format_uint base n =
     (if base < 2 \<or> n < base then [digit_char n] else format_uint base (n div base) @ [digit_char (n mod base)])"
  by pat_completeness auto
termination by (relation "measure snd") auto

declare format_uint.simps [simp del]

abbreviation Itoa :: "nat \<Rightarrow> string" where
  "Itoa n \<equiv> format_uint 10 n"

definition hex_value :: "char \<Rightarrow> nat option" where
  "hex_value c =
     (if between (CHR ''0'') c (CHR ''9'') then Some (of_char c - 48)
      else if between (CHR ''a'') c (CHR ''f'') then Some (of_char c - 97 + 10)
      else if between (CHR ''A'') c (CHR ''F'') then Some (of_char c - 65 + 10)
      else None)"

definition is_hex :: "char \<Rightarrow> bool" where
  "is_hex c \<longleftrightarrow> hex_value c \<noteq> None"

definition dec_value :: "char \<Rightarrow> nat option" where
  "dec_value c = (if between (CHR ''0'') c (CHR ''9'') then Some (of_char c - 48) else None)"

primrec parse_uint_loop :: "nat \<Rightarrow> string \<Rightarrow> nat \<Rightarrow> nat option" where
  "parse_uint_loop maxVal [] n = Some n"
| "parse_uint_loop maxVal (c # s) n = do {
     d \<leftarrow> dec_value c;
     if n * 10 + d > maxVal then None else parse_uint_loop maxVal s (n * 10 + d) }"

text \<open>\<open>strconv.ParseUint(s, 10, 16)\<close>.\<close>

definition ParseUint16 :: "string \<Rightarrow> 16 word option" where
  "ParseUint16 s = (if s = [] then None else map_option word_of_nat (parse_uint_loop 65535 s 0))"

subsection \<open>Addresses\<close>

text \<open>The zero \<open>netip.Addr\<close>, IPv4 addresses, and IPv6 addresses with their zone.\<close>

datatype netip_addr = NoAddr | Addr4 bytes | Addr6 bytes string
type_synonym addr_port = "netip_addr \<times> 16 word"

definition noAddrPort :: addr_port where
  "noAddrPort = (NoAddr, 0)"

definition AddrFromSlice :: "bytes \<Rightarrow> netip_addr" where
  "AddrFromSlice s = (if length s = 4 then Addr4 s else if length s = 16 then Addr6 s [] else NoAddr)"

definition v4in6Prefix :: bytes where
  "v4in6Prefix = replicate 10 0 @ [0xFF, 0xFF]"

text \<open>\<open>Unmap\<close> strips the prefix of an IPv4-mapped address.\<close>

fun netip_Unmap :: "netip_addr \<Rightarrow> netip_addr" where
  "netip_Unmap (Addr6 s z) = (if take 12 s = v4in6Prefix then Addr4 (drop 12 s) else Addr6 s z)"
| "netip_Unmap a = a"

fun netip_WithoutZone :: "netip_addr \<Rightarrow> netip_addr" where
  "netip_WithoutZone (Addr6 s z) = Addr6 s []"
| "netip_WithoutZone a = a"

fun netip_AsSlice :: "netip_addr \<Rightarrow> bytes" where
  "netip_AsSlice NoAddr = []"
| "netip_AsSlice (Addr4 s) = s"
| "netip_AsSlice (Addr6 s z) = s"

fun netip_As16 :: "netip_addr \<Rightarrow> bytes" where
  "netip_As16 NoAddr = replicate 16 0"
| "netip_As16 (Addr4 s) = v4in6Prefix @ s"
| "netip_As16 (Addr6 s z) = s"

fun netip_Zone :: "netip_addr \<Rightarrow> string" where
  "netip_Zone (Addr6 s z) = z"
| "netip_Zone a = []"

definition netip_IsValid :: "netip_addr \<Rightarrow> bool" where
  "netip_IsValid a \<longleftrightarrow> a \<noteq> NoAddr"

fun netip_Is4 :: "netip_addr \<Rightarrow> bool" where
  "netip_Is4 (Addr4 s) = True"
| "netip_Is4 a = False"

fun netip_IsUnspecified :: "netip_addr \<Rightarrow> bool" where
  "netip_IsUnspecified NoAddr = False"
| "netip_IsUnspecified (Addr4 s) = (s = replicate 4 0)"
| "netip_IsUnspecified (Addr6 s z) = (s = replicate 16 0 \<and> z = [])"

text \<open>The sizes that the Go type guarantees.\<close>

fun netip_wf :: "netip_addr \<Rightarrow> bool" where
  "netip_wf NoAddr = True"
| "netip_wf (Addr4 s) = (length s = 4)"
| "netip_wf (Addr6 s z) = (length s = 16)"

subsection \<open>Parsing\<close>

text \<open>
  \<open>parseIPv4Fields\<close>: \<open>start\<close> says that the last character was a dot, or that there is none yet.
\<close>

primrec parseIPv4_loop :: "string \<Rightarrow> bool \<Rightarrow> nat \<Rightarrow> nat \<Rightarrow> bytes \<Rightarrow> bytes option" where
  "parseIPv4_loop [] start val digLen fields =
     (if length fields < 3 then None else Some (fields @ [word_of_nat val]))"
| "parseIPv4_loop (c # s) start val digLen fields =
     (case dec_value c of
        Some d \<Rightarrow>
          if digLen = 1 \<and> val = 0 then None
          else if val * 10 + d > 255 then None
          else parseIPv4_loop s False (val * 10 + d) (digLen + 1) fields
      | None \<Rightarrow>
          if c = CHR ''.'' then
            if start \<or> s = [] then None
            else if length fields = 3 then None
            else parseIPv4_loop s True 0 0 (fields @ [word_of_nat val])
          else None)"

definition parseIPv4 :: "string \<Rightarrow> bytes option" where
  "parseIPv4 s = parseIPv4_loop s True 0 0 []"

text \<open>
  The loop of \<open>parseIPv6\<close>: at most \<open>k\<close> more groups, \<open>ip\<close> the bytes so far, \<open>ellipsis\<close> the position of \<open>::\<close>.
\<close>

definition hex_number :: "string \<Rightarrow> nat" where
  "hex_number ds = foldl (\<lambda>acc c. acc * 16 + the (hex_value c)) 0 ds"

primrec parseIPv6_loop :: "nat \<Rightarrow> string \<Rightarrow> bytes \<Rightarrow> nat option \<Rightarrow> (string \<times> bytes \<times> nat option) option" where
  "parseIPv6_loop 0 s ip ellipsis = Some (s, ip, ellipsis)"
| "parseIPv6_loop (Suc k) s ip ellipsis =
     (let ds = takeWhile is_hex s;
          rest = drop (length ds) s;
          ip' = ip @ put_u16 (word_of_nat (hex_number ds)) in
      if ds = [] \<or> length ds > 4 then None
      else if rest \<noteq> [] \<and> hd rest = CHR ''.'' then
        if ellipsis = None \<and> length ip \<noteq> 12 then None
        else if length ip + 4 > 16 then None
        else map_option (\<lambda>f. ([], ip @ f, ellipsis)) (parseIPv4 s)
      else if rest = [] then Some ([], ip', ellipsis)
      else if hd rest \<noteq> CHR '':'' \<or> tl rest = [] then None
      else if hd (tl rest) = CHR '':'' then
        if ellipsis \<noteq> None then None
        else if tl (tl rest) = [] then Some ([], ip', Some (length ip'))
        else parseIPv6_loop k (tl (tl rest)) ip' (Some (length ip'))
      else parseIPv6_loop k (tl rest) ip' ellipsis)"

definition parseIPv6_finish :: "string \<Rightarrow> bytes \<Rightarrow> nat option \<Rightarrow> bytes option" where
  "parseIPv6_finish s ip ellipsis =
     (if s \<noteq> [] then None
      else case ellipsis of
        None \<Rightarrow> if length ip < 16 then None else Some ip
      | Some e \<Rightarrow>
          if length ip < 16 then Some (take e ip @ replicate (16 - length ip) 0 @ drop e ip) else None)"

definition parseIPv6 :: "string \<Rightarrow> netip_addr option" where
  "parseIPv6 inp =
     (let (s, zone, found) = str_Cut inp (CHR ''%'') in
      if found \<and> zone = [] then None
      else if str_HasPrefix s ''::'' \<and> drop 2 s = [] then Some (Addr6 (replicate 16 0) zone)
      else do {
        (s', ip, e) \<leftarrow> (if str_HasPrefix s ''::'' then parseIPv6_loop 8 (drop 2 s) [] (Some 0)
                        else parseIPv6_loop 8 s [] None);
        b \<leftarrow> parseIPv6_finish s' ip e;
        Some (Addr6 b zone) })"

definition netip_ParseAddr :: "string \<Rightarrow> netip_addr option" where
  "netip_ParseAddr s =
     (case dropWhile (\<lambda>c. c \<notin> set ''.:%'') s of
        [] \<Rightarrow> None
      | c # _ \<Rightarrow>
          if c = CHR ''.'' then map_option Addr4 (parseIPv4 s)
          else if c = CHR '':'' then parseIPv6 s
          else None)"

text \<open>\<open>net.ParseIP\<close> refuses zones and always returns sixteen bytes; \<open>To4\<close> undoes the mapping.\<close>

definition net_ParseIP :: "string \<Rightarrow> bytes option" where
  "net_ParseIP s =
     (case netip_ParseAddr s of
        None \<Rightarrow> None
      | Some a \<Rightarrow> if netip_Zone a \<noteq> [] then None else Some (netip_As16 a))"

definition ip_To4 :: "bytes \<Rightarrow> bytes option" where
  "ip_To4 ip =
     (if length ip = 4 then Some ip
      else if length ip = 16 \<and> take 12 ip = v4in6Prefix then Some (drop 12 ip)
      else None)"

subsection \<open>Printing\<close>

primrec str_Join :: "string \<Rightarrow> string list \<Rightarrow> string" where
  "str_Join sep [] = []"
| "str_Join sep (x # xs) = x @ concat (map (\<lambda>y. sep @ y) xs)"

definition string4 :: "bytes \<Rightarrow> string" where
  "string4 b = str_Join ''.'' (map (\<lambda>x. Itoa (unat x)) b)"

primrec zero_run_from :: "(nat \<times> nat) option \<Rightarrow> nat \<Rightarrow> nat list \<Rightarrow> (nat \<times> nat) option" where
  "zero_run_from best i [] = best"
| "zero_run_from best i (g # gs) =
     (let l = length (takeWhile (\<lambda>x. x = 0) (g # gs));
          len = (case best of None \<Rightarrow> 0 | Some (zs, ze) \<Rightarrow> ze - zs) in
      zero_run_from (if l \<ge> 2 \<and> l > len then Some (i, i + l) else best) (Suc i) gs)"

definition zero_run :: "nat list \<Rightarrow> (nat \<times> nat) option" where
  "zero_run gs = zero_run_from None 0 gs"

definition groups6 :: "bytes \<Rightarrow> nat list" where
  "groups6 b = map (\<lambda>i. unat (u16_at b (2 * i))) [0..<8]"

definition string6 :: "bytes \<Rightarrow> string" where
  "string6 b =
     (let hs = map (format_uint 16) (groups6 b) in
      case zero_run (groups6 b) of
        None \<Rightarrow> str_Join '':'' hs
      | Some (zs, ze) \<Rightarrow> str_Join '':'' (take zs hs) @ ''::'' @ str_Join '':'' (drop ze hs))"

definition ip_String :: "bytes \<Rightarrow> string" where
  "ip_String ip =
     (if ip = [] then ''<nil>''
      else case ip_To4 ip of
        Some b \<Rightarrow> string4 b
      | None \<Rightarrow>
          if length ip = 16 then string6 ip
          else ''?'' @ concat (map (\<lambda>b. [digit_char (unat b div 16), digit_char (unat b mod 16)]) ip))"

subsection \<open>Hosts and ports\<close>

definition net_SplitHostPort :: "string \<Rightarrow> (string \<times> string) option" where
  "net_SplitHostPort hostport = do {
     i \<leftarrow> str_LastIndex hostport (CHR '':'');
     (host, j, k) \<leftarrow>
       (if hd hostport = CHR ''['' then do {
          end \<leftarrow> str_Index hostport '']'';
          if end + 1 = length hostport then None
          else if end + 1 = i then Some (take (end - 1) (drop 1 hostport), 1, end + 1)
          else None }
        else
          let host = take i hostport in
          if str_Contains host (CHR '':'') then None else Some (host, 0, 0));
     if str_Contains (drop j hostport) (CHR ''['') then None
     else if str_Contains (drop k hostport) (CHR '']'') then None
     else Some (host, drop (i + 1) hostport) }"

definition net_JoinHostPort :: "string \<Rightarrow> string \<Rightarrow> string" where
  "net_JoinHostPort host port =
     (if str_Contains host (CHR '':'') then ''['' @ host @ '']:'' @ port else host @ '':'' @ port)"

subsection \<open>Numbers, printed and parsed\<close>

lemma digit_char_hex:
  assumes "d < 16"
  shows "hex_value (digit_char d) = Some d" "digit_char d \<notin> set ''.:%[]''"
proof -
  have "list_all (\<lambda>d. hex_value (digit_char d) = Some d \<and> digit_char d \<notin> set ''.:%[]'') [0..<16]"
    by code_simp
  with assms show "hex_value (digit_char d) = Some d" "digit_char d \<notin> set ''.:%[]''"
    by (simp_all add: list_all_iff)
qed

lemma digit_char_dec: "d < 10 \<Longrightarrow> dec_value (digit_char d) = Some d"
proof -
  have "list_all (\<lambda>d. dec_value (digit_char d) = Some d) [0..<10]" by code_simp
  then show "d < 10 \<Longrightarrow> dec_value (digit_char d) = Some d" by (simp add: list_all_iff)
qed

lemma format_uint_nonempty [simp]: "format_uint base n \<noteq> []"
  by (subst format_uint.simps) simp

lemma format_uint_set:
  "2 \<le> base \<Longrightarrow> base \<le> 16 \<Longrightarrow> set (format_uint base n) \<subseteq> digit_char ` {..<base}"
proof (induction base n rule: format_uint.induct)
  case (1 base n)
  then show ?case by (subst format_uint.simps) auto
qed

lemma format_uint_clean:
  assumes "2 \<le> base" "base \<le> 16" "c \<in> set (format_uint base n)"
  shows "c \<notin> set ''.:%[]''" "is_hex c"
proof -
  obtain d where "d < base" "c = digit_char d" using format_uint_set [OF assms(1,2)] assms(3) by blast
  moreover then have "d < 16" using assms(2) by (simp only: order_less_le_trans)
  ultimately show "c \<notin> set ''.:%[]''" "is_hex c" by (simp_all only: is_hex_def digit_char_hex option.distinct not_False_eq_True)
qed

lemma format_uint_value:
  assumes "2 \<le> base" "\<And>d. d < base \<Longrightarrow> v (digit_char d) = d"
  shows "foldl (\<lambda>a c. a * base + v c) 0 (format_uint base n) = n"
  using assms
proof (induction base n rule: format_uint.induct)
  case (1 base n)
  show ?case
  proof (cases "n < base")
    case True
    with "1.prems" show ?thesis by (subst format_uint.simps) simp
  next
    case False
    with 1 show ?thesis by (subst format_uint.simps) simp
  qed
qed

lemma format_uint_length: "2 \<le> base \<Longrightarrow> n < base ^ Suc k \<Longrightarrow> length (format_uint base n) \<le> Suc k"
proof (induction k arbitrary: n)
  case 0
  then show ?case by (subst format_uint.simps) simp
next
  case (Suc k)
  have "n div base < base ^ Suc k" using Suc.prems by (simp add: less_mult_imp_div_less mult.commute)
  with Suc show ?case by (subst format_uint.simps) simp
qed

lemma parse_uint_loop_append:
  "parse_uint_loop m (s @ t) n = Option.bind (parse_uint_loop m s n) (parse_uint_loop m t)"
  by (induction s arbitrary: n) (simp_all split: Option.bind_split)

lemma parse_uint_Itoa: "n \<le> m \<Longrightarrow> parse_uint_loop m (Itoa n) 0 = Some n"
proof (induction "10::nat" n rule: format_uint.induct)
  case (1 n)
  show ?case
  proof (cases "n < 10")
    case True
    with 1 show ?thesis by (subst format_uint.simps) (simp add: digit_char_dec)
  next
    case False
    with 1 show ?thesis
      by (subst format_uint.simps) (simp add: digit_char_dec parse_uint_loop_append)
  qed
qed

lemma ParseUint16_Itoa [simp]: "ParseUint16 (Itoa (unat p)) = Some p"
proof -
  have "unat p \<le> 65535" using unsigned_less [of p, where ?'a = nat] by simp
  then show ?thesis by (simp add: ParseUint16_def parse_uint_Itoa)
qed

subsection \<open>IPv4 addresses, printed and parsed\<close>

lemma parseIPv4_loop_Itoa:
  "n \<le> 255 \<Longrightarrow> parseIPv4_loop (Itoa n @ s) start 0 0 f = parseIPv4_loop s False n (length (Itoa n)) f"
proof (induction "10::nat" n arbitrary: s rule: format_uint.induct)
  case (1 n)
  show ?case
  proof (cases "n < 10")
    case True
    with 1 show ?thesis by (subst (1 2) format_uint.simps) (simp add: digit_char_dec)
  next
    case False
    then have "n div 10 \<noteq> 0" by simp
    with False 1 show ?thesis
      by (subst (1 2) format_uint.simps) (simp add: digit_char_dec del: div_eq_0_iff)
  qed
qed

lemma dec_value_dot: "dec_value (CHR ''.'') = None"
  by code_simp

lemma parseIPv4_loop_dot:
  "s \<noteq> [] \<Longrightarrow> length f < 3 \<Longrightarrow> parseIPv4_loop (CHR ''.'' # s) False v l f = parseIPv4_loop s True 0 0 (f @ [word_of_nat v])"
  by (simp add: dec_value_dot)

lemma byte_le [simp]: "unat (b :: byte) \<le> 255"
  using unsigned_less [of b, where ?'a = nat] by simp

lemma length_4_obtain:
  assumes "length b = 4"
  obtains w x y z where "b = [w, x, y, z]"
  using assms by (auto simp: eval_nat_numeral length_Suc_conv)

lemma parseIPv4_string4 [simp]:
  assumes "length b = 4"
  shows "parseIPv4 (string4 b) = Some b"
proof -
  obtain w x y z where "b = [w, x, y, z]" using assms by (rule length_4_obtain)
  then show ?thesis
    using parseIPv4_loop_Itoa [OF byte_le, of z "[]"]
    by (simp add: parseIPv4_def string4_def parseIPv4_loop_Itoa parseIPv4_loop_dot del: parseIPv4_loop.simps(2))
qed

subsection \<open>IPv6 addresses, printed and parsed\<close>

declare parseIPv6_loop.simps(2) [simp del]

abbreviation hex_groups :: "16 word list \<Rightarrow> string list" where
  "hex_groups ws \<equiv> map (\<lambda>w. format_uint 16 (unat w)) ws"

abbreviation u16s :: "16 word list \<Rightarrow> bytes" where
  "u16s ws \<equiv> concat (map put_u16 ws)"

lemma hex_value_colon: "\<not> is_hex (CHR '':'')"
  by code_simp

lemma hex_group_take:
  "rest = [] \<or> \<not> is_hex (hd rest) \<Longrightarrow>
     takeWhile is_hex (format_uint 16 n @ rest) = format_uint 16 n"
  using format_uint_clean(2) [of 16 _ n] by (cases rest) (simp_all add: takeWhile_append2 takeWhile_tail)

lemma hex_number_format [simp]: "hex_number (format_uint 16 n) = n"
  unfolding hex_number_def using digit_char_hex(1)
  by (intro format_uint_value) simp_all

lemma length_hex_group: "length (format_uint 16 (unat (w :: 16 word))) \<le> 4"
  using format_uint_length [of 16 "unat w" 3] unsigned_less [of w, where ?'a = nat] by simp

lemma hex_group_hd: "hd (format_uint 16 n @ s) \<notin> set ''.:%[]''"
proof -
  have "hd (format_uint 16 n @ s) \<in> set (format_uint 16 n)" by simp
  then show ?thesis by (rule format_uint_clean(1) [rotated 2]) simp_all
qed

lemma parseIPv6_last:
  "parseIPv6_loop (Suc k) (format_uint 16 (unat w)) ip e = Some ([], ip @ put_u16 w, e)"
  using hex_group_take [of "[]" "unat w"] length_hex_group [of w]
  by (simp add: parseIPv6_loop.simps(2) Let_def del: takeWhile_eq_all_conv)

lemma parseIPv6_colon:
  assumes "s \<noteq> []" "hd s \<noteq> CHR '':''"
  shows "parseIPv6_loop (Suc k) (format_uint 16 (unat w) @ CHR '':'' # s) ip e = parseIPv6_loop k s (ip @ put_u16 w) e"
  using hex_group_take [of "CHR '':'' # s" "unat w"] length_hex_group [of w] assms
  by (simp add: parseIPv6_loop.simps(2) Let_def hex_value_colon)

lemma parseIPv6_ellipsis:
  "parseIPv6_loop (Suc k) (format_uint 16 (unat w) @ ''::'' @ s) ip None =
     (if s = [] then Some ([], ip @ put_u16 w, Some (length ip + 2))
      else parseIPv6_loop k s (ip @ put_u16 w) (Some (length ip + 2)))"
  using hex_group_take [of "''::'' @ s" "unat w"] length_hex_group [of w]
  by (simp add: parseIPv6_loop.simps(2) Let_def hex_value_colon)

lemma str_Join_Cons2: "str_Join sep (x # y # ys) = x @ sep @ str_Join sep (y # ys)"
  by simp

lemma str_Join_groups_hd: "hd (str_Join '':'' (hex_groups (w # ws)) @ s) \<notin> set ''.:%[]''"
  using hex_group_hd [of "unat w"] by simp

lemma parseIPv6_join:
  "ws \<noteq> [] \<Longrightarrow> length ws \<le> k \<Longrightarrow>
     parseIPv6_loop k (str_Join '':'' (hex_groups ws)) ip e = Some ([], ip @ u16s ws, e)"
proof (induction ws arbitrary: k ip)
  case (Cons w ws)
  then obtain k' where k: "k = Suc k'" by (cases k) auto
  show ?case
  proof (cases ws)
    case Nil
    then show ?thesis using k by (simp add: parseIPv6_last)
  next
    case (Cons v vs)
    have "hd (str_Join '':'' (hex_groups ws)) \<noteq> CHR '':''" "str_Join '':'' (hex_groups ws) \<noteq> []"
      using str_Join_groups_hd [of v vs "[]"] Cons by auto
    then have "parseIPv6_loop (Suc k') (format_uint 16 (unat w) @ CHR '':'' # str_Join '':'' (hex_groups ws)) ip e =
        parseIPv6_loop k' (str_Join '':'' (hex_groups ws)) (ip @ put_u16 w) e" by (rule parseIPv6_colon [rotated])
    moreover have "str_Join '':'' (hex_groups (w # ws)) = format_uint 16 (unat w) @ '':'' @ str_Join '':'' (hex_groups ws)"
      by (simp only: Cons list.map str_Join_Cons2)
    ultimately show ?thesis
      using Cons.IH [of k' "ip @ put_u16 w"] Cons.prems k Cons by simp
  qed
qed simp

lemma parseIPv6_join_ellipsis:
  "pre \<noteq> [] \<Longrightarrow> length pre + length suf \<le> k \<Longrightarrow>
     parseIPv6_loop k (str_Join '':'' (hex_groups pre) @ ''::'' @ str_Join '':'' (hex_groups suf)) ip None =
     Some ([], ip @ u16s pre @ u16s suf, Some (length ip + 2 * length pre))"
proof (induction pre arbitrary: k ip)
  case (Cons w ws)
  then obtain k' where k: "k = Suc k'" by (cases k) auto
  show ?case
  proof (cases ws)
    case Nil
    show ?thesis
    proof (cases suf)
      case suf: Nil
      show ?thesis using parseIPv6_ellipsis [of k' w "[]" ip] by (simp add: Nil suf k)
    next
      case (Cons v vs)
      have "str_Join '':'' (hex_groups suf) \<noteq> []" by (simp add: Cons)
      moreover have "length suf \<le> k'" using Cons.prems k by simp
      ultimately show ?thesis
        using parseIPv6_ellipsis [of k' w "str_Join '':'' (hex_groups suf)" ip]
          parseIPv6_join [of suf k' "ip @ put_u16 w" "Some (length ip + 2)"]
        by (simp add: Nil k Cons)
    qed
  next
    case (Cons v vs)
    let ?s = "str_Join '':'' (hex_groups ws) @ ''::'' @ str_Join '':'' (hex_groups suf)"
    have "hd ?s \<noteq> CHR '':''" "?s \<noteq> []"
      using str_Join_groups_hd [of v vs "''::'' @ str_Join '':'' (hex_groups suf)"] Cons by auto
    then have "parseIPv6_loop (Suc k') (format_uint 16 (unat w) @ CHR '':'' # ?s) ip None =
        parseIPv6_loop k' ?s (ip @ put_u16 w) None" by (rule parseIPv6_colon [rotated])
    moreover have "str_Join '':'' (hex_groups (w # ws)) = format_uint 16 (unat w) @ '':'' @ str_Join '':'' (hex_groups ws)"
      by (simp only: Cons list.map str_Join_Cons2)
    ultimately show ?thesis
      using Cons.IH [of k' "ip @ put_u16 w"] Cons.prems k Cons by simp
  qed
qed simp

text \<open>The run of zeros that is elided consists of zeros.\<close>

definition zero_span :: "nat list \<Rightarrow> (nat \<times> nat) option \<Rightarrow> bool" where
  "zero_span gs r =
     (case r of None \<Rightarrow> True
      | Some (zs, ze) \<Rightarrow> zs < ze \<and> ze \<le> length gs \<and> take (ze - zs) (drop zs gs) = replicate (ze - zs) 0)"

lemma takeWhile_zero: "takeWhile (\<lambda>x. x = 0) xs = replicate (length (takeWhile (\<lambda>x. x = 0) xs)) (0::nat)"
  by (induction xs) auto

lemma zero_run_from_span: "zero_span gs best \<Longrightarrow> gs' = drop i gs \<Longrightarrow> zero_span gs (zero_run_from best i gs')"
proof (induction gs' arbitrary: best i)
  case (Cons g gs')
  let ?l = "length (takeWhile (\<lambda>x. x = 0) (g # gs'))"
  have i: "i < length gs" using Cons.prems(2) by (metis drop_all list.simps(3) not_le)
  have l: "?l \<le> length gs - i" using length_takeWhile_le [of "\<lambda>x. x = 0" "g # gs'"] Cons.prems(2)
    by (metis length_drop)
  have "take ?l (drop i gs) = replicate ?l 0"
    using takeWhile_zero [of "g # gs'"] Cons.prems(2) by (metis takeWhile_eq_take)
  with i l have span: "?l \<ge> 2 \<Longrightarrow> zero_span gs (Some (i, i + ?l))"
    unfolding zero_span_def by (auto simp del: takeWhile.simps)
  have "gs' = drop (Suc i) gs" using Cons.prems(2) by (metis drop_Suc list.sel(3) tl_drop)
  with Cons.IH span Cons.prems(1) show ?case by (simp add: Let_def del: takeWhile.simps)
qed simp

lemma zero_run_split:
  fixes ws :: "16 word list"
  assumes "zero_run (map unat ws) = Some (zs, ze)"
  shows "zs < ze" "ze \<le> length ws" "ws = take zs ws @ replicate (ze - zs) 0 @ drop ze ws"
proof -
  have "zero_span (map unat ws) (Some (zs, ze))"
    using zero_run_from_span [of "map unat ws" None "map unat ws" 0] assms by (simp add: zero_run_def zero_span_def)
  then have b: "zs < ze" "ze \<le> length ws" and z: "take (ze - zs) (drop zs (map unat ws)) = replicate (ze - zs) 0"
    by (simp_all add: zero_span_def)
  then show "zs < ze" "ze \<le> length ws" by simp_all
  from z have "map unat (take (ze - zs) (drop zs ws)) = map unat (replicate (ze - zs) (0 :: 16 word))"
    by (simp add: take_map drop_map)
  then have "take (ze - zs) (drop zs ws) = replicate (ze - zs) 0"
    by (rule map_injective) (auto simp: inj_def word_unat_eq_iff)
  then show "ws = take zs ws @ replicate (ze - zs) 0 @ drop ze ws"
    using b by (metis append_take_drop_id drop_drop le_add_diff_inverse2 less_imp_le)
qed

lemma u16s_zero: "u16s (replicate n 0) = replicate (2 * n) 0"
  by (induction n) (simp_all add: put_u16_def)

lemma length_u16s [simp]: "length (u16s ws) = 2 * length ws"
  by (induction ws) simp_all

lemma length_16_obtain:
  assumes "length (b :: bytes) = 16"
  obtains ws where "length ws = 8" "groups6 b = map unat ws" "b = u16s ws"
proof -
  have two: "\<exists>a c t. (bs :: bytes) = a # c # t" if "2 \<le> length bs" for bs
    using that by (cases bs; cases "tl bs") auto
  have step: "\<exists>ws. length ws = n \<and> bs = u16s ws" if "length bs = 2 * n" for bs n
    using that
  proof (induction n arbitrary: bs)
    case (Suc n)
    then obtain a c t where bs: "bs = a # c # t" using two [of bs] by auto
    with Suc obtain ws where "length ws = n" "t = u16s ws" by fastforce
    then show ?case
      unfolding bs using put_get_u16 [of a c] by (intro exI [of _ "get_u16 a c # ws"]) simp
  qed simp
  obtain ws where ws: "length ws = 8" "b = u16s ws" using step [of b 8] assms by auto
  have "u16_at (u16s ws) (2 * i) = ws ! i" if "i < length ws" for i
    using that
  proof (induction ws arbitrary: i)
    case (Cons w ws)
    then show ?case
      using u16_at_append [of "put_u16 w" "u16s ws"] by (cases i) simp_all
  qed simp
  then have "groups6 b = map unat ws"
    using ws map_nth [of ws] by (intro nth_equalityI) (simp_all add: groups6_def)
  with ws that show thesis by blast
qed

lemma str_Join_groups_clean: "c \<in> set (str_Join '':'' (hex_groups ws)) \<Longrightarrow> c \<notin> set ''.%[]''"
proof (cases ws)
  case (Cons w vs)
  assume "c \<in> set (str_Join '':'' (hex_groups ws))"
  then have "c = CHR '':'' \<or> (\<exists>n. c \<in> set (format_uint 16 n))" using Cons by (auto split: if_splits)
  then show ?thesis using format_uint_clean(1) [of 16 c] by auto
qed simp

definition groups_text :: "16 word list \<Rightarrow> (nat \<times> nat) option \<Rightarrow> string" where
  "groups_text ws r =
     (case r of None \<Rightarrow> str_Join '':'' (hex_groups ws)
      | Some (zs, ze) \<Rightarrow>
          str_Join '':'' (hex_groups (take zs ws)) @ ''::'' @ str_Join '':'' (hex_groups (drop ze ws)))"

lemma string6_groups: "groups6 b = map unat ws \<Longrightarrow> string6 b = groups_text ws (zero_run (map unat ws))"
  by (simp add: string6_def groups_text_def take_map drop_map o_def split: option.splits prod.splits)

lemma groups_text_clean: "c \<in> set (groups_text ws r) \<Longrightarrow> c \<notin> set ''.%[]''"
  unfolding groups_text_def using str_Join_groups_clean [of c]
  by (auto split: option.splits prod.splits)

lemma ellipsis_prefix_hd: "str_HasPrefix s ''::'' \<Longrightarrow> hd s = CHR '':''"
  by (auto simp: str_HasPrefix_def prefix_def)

lemma not_ellipsis_prefix: "\<not> str_HasPrefix (str_Join '':'' (hex_groups (w # ws)) @ s) ''::''"
  using str_Join_groups_hd [of w ws s] ellipsis_prefix_hd by fastforce

lemma parseIPv6_unspecified: "parseIPv6 ''::'' = Some (Addr6 (replicate 16 0) [])"
  by code_simp

lemma parseIPv6_plain:
  assumes "CHR ''%'' \<notin> set t" "\<not> str_HasPrefix t ''::''" "parseIPv6_loop 8 t [] None = Some (s, ip, e)"
    "parseIPv6_finish s ip e = Some b"
  shows "parseIPv6 t = Some (Addr6 b [])"
  using assms by (simp add: parseIPv6_def str_Cut_none)

lemma parseIPv6_leading:
  assumes "CHR ''%'' \<notin> set t" "t \<noteq> []" "parseIPv6_loop 8 t [] (Some 0) = Some (s, ip, e)"
    "parseIPv6_finish s ip e = Some b"
  shows "parseIPv6 (''::'' @ t) = Some (Addr6 b [])"
proof -
  have "str_Cut (''::'' @ t) (CHR ''%'') = (''::'' @ t, [], False)" using assms(1) by (intro str_Cut_none) simp
  with assms(2-) show ?thesis by (simp add: parseIPv6_def str_HasPrefix_def)
qed

lemma parseIPv6_elided:
  assumes "length ws = 8" "zero_run (map unat ws) = Some (zs, ze)"
    and t: "t = str_Join '':'' (hex_groups (take zs ws)) @ ''::'' @ str_Join '':'' (hex_groups (drop ze ws))"
    and pc: "CHR ''%'' \<notin> set t"
  shows "parseIPv6 t = Some (Addr6 (u16s ws) [])"
proof -
  note split = zero_run_split [OF assms(2)]
  let ?pre = "take zs ws" and ?suf = "drop ze ws"
  have len: "length ?pre = zs" "length ?suf = 8 - ze" using split assms by simp_all
  have "u16s ws = u16s (?pre @ replicate (ze - zs) 0 @ ?suf)" using split(3) by (rule arg_cong)
  then have u: "u16s ws = u16s ?pre @ replicate (2 * (ze - zs)) 0 @ u16s ?suf"
    by (simp only: map_append concat_append u16s_zero)
  have l: "length (u16s ?pre) = 2 * zs" "length (u16s ?pre @ u16s ?suf) = 2 * zs + 2 * (8 - ze)"
    by (simp_all only: length_append length_u16s len)
  have "16 - (2 * zs + 2 * (8 - ze)) = 2 * (ze - zs)" "2 * zs + 2 * (8 - ze) < 16" using split(1,2) assms by linarith+
  then have fin: "parseIPv6_finish [] (u16s ?pre @ u16s ?suf) (Some (2 * zs)) = Some (u16s ws)"
    unfolding u parseIPv6_finish_def l using l(1) by simp
  consider "zs = 0" "?suf = []" | "zs = 0" "?suf \<noteq> []" | "?pre \<noteq> []" using len by fastforce
  then show ?thesis
  proof cases
    case 1
    then have "ze = 8" using split(2) assms by simp
    then have "u16s ws = replicate (2 * 8) 0" using u 1 by simp
    moreover have "t = ''::''" using t 1 by simp
    ultimately show ?thesis by (simp only: parseIPv6_unspecified) simp
  next
    case 2
    have "parseIPv6_loop 8 (str_Join '':'' (hex_groups ?suf)) [] (Some 0) = Some ([], u16s ?suf, Some 0)"
      using parseIPv6_join [of ?suf 8 "[]" "Some 0"] 2 len by simp
    moreover have "str_Join '':'' (hex_groups ?suf) \<noteq> []" using 2 by (cases ?suf) auto
    ultimately show ?thesis using parseIPv6_leading [of "str_Join '':'' (hex_groups ?suf)"] fin pc 2 t by simp
  next
    case 3
    then obtain w vs where "?pre = w # vs" by (cases ?pre) auto
    then have "\<not> str_HasPrefix t ''::''" unfolding t by (simp only: not_ellipsis_prefix not_False_eq_True)
    moreover have "parseIPv6_loop 8 t [] None = Some ([], u16s ?pre @ u16s ?suf, Some (2 * zs))"
      using parseIPv6_join_ellipsis [of ?pre ?suf 8 "[]"] 3 len split(1,2) assms(1) t by simp
    ultimately show ?thesis using fin pc by (intro parseIPv6_plain)
  qed
qed

lemma parseIPv6_groups:
  assumes "length ws = 8"
  shows "parseIPv6 (groups_text ws (zero_run (map unat ws))) = Some (Addr6 (u16s ws) [])"
proof -
  let ?t = "groups_text ws (zero_run (map unat ws))"
  have pc: "CHR ''%'' \<notin> set ?t" using groups_text_clean [of "CHR ''%''" ws] by auto
  show ?thesis
  proof (cases "zero_run (map unat ws)")
    case None
    obtain w vs where ws: "ws = w # vs" using assms by (cases ws) auto
    have "parseIPv6_loop 8 ?t [] None = Some ([], u16s ws, None)"
      using parseIPv6_join [of ws 8 "[]" None] ws assms None by (simp add: groups_text_def)
    moreover have "\<not> str_HasPrefix ?t ''::''"
      using not_ellipsis_prefix [of w vs "[]"] ws None by (simp add: groups_text_def)
    moreover have "parseIPv6_finish [] (u16s ws) None = Some (u16s ws)" using assms by (simp add: parseIPv6_finish_def)
    ultimately show ?thesis using pc by (intro parseIPv6_plain)
  next
    case (Some r)
    then show ?thesis using parseIPv6_elided [OF assms _ _ pc] by (cases r) (simp add: groups_text_def)
  qed
qed

subsection \<open>Textual addresses\<close>

lemma dropWhile_first: "(\<And>x. x \<in> set a \<Longrightarrow> P x) \<Longrightarrow> \<not> P c \<Longrightarrow> dropWhile P (a @ c # b) = c # b"
  by (simp add: dropWhile_append2)

lemma ParseAddr_string4 [simp]:
  assumes "length b = 4"
  shows "netip_ParseAddr (string4 b) = Some (Addr4 b)"
proof -
  obtain w x y z where b: "b = [w, x, y, z]" using assms by (rule length_4_obtain)
  have "string4 b = Itoa (unat w) @ CHR ''.'' # str_Join ''.'' (map (\<lambda>x. Itoa (unat x)) [x, y, z])"
    by (simp add: string4_def b)
  moreover have "c \<notin> set ''.:%''" if "c \<in> set (Itoa (unat w))" for c
    using format_uint_clean(1) [OF _ _ that] by simp
  ultimately have "\<exists>s. dropWhile (\<lambda>c. c \<notin> set ''.:%'') (string4 b) = CHR ''.'' # s"
    by (simp only:) (rule exI, rule dropWhile_first, simp_all)
  then show ?thesis using assms by (auto simp: netip_ParseAddr_def)
qed

lemma groups_text_colon:
  assumes "length ws = 8"
  shows "\<exists>a s. groups_text ws (zero_run (map unat ws)) = a @ CHR '':'' # s"
proof (cases "zero_run (map unat ws)")
  case None
  obtain w v vs where "ws = w # v # vs" using assms by (cases ws; cases "tl ws") auto
  then show ?thesis using None by (auto simp: groups_text_def)
next
  case (Some r)
  then show ?thesis by (cases r) (auto simp: groups_text_def)
qed

lemma ParseAddr_string6 [simp]:
  assumes "length b = 16"
  shows "netip_ParseAddr (string6 b) = Some (Addr6 b [])"
proof -
  obtain ws where ws: "length ws = 8" "groups6 b = map unat ws" "b = u16s ws" using length_16_obtain [OF assms] .
  let ?t = "groups_text ws (zero_run (map unat ws))"
  have "CHR '':'' \<in> set ?t" using groups_text_colon [OF ws(1)] by auto
  then have ne: "dropWhile (\<lambda>c. c \<notin> set ''.:%'') ?t \<noteq> []" by (auto simp: dropWhile_eq_Nil_conv)
  then have "hd (dropWhile (\<lambda>c. c \<notin> set ''.:%'') ?t) \<in> set ?t"
    by (meson hd_in_set set_dropWhileD)
  with hd_dropWhile [OF ne] groups_text_clean have "hd (dropWhile (\<lambda>c. c \<notin> set ''.:%'') ?t) = CHR '':''" by fastforce
  with ne obtain s where "dropWhile (\<lambda>c. c \<notin> set ''.:%'') ?t = CHR '':'' # s"
    by (cases "dropWhile (\<lambda>c. c \<notin> set ''.:%'') ?t") auto
  then show ?thesis
    unfolding netip_ParseAddr_def string6_groups [OF ws(2)] using parseIPv6_groups [OF ws(1)] by (simp add: ws(3))
qed

text \<open>What \<open>net.IP.String\<close> prints is parsed as the address itself, an IPv4-mapped one as IPv4.\<close>

lemma ParseAddr_String:
  "length ip = 4 \<or> length ip = 16 \<Longrightarrow> netip_ParseAddr (ip_String ip) = Some (netip_Unmap (AddrFromSlice ip))"
  by (auto simp: ip_String_def ip_To4_def AddrFromSlice_def)

lemma ParseIP_String:
  assumes "length ip = 16"
  shows "net_ParseIP (ip_String ip) = Some ip"
proof -
  have "v4in6Prefix @ drop 12 ip = ip" if "take 12 ip = v4in6Prefix"
    unfolding that [symmetric] by simp
  with assms show ?thesis by (simp add: net_ParseIP_def ParseAddr_String AddrFromSlice_def)
qed

lemma ParseIP_String4: "length ip = 4 \<Longrightarrow> net_ParseIP (ip_String ip) = Some (v4in6Prefix @ ip)"
  by (simp add: net_ParseIP_def ParseAddr_String AddrFromSlice_def)

lemma To4_mapped [simp]: "length ip = 4 \<Longrightarrow> ip_To4 (v4in6Prefix @ ip) = Some ip"
  by (simp add: ip_To4_def v4in6Prefix_def)

lemma To4_length: "ip_To4 ip = Some b \<Longrightarrow> length b = 4"
  by (auto simp: ip_To4_def split: if_splits)

subsection \<open>Parsed addresses have their size\<close>

lemma parseIPv4_loop_length: "length f \<le> 3 \<Longrightarrow> parseIPv4_loop s st v l f = Some b \<Longrightarrow> length b = 4"
proof (induction s arbitrary: st v l f)
  case (Cons c s)
  show ?case
    using Cons.prems Cons.IH [of f] Cons.IH [of "f @ [word_of_nat v]"] by (auto split: option.splits if_splits)
qed (auto split: if_splits)

lemma parseIPv4_length: "parseIPv4 s = Some b \<Longrightarrow> length b = 4"
  unfolding parseIPv4_def by (rule parseIPv4_loop_length) simp_all

lemma parseIPv6_loop_length:
  "length ip + 2 * k = 16 \<Longrightarrow> parseIPv6_loop k s ip e = Some (s', ip', e') \<Longrightarrow> case e of None \<Rightarrow> True | Some x \<Rightarrow> x \<le> length ip \<Longrightarrow>
     length ip' \<le> 16 \<and> (case e' of None \<Rightarrow> True | Some x \<Rightarrow> x \<le> length ip')"
proof (induction k arbitrary: s ip e)
  case (Suc k)
  let ?ds = "takeWhile is_hex s"
  let ?ip = "ip @ put_u16 (word_of_nat (hex_number ?ds))"
  note IH = Suc.IH [where ip = ?ip]
  show ?case
    using Suc.prems IH [of _ e] IH [of _ "Some (length ?ip)"]
    by (auto simp: parseIPv6_loop.simps(2) Let_def split: if_splits option.splits dest!: parseIPv4_length)
qed auto

lemma netip_ParseAddr_wf: "netip_ParseAddr s = Some a \<Longrightarrow> netip_wf a \<and> a \<noteq> NoAddr"
proof -
  have fin: "length b = 16" if "parseIPv6_finish s' ip e = Some b" "length ip \<le> 16"
      "case e of None \<Rightarrow> True | Some x \<Rightarrow> x \<le> length ip" for s' ip e b
    using that by (auto simp: parseIPv6_finish_def split: if_splits option.splits)
  have "netip_wf a \<and> a \<noteq> NoAddr" if p: "parseIPv6 s = Some a"
  proof -
    obtain t z f where "str_Cut s (CHR ''%'') = (t, z, f)" by (metis prod_cases3)
    with p show ?thesis
      using parseIPv6_loop_length [of "[]" 8 _ "Some 0"] parseIPv6_loop_length [of "[]" 8 _ None] fin
      by (fastforce simp: parseIPv6_def split: if_splits Option.bind_splits)
  qed
  then show "netip_ParseAddr s = Some a \<Longrightarrow> netip_wf a \<and> a \<noteq> NoAddr"
    by (auto simp: netip_ParseAddr_def split: list.splits if_splits dest: parseIPv4_length)
qed

lemma net_ParseIP_length: "net_ParseIP s = Some ip \<Longrightarrow> length ip = 16"
proof -
  have "length v4in6Prefix = 12" by (simp add: v4in6Prefix_def)
  then show "net_ParseIP s = Some ip \<Longrightarrow> length ip = 16"
    by (auto simp: net_ParseIP_def split: option.splits if_splits dest!: netip_ParseAddr_wf)
      (metis netip_As16.simps netip_addr.exhaust netip_wf.simps(2,3) length_append length_replicate
        numeral_plus_numeral add_num_simps)
qed

subsection \<open>Splitting what was joined\<close>

definition host_text :: "string \<Rightarrow> bool" where
  "host_text h \<longleftrightarrow> CHR ''['' \<notin> set h \<and> CHR '']'' \<notin> set h"

definition port_text :: "string \<Rightarrow> bool" where
  "port_text p \<longleftrightarrow> CHR '':'' \<notin> set p \<and> CHR ''['' \<notin> set p \<and> CHR '']'' \<notin> set p"

lemma str_Index_single: "c \<notin> set a \<Longrightarrow> str_Index (a @ c # b) [c] = Some (length a)"
  by (induction a) auto

lemma SplitHostPort_Join:
  assumes "host_text h" "port_text p"
  shows "net_SplitHostPort (net_JoinHostPort h p) = Some (h, p)"
proof (cases "CHR '':'' \<in> set h")
  case True
  have "str_LastIndex ((''['' @ h @ '']'') @ CHR '':'' # p) (CHR '':'') = Some (length (''['' @ h @ '']''))"
    using assms by (intro str_LastIndex_append) (simp add: port_text_def)
  moreover have "str_Index ((''['' @ h) @ CHR '']'' # '':'' @ p) '']'' = Some (length (''['' @ h))"
    using assms by (intro str_Index_single) (simp add: host_text_def)
  ultimately show ?thesis
    using assms True
    by (simp add: net_SplitHostPort_def net_JoinHostPort_def str_Contains_def host_text_def port_text_def)
next
  case False
  have "str_LastIndex (h @ CHR '':'' # p) (CHR '':'') = Some (length h)"
    using assms by (intro str_LastIndex_append) (simp add: port_text_def)
  moreover have "hd (h @ CHR '':'' # p) \<noteq> CHR ''[''"
    using assms by (cases h) (auto simp: host_text_def)
  ultimately show ?thesis
    using assms False
    by (simp add: net_SplitHostPort_def net_JoinHostPort_def str_Contains_def host_text_def port_text_def)
qed

lemma port_text_Itoa [simp]: "port_text (Itoa n)"
  using format_uint_clean(1) [of 10 _ n] by (fastforce simp: port_text_def)

end
