(* ===== verification/ByteBuffer.thy ===== *)
theory ByteBuffer
  imports Utf8
begin

section \<open>The pooled byte buffer\<close>

text \<open>
  Models \<open>pool/bytes/buffer.go\<close>. A slice is its backing array \<open>arr\<close> (from the slice's first
  element on, so its length is the capacity), the slice's length \<open>blen\<close>, and whether it is
  nil. Bytes of the array past the length stay observable, since \<open>Extend\<close> reslices over them.
  The growth of an appended slice is rounded up to a size class of the Go run time, which
  the argument \<open>sc\<close> stands for; what the code relies on is \<open>c <= sc c\<close>. Counts are \<open>int\<close>, so
  that negative arguments are visible. The abstraction is \<open>unread\<close>, the bytes a reader will see.
\<close>

record Buffer =
  arr :: bytes
  blen :: nat
  off :: nat
  lastRead :: int
  isNil :: bool

definition opRead :: int where "opRead = -1"
definition opInvalid :: int where "opInvalid = 0"
definition opReadRune1 :: int where "opReadRune1 = 1"
definition smallBufferSize :: int where "smallBufferSize = 64"
definition maxInt :: int where "maxInt = 2 ^ 63 - 1"
definition MinRead :: int where "MinRead = 512"

definition NewBuffer :: "bytes \<Rightarrow> nat \<Rightarrow> bool \<Rightarrow> Buffer" where
  "NewBuffer a n nilp = \<lparr>arr = a, blen = n, off = 0, lastRead = opInvalid, isNil = nilp\<rparr>"

definition NewBufferString :: "bytes \<Rightarrow> Buffer" where
  "NewBufferString s = \<lparr>arr = s, blen = length s, off = 0, lastRead = opInvalid, isNil = False\<rparr>"

definition buf_Len :: "Buffer \<Rightarrow> int" where
  "buf_Len b = int (blen b) - int (off b)"

definition buf_Cap :: "Buffer \<Rightarrow> nat" where
  "buf_Cap b = length (arr b)"

definition buf_Available :: "Buffer \<Rightarrow> int" where
  "buf_Available b = int (length (arr b)) - int (blen b)"

definition buf_empty :: "Buffer \<Rightarrow> bool" where
  "buf_empty b \<longleftrightarrow> blen b \<le> off b"

definition buf_Empty :: "Buffer \<Rightarrow> bool" where
  "buf_Empty b \<longleftrightarrow> buf_Len b = 0"

text \<open>\<open>b.buf[b.off:]\<close>: the unread bytes; the slice expression panics when \<open>off > len\<close>.\<close>

definition buf_Bytes :: "Buffer \<Rightarrow> bytes option" where
  "buf_Bytes b = go_slice (take (blen b) (arr b)) (off b) (blen b)"

definition buf_Reset :: "Buffer \<Rightarrow> Buffer" where
  "buf_Reset b = b\<lparr>blen := 0, off := 0, lastRead := opInvalid\<rparr>"

definition buf_Truncate :: "Buffer \<Rightarrow> int \<Rightarrow> Buffer option" where
  "buf_Truncate b n =
     (if n = 0 then Some (buf_Reset b)
      else
        let b1 = b\<lparr>lastRead := opInvalid\<rparr> in
        if n < 0 \<or> n > buf_Len b1 then None
        else Some (b1\<lparr>blen := off b1 + nat n\<rparr>))"

text \<open>
  Returns the index to write at when the reslice succeeds. Reslicing to a negative length
  panics.
\<close>

definition buf_tryGrowByReslice :: "Buffer \<Rightarrow> int \<Rightarrow> (nat option \<times> Buffer) option" where
  "buf_tryGrowByReslice b n =
     (let l = blen b in
      if n \<le> int (length (arr b)) - int l then
        if int l + n < 0 then None else Some (Some l, b\<lparr>blen := nat (int l + n)\<rparr>)
      else Some (None, b))"

text \<open>\<open>growSlice\<close> on a slice with contents \<open>s\<close> and capacity \<open>cap\<close>: the new array.\<close>

definition growSlice :: "(nat \<Rightarrow> nat) \<Rightarrow> bytes \<Rightarrow> nat \<Rightarrow> nat \<Rightarrow> bytes" where
  "growSlice sc s cap n =
     (let c = length s + n;
          c' = (if c < 2 * cap then 2 * cap else c) in
      go_copy (replicate (sc c') 0) s)"

text \<open>
  The slow path of \<open>grow\<close>, after the reslice has failed, \<open>m\<close> being the unread length: a first
  small allocation, sliding the unread bytes down, or a new array.
\<close>

definition buf_growAlloc :: "(nat \<Rightarrow> nat) \<Rightarrow> Buffer \<Rightarrow> int \<Rightarrow> int \<Rightarrow> (nat \<times> Buffer) option" where
  "buf_growAlloc sc b m n =
     (if isNil b \<and> n \<le> smallBufferSize then
        Some (0, b\<lparr>arr := replicate (nat smallBufferSize) 0, blen := nat n, isNil := False\<rparr>)
      else
        let c = int (length (arr b)) in
        do {
          src \<leftarrow> buf_Bytes b;
          b1 \<leftarrow> (if n \<le> c div 2 - m then
                   Some (b\<lparr>arr := go_copy (take (blen b) (arr b)) src @ drop (blen b) (arr b)\<rparr>)
                 else if c > maxInt - c - n then None
                 else
                   Some (b\<lparr>arr := growSlice sc src (length (arr b) - off b) (off b + nat n),
                            isNil := False\<rparr>));
          if 0 \<le> m + n \<and> m + n \<le> int (length (arr b1))
          then Some (nat m, b1\<lparr>off := 0, blen := nat (m + n)\<rparr>)
          else None })"

definition buf_grow :: "(nat \<Rightarrow> nat) \<Rightarrow> Buffer \<Rightarrow> int \<Rightarrow> (nat \<times> Buffer) option" where
  "buf_grow sc b n =
     (let m = buf_Len b;
          b1 = (if m = 0 \<and> off b \<noteq> 0 then buf_Reset b else b) in
      do {
        (i, b2) \<leftarrow> buf_tryGrowByReslice b1 n;
        case i of Some k \<Rightarrow> Some (k, b2) | None \<Rightarrow> buf_growAlloc sc b2 m n })"

definition buf_Grow :: "(nat \<Rightarrow> nat) \<Rightarrow> Buffer \<Rightarrow> int \<Rightarrow> Buffer option" where
  "buf_Grow sc b n =
     (if n < 0 then None
      else do {
        (m, b1) \<leftarrow> buf_grow sc b n;
        Some (b1\<lparr>blen := m\<rparr>) })"

text \<open>\<open>extend\<close>, the common start of every write: forget the last read, make room.\<close>

definition buf_extend :: "(nat \<Rightarrow> nat) \<Rightarrow> Buffer \<Rightarrow> int \<Rightarrow> (nat \<times> Buffer) option" where
  "buf_extend sc b n = do {
     (i, b1) \<leftarrow> buf_tryGrowByReslice (b\<lparr>lastRead := opInvalid\<rparr>) n;
     case i of Some m \<Rightarrow> Some (m, b1) | None \<Rightarrow> buf_grow sc b1 n }"

definition buf_Extend :: "(nat \<Rightarrow> nat) \<Rightarrow> Buffer \<Rightarrow> int \<Rightarrow> Buffer option" where
  "buf_Extend sc b n = map_option snd (buf_extend sc b n)"

text \<open>\<open>copy(b.buf[m:], p)\<close>.\<close>

definition buf_copyAt :: "Buffer \<Rightarrow> nat \<Rightarrow> bytes \<Rightarrow> (nat \<times> Buffer) option" where
  "buf_copyAt b m p =
     (if m \<le> blen b then
        Some (min (blen b - m) (length p),
              b\<lparr>arr := take m (arr b) @ go_copy (drop m (take (blen b) (arr b))) p @
                       drop (blen b) (arr b)\<rparr>)
      else None)"

definition buf_Write :: "(nat \<Rightarrow> nat) \<Rightarrow> Buffer \<Rightarrow> bytes \<Rightarrow> (nat \<times> Buffer) option" where
  "buf_Write sc b p = do {
     (m, b1) \<leftarrow> buf_extend sc b (int (length p));
     buf_copyAt b1 m p }"

definition buf_WriteString :: "(nat \<Rightarrow> nat) \<Rightarrow> Buffer \<Rightarrow> bytes \<Rightarrow> (nat \<times> Buffer) option" where
  "buf_WriteString sc b s = do {
     (m, b1) \<leftarrow> buf_extend sc b (int (length s));
     buf_copyAt b1 m s }"

definition buf_WriteByte :: "(nat \<Rightarrow> nat) \<Rightarrow> Buffer \<Rightarrow> byte \<Rightarrow> Buffer option" where
  "buf_WriteByte sc b c = do {
     (m, b1) \<leftarrow> buf_extend sc b 1;
     if m < blen b1 then Some (b1\<lparr>arr := (arr b1)[m := c]\<rparr>) else None }"

subsection \<open>Reading\<close>

text \<open>
  \<open>Read(p)\<close> with \<open>len p = k\<close>: the error, the bytes copied into \<open>p\<close> (their number is the
  returned count) and the buffer.
\<close>

definition buf_Read :: "Buffer \<Rightarrow> nat \<Rightarrow> (go_error option \<times> bytes \<times> Buffer) option" where
  "buf_Read b k =
     (let b1 = b\<lparr>lastRead := opInvalid\<rparr> in
      if buf_empty b1 then
        let b2 = buf_Reset b1 in
        if k = 0 then Some (None, [], b2) else Some (Some EOF, [], b2)
      else do {
        src \<leftarrow> buf_Bytes b1;
        let n = min k (length src);
        let b2 = b1\<lparr>off := off b1 + n\<rparr>;
        Some (None, take n src, if n > 0 then b2\<lparr>lastRead := opRead\<rparr> else b2) })"

definition buf_Next :: "Buffer \<Rightarrow> int \<Rightarrow> (bytes \<times> Buffer) option" where
  "buf_Next b n0 =
     (let b1 = b\<lparr>lastRead := opInvalid\<rparr>;
          m = buf_Len b1;
          n = (if n0 > m then m else n0) in
      if n < 0 then None
      else do {
        data \<leftarrow> go_slice (take (blen b1) (arr b1)) (off b1) (off b1 + nat n);
        let b2 = b1\<lparr>off := off b1 + nat n\<rparr>;
        Some (data, if n > 0 then b2\<lparr>lastRead := opRead\<rparr> else b2) })"

definition buf_ReadByte :: "Buffer \<Rightarrow> ((go_error + byte) \<times> Buffer) option" where
  "buf_ReadByte b =
     (if buf_empty b then Some (Inl EOF, buf_Reset b)
      else do {
        c \<leftarrow> go_index (take (blen b) (arr b)) (off b);
        Some (Inr c, b\<lparr>off := off b + 1, lastRead := opRead\<rparr>) })"

definition buf_UnreadByte :: "Buffer \<Rightarrow> go_error option \<times> Buffer" where
  "buf_UnreadByte b =
     (if lastRead b = opInvalid then
        (Some (Err ''bytes.Buffer: UnreadByte: previous operation was not a successful read''), b)
      else
        let b1 = b\<lparr>lastRead := opInvalid\<rparr> in
        (None, if off b1 > 0 then b1\<lparr>off := off b1 - 1\<rparr> else b1))"

definition buf_UnreadRune :: "Buffer \<Rightarrow> go_error option \<times> Buffer" where
  "buf_UnreadRune b =
     (if lastRead b \<le> opInvalid then
        (Some (Err ''bytes.Buffer: UnreadRune: previous operation was not a successful ReadRune''), b)
      else
        let b1 = (if int (off b) \<ge> lastRead b then b\<lparr>off := nat (int (off b) - lastRead b)\<rparr> else b) in
        (None, b1\<lparr>lastRead := opInvalid\<rparr>))"

text \<open>\<open>bytes.IndexByte\<close>: the first position of \<open>c\<close>, none when it does not occur.\<close>

fun IndexByte :: "bytes \<Rightarrow> byte \<Rightarrow> nat option" where
  "IndexByte [] c = None"
| "IndexByte (x # xs) c = (if x = c then Some 0 else map_option Suc (IndexByte xs c))"

definition buf_readSlice :: "Buffer \<Rightarrow> byte \<Rightarrow> (bytes \<times> go_error option \<times> Buffer) option" where
  "buf_readSlice b delim = do {
     src \<leftarrow> buf_Bytes b;
     let (end, err) = (case IndexByte src delim of
           Some i \<Rightarrow> (off b + i + 1, None)
         | None \<Rightarrow> (blen b, Some EOF));
     line \<leftarrow> go_slice (take (blen b) (arr b)) (off b) end;
     Some (line, err, b\<lparr>off := end, lastRead := opRead\<rparr>) }"

definition buf_ReadBytes :: "Buffer \<Rightarrow> byte \<Rightarrow> (bytes \<times> go_error option \<times> Buffer) option" where
  "buf_ReadBytes b delim = buf_readSlice b delim"

definition buf_ReadString :: "Buffer \<Rightarrow> byte \<Rightarrow> (bytes \<times> go_error option \<times> Buffer) option" where
  "buf_ReadString b delim = buf_readSlice b delim"

subsection \<open>Runes\<close>

definition buf_WriteRune :: "(nat \<Rightarrow> nat) \<Rightarrow> Buffer \<Rightarrow> 32 word \<Rightarrow> (nat \<times> Buffer) option" where
  "buf_WriteRune sc b r =
     (if r < 0x80 then do {
        b1 \<leftarrow> buf_WriteByte sc b (ucast r);
        Some (1, b1) }
      else do {
        (m, b1) \<leftarrow> buf_extend sc b 4;
        let enc = utf8_AppendRune r;
        if m + length enc \<le> length (arr b1)
        then Some (length enc,
               b1\<lparr>arr := take m (arr b1) @ go_copy (drop m (arr b1)) enc, blen := m + length enc\<rparr>)
        else None })"

definition buf_ReadRune :: "Buffer \<Rightarrow> ((go_error + 32 word \<times> nat) \<times> Buffer) option" where
  "buf_ReadRune b =
     (if buf_empty b then Some (Inl EOF, buf_Reset b)
      else do {
        c \<leftarrow> go_index (take (blen b) (arr b)) (off b);
        if c < 0x80 then Some (Inr (ucast c, 1), b\<lparr>off := off b + 1, lastRead := opReadRune1\<rparr>)
        else do {
          src \<leftarrow> buf_Bytes b;
          let (r, n) = utf8_DecodeRune src;
          Some (Inr (r, n), b\<lparr>off := off b + n, lastRead := int n\<rparr>) } })"

subsection \<open>Readers and writers\<close>

text \<open>
  An \<open>io.Reader\<close> is a function from its state and the length of the slice it is given to the
  count and the error it returns, the bytes it stores at the front of the slice, and its new
  state; an \<open>io.Writer\<close> maps the bytes to a count, which is not negative, and an error. The loop of \<open>ReadFrom\<close> may
  never end, for a reader that always returns \<open>(0, nil)\<close>, say.
\<close>

type_synonym 's reader = "'s \<Rightarrow> nat \<Rightarrow> int \<times> go_error option \<times> bytes \<times> 's"
type_synonym writer = "bytes \<Rightarrow> int \<times> go_error option"

definition buf_readInto ::
    "(nat \<Rightarrow> nat) \<Rightarrow> 's reader \<Rightarrow> 's \<Rightarrow> Buffer \<Rightarrow> (int \<times> go_error option \<times> 's \<times> Buffer) option" where
  "buf_readInto sc rd s b = do {
     (i, b1) \<leftarrow> buf_grow sc b MinRead;
     let (m, e, data, s') = rd s (length (arr b1) - i);
     let b2 = b1\<lparr>blen := i, arr := take i (arr b1) @ go_copy (drop i (arr b1)) data\<rparr>;
     if m < 0 then None
     else if int i + m > int (length (arr b2)) then None
     else Some (m, e, s', b2\<lparr>blen := i + nat m\<rparr>) }"

partial_function (option) buf_readLoop ::
    "(nat \<Rightarrow> nat) \<Rightarrow> 's reader \<Rightarrow> 's \<Rightarrow> int \<Rightarrow> Buffer \<Rightarrow> (int \<times> go_error option \<times> 's \<times> Buffer) option" where
  "buf_readLoop sc rd s n b = Option.bind (buf_readInto sc rd s b) (\<lambda>(m, e, s', b').
     if e = Some EOF then Some (n + m, None, s', b')
     else if e \<noteq> None then Some (n + m, e, s', b')
     else buf_readLoop sc rd s' (n + m) b')"

definition buf_ReadFrom ::
    "(nat \<Rightarrow> nat) \<Rightarrow> 's reader \<Rightarrow> 's \<Rightarrow> Buffer \<Rightarrow> (int \<times> go_error option \<times> 's \<times> Buffer) option" where
  "buf_ReadFrom sc rd s b = buf_readLoop sc rd s 0 (b\<lparr>lastRead := opInvalid\<rparr>)"

definition buf_ReadFromOnce ::
    "(nat \<Rightarrow> nat) \<Rightarrow> 's reader \<Rightarrow> 's \<Rightarrow> Buffer \<Rightarrow> (int \<times> go_error option \<times> 's \<times> Buffer) option" where
  "buf_ReadFromOnce sc rd s b = do {
     (m, e, s', b') \<leftarrow> buf_readInto sc rd s (b\<lparr>lastRead := opInvalid\<rparr>);
     Some (m, if e = Some EOF then None else e, s', b') }"

definition buf_WriteTo :: "writer \<Rightarrow> Buffer \<Rightarrow> (int \<times> go_error option \<times> Buffer) option" where
  "buf_WriteTo w b =
     (let b1 = b\<lparr>lastRead := opInvalid\<rparr>; nBytes = buf_Len b1 in
      if nBytes > 0 then do {
        src \<leftarrow> buf_Bytes b1;
        let (m, e) = w src;
        if m > nBytes then None
        else
          let b2 = b1\<lparr>off := nat (int (off b1) + m)\<rparr> in
          if e \<noteq> None then Some (m, e, b2)
          else if m \<noteq> nBytes then Some (m, Some ErrShortWrite, b2)
          else Some (m, None, buf_Reset b2) }
      else Some (0, None, buf_Reset b1))"

subsection \<open>Invariant and abstraction\<close>

definition buf_inv :: "Buffer \<Rightarrow> bool" where
  "buf_inv b \<longleftrightarrow>
     off b \<le> blen b \<and> blen b \<le> length (arr b) \<and> (isNil b \<longrightarrow> arr b = []) \<and>
     -1 \<le> lastRead b \<and> lastRead b \<le> 4"

definition unread :: "Buffer \<Rightarrow> bytes" where
  "unread b = drop (off b) (take (blen b) (arr b))"

text \<open>Room for \<open>n\<close> more bytes without the overflow check of \<open>grow\<close> firing.\<close>

definition buf_fits :: "Buffer \<Rightarrow> nat \<Rightarrow> bool" where
  "buf_fits b n \<longleftrightarrow> 2 * int (length (arr b)) + int n \<le> maxInt"

lemma length_unread: "buf_inv b \<Longrightarrow> length (unread b) = blen b - off b"
  by (simp add: unread_def buf_inv_def)

lemma buf_Bytes_unread: "buf_inv b \<Longrightarrow> buf_Bytes b = Some (unread b)"
  by (simp add: buf_Bytes_def go_slice_def unread_def buf_inv_def)

lemma buf_Len_unread: "buf_inv b \<Longrightarrow> buf_Len b = int (length (unread b))"
  by (simp add: buf_Len_def length_unread buf_inv_def)

lemma buf_Reset_inv: "buf_inv b \<Longrightarrow> buf_inv (buf_Reset b) \<and> unread (buf_Reset b) = []"
  by (simp add: buf_inv_def buf_Reset_def unread_def opInvalid_def)

subsection \<open>Growing\<close>

text \<open>
  \<open>buf_room b n m b'\<close>: \<open>b'\<close> holds the unread bytes of \<open>b\<close> up to index \<open>m\<close>, followed by \<open>n\<close>
  bytes to be written.
\<close>

definition buf_room :: "Buffer \<Rightarrow> nat \<Rightarrow> nat \<Rightarrow> Buffer \<Rightarrow> bool" where
  "buf_room b n m b' \<longleftrightarrow>
     buf_inv b' \<and> blen b' = m + n \<and> off b' \<le> m \<and> drop (off b') (take m (arr b')) = unread b"

definition sc_ok :: "(nat \<Rightarrow> nat) \<Rightarrow> bool" where
  "sc_ok sc \<longleftrightarrow> (\<forall>c. c \<le> sc c)"

lemma buf_tryGrow_eq:
  assumes "buf_inv b"
  shows "buf_tryGrowByReslice b (int n) =
    (if blen b + n \<le> length (arr b) then Some (Some (blen b), b\<lparr>blen := blen b + n\<rparr>)
     else Some (None, b))"
  using assms by (auto simp: buf_tryGrowByReslice_def buf_inv_def Let_def nat_add_distrib)

lemma buf_room_reslice:
  assumes "buf_inv b" "blen b + n \<le> length (arr b)"
  shows "buf_room b n (blen b) (b\<lparr>blen := blen b + n\<rparr>)"
  using assms by (simp add: buf_room_def buf_inv_def unread_def)

lemma drop_take_self: "drop 0 (take m (xs @ ys)) = xs" if "m = length xs"
  using that by simp

lemma buf_slide_ok:
  assumes "buf_inv b" "length (unread b) + n \<le> length (arr b)"
  shows "buf_room b n (length (unread b))
    (b\<lparr>arr := go_copy (take (blen b) (arr b)) (unread b) @ drop (blen b) (arr b),
       off := 0, blen := length (unread b) + n\<rparr>)"
proof -
  have len: "length (unread b) \<le> blen b" "blen b \<le> length (arr b)"
    using assms(1) by (simp_all add: length_unread buf_inv_def)
  then have "go_copy (take (blen b) (arr b)) (unread b) =
      unread b @ drop (length (unread b)) (take (blen b) (arr b))"
    by (intro go_copy_fits) simp
  with assms len show ?thesis
    by (auto simp: buf_room_def buf_inv_def)
qed

lemma buf_realloc_ok:
  assumes "buf_inv b" "sc_ok sc"
  shows "buf_room b n (length (unread b))
    (b\<lparr>arr := growSlice sc (unread b) (length (arr b) - off b) (off b + n), isNil := False,
       off := 0, blen := length (unread b) + n\<rparr>)"
proof -
  let ?c = "length (unread b) + (off b + n)"
  let ?c' = "if ?c < 2 * (length (arr b) - off b) then 2 * (length (arr b) - off b) else ?c"
  have "?c \<le> ?c'" by simp
  also have "?c' \<le> sc ?c'" using assms(2) by (simp only: sc_ok_def)
  finally have le: "?c \<le> sc ?c'" .
  then have "go_copy (replicate (sc ?c') 0) (unread b) =
      unread b @ drop (length (unread b)) (replicate (sc ?c') 0)"
    by (intro go_copy_fits) simp
  then have "growSlice sc (unread b) (length (arr b) - off b) (off b + n) =
      unread b @ replicate (sc ?c' - length (unread b)) 0"
    by (simp only: growSlice_def Let_def drop_replicate)
  with le assms(1) show ?thesis
    by (simp add: buf_room_def buf_inv_def)
qed

lemma buf_growAlloc_ok:
  assumes inv: "buf_inv b" and fits: "buf_fits b n" and sc: "sc_ok sc"
    and full: "length (arr b) < blen b + n"
  shows "\<exists>m b'. buf_growAlloc sc b (int (length (unread b))) (int n) = Some (m, b') \<and>
    buf_room b n m b' \<and> lastRead b' = lastRead b"
proof (cases "isNil b \<and> int n \<le> smallBufferSize")
  case True
  then show ?thesis
    using inv by (auto simp: buf_growAlloc_def buf_room_def buf_inv_def unread_def smallBufferSize_def)
next
  case False
  define slide where "slide = (int n \<le> int (length (arr b)) div 2 - int (length (unread b)))"
  define b1 where "b1 =
    (if slide then b\<lparr>arr := go_copy (take (blen b) (arr b)) (unread b) @ drop (blen b) (arr b)\<rparr>
     else b\<lparr>arr := growSlice sc (unread b) (length (arr b) - off b) (off b + n), isNil := False\<rparr>)"
  have room: "buf_room b n (length (unread b)) (b1\<lparr>off := 0, blen := length (unread b) + n\<rparr>)"
  proof (cases slide)
    case True
    then have "length (unread b) + n \<le> length (arr b)" by (auto simp: slide_def)
    from buf_slide_ok [OF inv this] True show ?thesis by (simp add: b1_def)
  next
    case False
    with buf_realloc_ok [OF inv sc, of n] show ?thesis by (simp add: b1_def)
  qed
  then have "length (unread b) + n \<le> length (arr b1)" by (simp add: buf_room_def buf_inv_def)
  moreover have "\<not> int (length (arr b)) > maxInt - int (length (arr b)) - int n"
    using fits by (simp add: buf_fits_def)
  ultimately have "buf_growAlloc sc b (int (length (unread b))) (int n) =
      Some (length (unread b), b1\<lparr>off := 0, blen := length (unread b) + n\<rparr>)"
    using False buf_Bytes_unread [OF inv]
    by (cases slide) (auto simp: buf_growAlloc_def slide_def b1_def Let_def nat_add_distrib)
  with room show ?thesis by (auto simp: b1_def)
qed

lemma buf_grow_ok:
  assumes inv: "buf_inv b" and fits: "buf_fits b n" and sc: "sc_ok sc"
  shows "\<exists>m b'. buf_grow sc b (int n) = Some (m, b') \<and> buf_room b n m b' \<and>
    (lastRead b' = lastRead b \<or> lastRead b' = opInvalid)"
proof -
  define b1 where "b1 = (if buf_Len b = 0 \<and> off b \<noteq> 0 then buf_Reset b else b)"
  have b1: "buf_inv b1" "unread b1 = unread b" "arr b1 = arr b"
      "lastRead b1 = lastRead b \<or> lastRead b1 = opInvalid"
    using inv buf_Reset_inv [OF inv] buf_Len_unread [OF inv]
    by (auto simp: b1_def) (auto simp: buf_Reset_def)
  have room: "buf_room b n m x" if "buf_room b1 n m x" for m x
    using that b1(2) by (simp add: buf_room_def)
  have m: "buf_Len b = int (length (unread b1))" using buf_Len_unread [OF inv] b1(2) by simp
  have eq: "buf_grow sc b (int n) = do {
      (i, b2) \<leftarrow> buf_tryGrowByReslice b1 (int n);
      case i of Some k \<Rightarrow> Some (k, b2)
      | None \<Rightarrow> buf_growAlloc sc b2 (int (length (unread b1))) (int n) }"
    by (simp only: buf_grow_def Let_def flip: b1_def m)
  show ?thesis
  proof (cases "blen b1 + n \<le> length (arr b1)")
    case True
    with room [OF buf_room_reslice [OF b1(1) True]] b1(4) show ?thesis
      unfolding eq buf_tryGrow_eq [OF b1(1)] by simp
  next
    case False
    have "buf_fits b1 n" using fits b1(3) by (simp add: buf_fits_def)
    with buf_growAlloc_ok [OF b1(1) _ sc, of n] False obtain k b' where
      "buf_growAlloc sc b1 (int (length (unread b1))) (int n) = Some (k, b')"
      "buf_room b1 n k b'" "lastRead b' = lastRead b1" by auto
    with room [of k b'] b1(4) False show ?thesis
      unfolding eq buf_tryGrow_eq [OF b1(1)] by simp
  qed
qed

lemma buf_extend_ok:
  assumes inv: "buf_inv b" and fits: "buf_fits b n" and sc: "sc_ok sc"
  shows "\<exists>m b'. buf_extend sc b (int n) = Some (m, b') \<and> buf_room b n m b' \<and>
    lastRead b' = opInvalid"
proof -
  let ?b = "b\<lparr>lastRead := opInvalid\<rparr>"
  have b: "buf_inv ?b" "unread ?b = unread b" "buf_fits ?b n"
    using inv fits by (simp_all add: buf_inv_def unread_def buf_fits_def opInvalid_def)
  have room: "buf_room b n m x" if "buf_room ?b n m x" for m x
    using that b(2) by (simp add: buf_room_def)
  show ?thesis
  proof (cases "blen ?b + n \<le> length (arr ?b)")
    case True
    with room [OF buf_room_reslice [OF b(1) True]] show ?thesis
      unfolding buf_extend_def buf_tryGrow_eq [OF b(1)] by simp
  next
    case False
    with buf_grow_ok [OF b(1,3) sc] room show ?thesis
      unfolding buf_extend_def buf_tryGrow_eq [OF b(1)] by fastforce
  qed
qed

subsection \<open>Writing appends, reading consumes\<close>

lemma buf_copyAt_ok:
  assumes "buf_room b (length p) m b1"
  shows "\<exists>b'. buf_copyAt b1 m p = Some (length p, b') \<and> buf_inv b' \<and>
    unread b' = unread b @ p \<and> lastRead b' = lastRead b1"
proof -
  from assms have r: "buf_inv b1" "blen b1 = m + length p" "off b1 \<le> m" "m + length p \<le> length (arr b1)"
      "drop (off b1) (take m (arr b1)) = unread b"
    by (simp_all add: buf_room_def buf_inv_def)
  have "go_copy (drop m (take (m + length p) (arr b1))) p = p"
    using r(4) go_copy_fits [of p "drop m (take (m + length p) (arr b1))"] by simp
  with r show ?thesis
    by (auto simp: buf_copyAt_def buf_inv_def unread_def [of "b1\<lparr>arr := _\<rparr>"])
qed

lemma buf_Write_ok:
  assumes "buf_inv b" "buf_fits b (length p)" "sc_ok sc"
  shows "\<exists>b'. buf_Write sc b p = Some (length p, b') \<and> buf_inv b' \<and>
    unread b' = unread b @ p \<and> lastRead b' = opInvalid"
proof -
  obtain m b1 where e: "buf_extend sc b (int (length p)) = Some (m, b1)" "buf_room b (length p) m b1"
      "lastRead b1 = opInvalid"
    using buf_extend_ok [OF assms] by blast
  with buf_copyAt_ok [OF e(2)] show ?thesis by (auto simp: buf_Write_def)
qed

lemma buf_WriteByte_ok:
  assumes "buf_inv b" "buf_fits b 1" "sc_ok sc"
  shows "\<exists>b'. buf_WriteByte sc b c = Some b' \<and> buf_inv b' \<and>
    unread b' = unread b @ [c] \<and> lastRead b' = opInvalid"
proof -
  obtain m b1 where e: "buf_extend sc b 1 = Some (m, b1)" "buf_room b 1 m b1" "lastRead b1 = opInvalid"
    using buf_extend_ok [OF assms] by auto
  from e(2) have r: "buf_inv b1" "blen b1 = m + 1" "off b1 \<le> m" "m < length (arr b1)"
      "drop (off b1) (take m (arr b1)) = unread b"
    by (auto simp: buf_room_def buf_inv_def)
  then have "take (m + 1) ((arr b1)[m := c]) = take m (arr b1) @ [c]"
    by (simp add: take_Suc_conv_app_nth)
  with r e show ?thesis
    by (simp add: buf_WriteByte_def buf_inv_def unread_def [of "b1\<lparr>arr := _\<rparr>"])
qed

lemma buf_WriteRune_ok:
  assumes "buf_inv b" "buf_fits b 4" "sc_ok sc"
  shows "\<exists>b'. buf_WriteRune sc b r = Some (length (utf8_AppendRune r), b') \<and> buf_inv b' \<and>
    unread b' = unread b @ utf8_AppendRune r \<and> lastRead b' = opInvalid"
proof (cases "r < 0x80")
  case True
  then have "r \<le> 0x7F" by (simp add: word_less_nat_alt word_le_nat_alt)
  moreover have "buf_fits b 1" using assms(2) by (simp add: buf_fits_def)
  ultimately show ?thesis
    using True buf_WriteByte_ok [OF assms(1) _ assms(3), of "ucast r"]
    by (auto simp: buf_WriteRune_def utf8_AppendRune_def)
next
  case False
  obtain m b1 where e: "buf_extend sc b 4 = Some (m, b1)" "buf_room b 4 m b1" "lastRead b1 = opInvalid"
    using buf_extend_ok [OF assms] by auto
  let ?enc = "utf8_AppendRune r"
  from e(2) utf8_AppendRune_nonempty(2) [of r] have l: "m + length ?enc \<le> length (arr b1)"
    by (simp add: buf_room_def buf_inv_def)
  then have "go_copy (drop m (arr b1)) ?enc = ?enc @ drop (m + length ?enc) (arr b1)"
    using go_copy_fits [of ?enc "drop m (arr b1)"] by (simp add: add.commute)
  with False e l show ?thesis
    by (auto simp: buf_WriteRune_def Let_def buf_room_def buf_inv_def unread_def [of "b1\<lparr>arr := _, blen := _\<rparr>"])
qed

lemma buf_take_ok:
  assumes "buf_inv b" "k \<le> length (unread b)" "-1 \<le> l" "l \<le> 4"
  shows "buf_inv (b\<lparr>off := off b + k, lastRead := l\<rparr>) \<and>
    unread (b\<lparr>off := off b + k, lastRead := l\<rparr>) = drop k (unread b)"
  using assms by (auto simp: buf_inv_def unread_def add.commute)

lemma buf_empty_iff: "buf_inv b \<Longrightarrow> buf_empty b \<longleftrightarrow> unread b = []"
  by (auto simp: buf_empty_def unread_def buf_inv_def)

lemma buf_forget:
  "buf_inv (b\<lparr>lastRead := opInvalid\<rparr>) = (off b \<le> blen b \<and> blen b \<le> length (arr b) \<and> (isNil b \<longrightarrow> arr b = []))"
  "unread (b\<lparr>lastRead := l\<rparr>) = unread b"
  by (auto simp: buf_inv_def unread_def opInvalid_def)

lemma buf_Read_ok:
  assumes inv: "buf_inv b"
  shows "\<exists>e q b'. buf_Read b k = Some (e, q, b') \<and> buf_inv b' \<and> unread b = q @ unread b' \<and>
    length q = min k (length (unread b)) \<and> e = (if unread b = [] \<and> k \<noteq> 0 then Some EOF else None)"
proof -
  let ?b = "b\<lparr>lastRead := opInvalid\<rparr>"
  have i: "buf_inv ?b" using inv by (auto simp: buf_forget) (auto simp: buf_inv_def)
  show ?thesis
  proof (cases "unread b = []")
    case True
    then show ?thesis
      using i buf_Reset_inv [OF i] buf_empty_iff [OF i] by (simp add: buf_Read_def buf_forget)
  next
    case False
    let ?n = "min k (length (unread b))"
    have t: "buf_inv (?b\<lparr>off := off b + ?n, lastRead := l\<rparr>) \<and>
        unread (?b\<lparr>off := off b + ?n, lastRead := l\<rparr>) = drop ?n (unread b)" if "-1 \<le> l" "l \<le> 4" for l
      using buf_take_ok [OF i _ that, of ?n] by (simp add: buf_forget)
    have "buf_Read b k = Some (None, take ?n (unread b),
        if ?n > 0 then ?b\<lparr>off := off b + ?n, lastRead := opRead\<rparr> else ?b\<lparr>off := off b + ?n\<rparr>)"
      using False buf_empty_iff [OF i] buf_Bytes_unread [OF i]
      by (simp add: buf_Read_def buf_forget Let_def)
    with False t [of opRead] t [of opInvalid] show ?thesis
      by (auto simp: opRead_def opInvalid_def)
  qed
qed

lemma buf_Next_ok:
  assumes inv: "buf_inv b"
  shows "\<exists>b'. buf_Next b (int k) = Some (take k (unread b), b') \<and> buf_inv b' \<and> unread b' = drop k (unread b)"
proof -
  let ?n = "min k (length (unread b))"
  let ?b = "\<lambda>l. b\<lparr>off := off b + ?n, lastRead := l\<rparr>"
  have t: "buf_inv (?b l) \<and> unread (?b l) = drop k (unread b)" if "l = opRead \<or> l = opInvalid" for l
    using buf_take_ok [OF inv, of ?n l] that by (auto simp: opRead_def opInvalid_def min_def)
  have "go_slice (take (blen b) (arr b)) (off b) (off b + ?n) = Some (take k (unread b))"
    using inv by (auto simp: go_slice_def unread_def buf_inv_def min_def take_drop)
  moreover have "buf_Len b = int (length (unread b))" by (rule buf_Len_unread [OF inv])
  ultimately have "buf_Next b (int k) = Some (take k (unread b), if ?n > 0 then ?b opRead else ?b opInvalid)"
    by (simp add: buf_Next_def buf_Len_def Let_def min_def split: if_splits) auto
  with t [of opRead] t [of opInvalid] show ?thesis by simp
qed

lemma buf_ReadByte_ok:
  assumes inv: "buf_inv b"
  shows "case unread b of
      [] \<Rightarrow> buf_ReadByte b = Some (Inl EOF, buf_Reset b)
    | c # cs \<Rightarrow> \<exists>b'. buf_ReadByte b = Some (Inr c, b') \<and> buf_inv b' \<and> unread b' = cs \<and>
        lastRead b' = opRead \<and> b' = b\<lparr>off := off b + 1, lastRead := opRead\<rparr>"
proof (cases "unread b")
  case Nil
  with buf_empty_iff [OF inv] show ?thesis by (simp add: buf_ReadByte_def)
next
  case (Cons c cs)
  have "go_index (take (blen b) (arr b)) (off b) = Some c"
    using Cons inv hd_drop_conv_nth [of "off b" "take (blen b) (arr b)"]
    by (cases "off b < length (take (blen b) (arr b))") (auto simp: go_index_def unread_def)
  with Cons buf_empty_iff [OF inv] buf_take_ok [OF inv, of 1 opRead] show ?thesis
    by (simp add: buf_ReadByte_def opRead_def)
qed

lemma buf_UnreadByte_ok:
  assumes "buf_inv b" "unread b = c # cs" "buf_ReadByte b = Some (Inr c, b')"
  shows "\<exists>b''. buf_UnreadByte b' = (None, b'') \<and> buf_inv b'' \<and> unread b'' = c # cs \<and>
    buf_UnreadByte b'' = (Some (Err ''bytes.Buffer: UnreadByte: previous operation was not a successful read''), b'')"
proof -
  have b': "b' = b\<lparr>off := off b + 1, lastRead := opRead\<rparr>"
    using buf_ReadByte_ok [OF assms(1)] assms(2,3) by auto
  have "buf_UnreadByte b' = (None, b\<lparr>off := off b, lastRead := opInvalid\<rparr>)"
    by (simp add: b' buf_UnreadByte_def opRead_def opInvalid_def)
  with assms(1,2) show ?thesis
    by (simp add: buf_UnreadByte_def buf_inv_def unread_def opInvalid_def)
qed

lemma IndexByte_Some: "IndexByte xs c = Some i \<Longrightarrow> i < length xs \<and> xs ! i = c \<and> c \<notin> set (take i xs)"
  by (induction xs arbitrary: i) (auto split: if_splits)

lemma IndexByte_None: "IndexByte xs c = None \<longleftrightarrow> c \<notin> set xs"
  by (induction xs) auto

lemma buf_readSlice_ok:
  assumes inv: "buf_inv b"
  shows "\<exists>line err b'. buf_readSlice b d = Some (line, err, b') \<and> buf_inv b' \<and>
    unread b = line @ unread b' \<and>
    (if d \<in> set (unread b) then err = None \<and> (\<exists>pre. line = pre @ [d] \<and> d \<notin> set pre)
     else err = Some EOF \<and> unread b' = [])"
proof (cases "IndexByte (unread b) d")
  case None
  have "go_slice (take (blen b) (arr b)) (off b) (blen b) = Some (unread b)"
    using buf_Bytes_unread [OF inv] by (simp add: buf_Bytes_def)
  with None buf_Bytes_unread [OF inv] have
    "buf_readSlice b d = Some (unread b, Some EOF, b\<lparr>off := blen b, lastRead := opRead\<rparr>)"
    by (simp add: buf_readSlice_def)
  with None inv show ?thesis by (simp add: IndexByte_None) (simp add: buf_inv_def unread_def opRead_def)
next
  case (Some i)
  note i = IndexByte_Some [OF Some]
  have d: "d \<in> set (unread b)" using i nth_mem by metis
  have "go_slice (take (blen b) (arr b)) (off b) (off b + i + 1) = Some (take (Suc i) (unread b))"
    using i inv by (auto simp: go_slice_def unread_def buf_inv_def take_drop add.commute)
  moreover have "take (Suc i) (unread b) = take i (unread b) @ [d]"
    using i by (simp add: take_Suc_conv_app_nth)
  ultimately show ?thesis
    using Some i d buf_Bytes_unread [OF inv] buf_take_ok [OF inv, of "Suc i" opRead]
      id_take_nth_drop [of i "unread b"]
    by (auto simp: buf_readSlice_def opRead_def)
qed

lemma buf_ReadRune_ok:
  assumes inv: "buf_inv b" and ne: "unread b \<noteq> []"
  defines "d \<equiv> utf8_DecodeRune (unread b)"
  defines "b' \<equiv> b\<lparr>off := off b + snd d, lastRead := int (snd d)\<rparr>"
  shows "buf_ReadRune b = Some (Inr d, b') \<and> buf_inv b' \<and> unread b' = drop (snd d) (unread b) \<and>
    buf_UnreadRune b' = (None, b\<lparr>lastRead := opInvalid\<rparr>)"
proof -
  obtain c cs where u: "unread b = c # cs" using ne by (cases "unread b") auto
  have c: "go_index (take (blen b) (arr b)) (off b) = Some c"
    using u inv hd_drop_conv_nth [of "off b" "take (blen b) (arr b)"]
    by (cases "off b < length (take (blen b) (arr b))") (auto simp: go_index_def unread_def)
  have sz: "1 \<le> snd d" "snd d \<le> length (unread b)" "snd d \<le> 4"
    using utf8_DecodeRune_size [OF ne] by (simp_all add: d_def)
  have "d = (ucast c, 1)" if "c < 0x80" using that by (simp add: d_def u utf8_DecodeRune_def)
  then have "buf_ReadRune b = Some (Inr d, b')"
    using c buf_Bytes_unread [OF inv] buf_empty_iff [OF inv] ne
    by (auto simp: buf_ReadRune_def b'_def d_def opReadRune1_def split: prod.splits)
  moreover have "buf_UnreadRune b' = (None, b\<lparr>lastRead := opInvalid\<rparr>)"
    using sz by (simp add: buf_UnreadRune_def b'_def opInvalid_def)
  ultimately show ?thesis
    using buf_take_ok [OF inv sz(2), of "int (snd d)"] sz by (simp add: b'_def)
qed

lemma buf_Truncate_ok:
  assumes inv: "buf_inv b"
  shows "if n < 0 \<or> n > int (length (unread b)) then buf_Truncate b n = None
    else \<exists>b'. buf_Truncate b n = Some b' \<and> buf_inv b' \<and> unread b' = take (nat n) (unread b)"
proof (cases "n = 0")
  case True
  with buf_Reset_inv [OF inv] show ?thesis by (simp add: buf_Truncate_def)
next
  case False
  have l: "buf_Len (b\<lparr>lastRead := opInvalid\<rparr>) = int (length (unread b))"
    using buf_Len_unread [OF inv] by (simp add: buf_Len_def)
  show ?thesis
  proof (cases "n < 0 \<or> n > int (length (unread b))")
    case True
    with False l show ?thesis by (simp add: buf_Truncate_def Let_def)
  next
    case in_range: False
    then have k: "off b + nat n \<le> blen b" using inv by (auto simp: unread_def buf_inv_def)
    then have "unread (b\<lparr>lastRead := opInvalid, blen := off b + nat n\<rparr>) = take (nat n) (unread b)"
      by (simp add: unread_def take_drop min_def add.commute)
    with in_range False l k inv show ?thesis
      by (simp add: buf_Truncate_def Let_def) (simp add: buf_inv_def opInvalid_def)
  qed
qed

lemma buf_Grow_ok:
  assumes "buf_inv b" "buf_fits b n" "sc_ok sc"
  shows "\<exists>b'. buf_Grow sc b (int n) = Some b' \<and> buf_inv b' \<and> unread b' = unread b \<and>
    int n \<le> buf_Available b'"
proof -
  obtain m b1 where g: "buf_grow sc b (int n) = Some (m, b1)" "buf_room b n m b1"
    using buf_grow_ok [OF assms] by blast
  then have "buf_Grow sc b (int n) = Some (b1\<lparr>blen := m\<rparr>)" by (simp add: buf_Grow_def)
  with g(2) show ?thesis
    by (auto simp: buf_room_def buf_inv_def unread_def [of "b1\<lparr>blen := m\<rparr>"] buf_Available_def)
qed

text \<open>
  \<open>WriteTo\<close> for a writer that keeps to the contract of \<open>io.Writer\<close>: the count is between zero
  and the length, and a short count comes with an error.
\<close>

lemma buf_WriteTo_ok:
  assumes inv: "buf_inv b" and w: "w (unread b) = (int m, e)" "m \<le> length (unread b)"
    and ne: "unread b \<noteq> []"
  shows "\<exists>b'. buf_WriteTo w b =
      Some (int m, if e = None \<and> m \<noteq> length (unread b) then Some ErrShortWrite else e, b') \<and>
    buf_inv b' \<and> unread b' = drop m (unread b)"
proof -
  let ?b = "b\<lparr>lastRead := opInvalid\<rparr>"
  have i: "buf_inv ?b" "unread ?b = unread b"
    using inv by (simp_all add: buf_inv_def unread_def opInvalid_def)
  have t: "buf_inv (?b\<lparr>off := off b + m\<rparr>)" "unread (?b\<lparr>off := off b + m\<rparr>) = drop m (unread b)"
    using buf_take_ok [OF inv w(2), of opInvalid]
    by (simp_all add: buf_inv_def unread_def opInvalid_def)
  have "buf_WriteTo w b = (if e \<noteq> None then Some (int m, e, ?b\<lparr>off := off b + m\<rparr>)
      else if m \<noteq> length (unread b) then Some (int m, Some ErrShortWrite, ?b\<lparr>off := off b + m\<rparr>)
      else Some (int m, None, buf_Reset (?b\<lparr>off := off b + m\<rparr>)))"
    using w ne buf_Len_unread [OF i(1)] buf_Bytes_unread [OF i(1)] i(2)
    by (simp add: buf_WriteTo_def Let_def nat_int_add)
  with t buf_Reset_inv [OF t(1)] show ?thesis by auto
qed

subsection \<open>Draining a source\<close>

text \<open>
  How far one \<open>grow\<close> by \<open>MinRead\<close> or more can enlarge the array, for a run time that rounds sizes
  up, and those of 512 bytes or more to at most their double (Go's size classes round small
  sizes further, one byte to eight): a new array is only made when the old one is less than
  twice what is needed.
\<close>

definition sc_tight :: "(nat \<Rightarrow> nat) \<Rightarrow> bool" where
  "sc_tight sc \<longleftrightarrow> (\<forall>c. c \<le> sc c \<and> (512 \<le> c \<longrightarrow> sc c \<le> 2 * c))"

lemma sc_tight_ok: "sc_tight sc \<Longrightarrow> sc_ok sc"
  by (simp add: sc_tight_def sc_ok_def)

definition cap_bound :: "nat \<Rightarrow> nat" where
  "cap_bound k = 8 * k + 64"

lemma buf_growAlloc_cap:
  assumes inv: "buf_inv b" and sc: "sc_tight sc" and n: "512 \<le> n" and
    g: "buf_growAlloc sc b (int (length (unread b))) (int n) = Some (m, b')"
  shows "length (arr b') \<le> max (length (arr b)) (cap_bound (length (unread b) + n))"
proof (cases "isNil b \<and> int n \<le> smallBufferSize")
  case True
  with n show ?thesis by (simp add: smallBufferSize_def)
next
  case False
  let ?u = "unread b" and ?c = "length (arr b)"
  define slide where "slide = (int n \<le> int ?c div 2 - int (length ?u))"
  define c' where "c' = (let c = length ?u + (off b + n) in if c < 2 * (?c - off b) then 2 * (?c - off b) else c)"
  have "length (arr b') = (if slide then ?c else sc c')"
    using False g buf_Bytes_unread [OF inv] inv
    by (auto simp: buf_growAlloc_def slide_def c'_def growSlice_def Let_def buf_inv_def split: if_splits)
  moreover have "c' \<le> 4 * (length ?u + n)" if "\<not> slide"
  proof -
    have "?c < 2 * (length ?u + n)" using that by (simp add: slide_def)
    moreover have "length ?u + off b \<le> ?c" using inv by (auto simp: unread_def buf_inv_def)
    ultimately show ?thesis by (auto simp: c'_def Let_def)
  qed
  moreover have "512 \<le> c'" using n by (simp add: c'_def Let_def)
  then have "sc c' \<le> 2 * c'" using sc by (simp add: sc_tight_def)
  ultimately show ?thesis by (cases slide) (auto simp: cap_bound_def)
qed

lemma buf_grow_cap:
  assumes inv: "buf_inv b" and sc: "sc_tight sc" and n: "512 \<le> n" and g: "buf_grow sc b (int n) = Some (m, b')"
  shows "length (arr b') \<le> max (length (arr b)) (cap_bound (length (unread b) + n))"
proof -
  define b1 where "b1 = (if buf_Len b = 0 \<and> off b \<noteq> 0 then buf_Reset b else b)"
  have b1: "buf_inv b1" "unread b1 = unread b" "arr b1 = arr b"
    using inv buf_Reset_inv [OF inv] buf_Len_unread [OF inv]
    by (auto simp: b1_def) (auto simp: buf_Reset_def)
  have m: "buf_Len b = int (length (unread b1))" using buf_Len_unread [OF inv] b1(2) by simp
  have eq: "buf_grow sc b (int n) = do {
      (i, b2) \<leftarrow> buf_tryGrowByReslice b1 (int n);
      case i of Some k \<Rightarrow> Some (k, b2)
      | None \<Rightarrow> buf_growAlloc sc b2 (int (length (unread b1))) (int n) }"
    by (simp only: buf_grow_def Let_def flip: b1_def m)
  show ?thesis
    using g buf_growAlloc_cap [OF b1(1) sc n, of m b'] b1
    unfolding eq buf_tryGrow_eq [OF b1(1)] by (auto split: if_splits)
qed

lemma buf_readInto_cap:
  assumes inv: "buf_inv b" and sc: "sc_tight sc" and g: "buf_readInto sc rd s b = Some (m, e, s', b')"
  shows "length (arr b') \<le> max (length (arr b)) (cap_bound (length (unread b) + 512))"
proof -
  obtain i b1 where b1: "buf_grow sc b MinRead = Some (i, b1)" "length (arr b') = length (arr b1)"
    using g by (auto simp: buf_readInto_def Let_def split: Option.bind_splits prod.splits if_splits)
  with buf_grow_cap [OF inv sc, of 512 i b1] show ?thesis by (simp add: MinRead_def)
qed

text \<open>
  What \<open>ReadFrom\<close> relies on in an \<open>io.Reader\<close> over a finite stream: each call returns the next
  bytes of the stream, at most as many as the slice holds; \<open>io.EOF\<close> comes when the stream is
  used up and no other error; a call without an error makes progress.
\<close>

locale byte_source =
  fixes rd :: "'s reader" and ok :: "'s \<Rightarrow> bool" and data :: "'s \<Rightarrow> bytes"
  assumes rd_law: "ok s \<Longrightarrow> \<exists>d e s'. rd s k = (int (length d), e, d, s') \<and> ok s' \<and>
    data s = d @ data s' \<and> length d \<le> k \<and>
    (e = Some EOF \<and> data s' = [] \<or> e = None \<and> (0 < k \<longrightarrow> d \<noteq> []))"
begin

lemma readInto_ok:
  assumes "ok s" "buf_inv b" "buf_fits b 512" "sc_ok sc"
  shows "\<exists>d e s' b'. buf_readInto sc rd s b = Some (int (length d), e, s', b') \<and> ok s' \<and> buf_inv b' \<and>
    data s = d @ data s' \<and> unread b' = unread b @ d \<and>
    (e = Some EOF \<and> data s' = [] \<or> e = None \<and> d \<noteq> [])"
proof -
  obtain i b1 where g: "buf_grow sc b MinRead = Some (i, b1)" "buf_room b 512 i b1"
    using buf_grow_ok [OF assms(2-4)] by (auto simp: MinRead_def)
  from g(2) have r: "i + 512 \<le> length (arr b1)" "off b1 \<le> i" "drop (off b1) (take i (arr b1)) = unread b"
      "buf_inv b1" by (auto simp: buf_room_def buf_inv_def)
  obtain d e s' where s: "rd s (length (arr b1) - i) = (int (length d), e, d, s')" "ok s'"
      "data s = d @ data s'" "length d \<le> length (arr b1) - i"
      "e = Some EOF \<and> data s' = [] \<or> e = None \<and> (0 < length (arr b1) - i \<longrightarrow> d \<noteq> [])"
    using rd_law [OF assms(1), of "length (arr b1) - i"] by (elim exE conjE) (rule that)
  define b2 where "b2 = b1\<lparr>blen := i + length d, arr := take i (arr b1) @ go_copy (drop i (arr b1)) d\<rparr>"
  have c: "go_copy (drop i (arr b1)) d = d @ drop (i + length d) (arr b1)"
    using go_copy_fits [of d "drop i (arr b1)"] s(4) by (simp add: add.commute)
  have "buf_readInto sc rd s b = Some (int (length d), e, s', b2)"
    using g(1) r(1) s(1,4) c by (simp add: buf_readInto_def b2_def)
  moreover have "buf_inv b2" "unread b2 = unread b @ d"
    using r s(4) c by (auto simp: b2_def buf_inv_def unread_def [of "b1\<lparr>blen := _, arr := _\<rparr>"])
  ultimately show ?thesis using s r(1) by auto
qed

lemma ReadFromOnce_ok:
  assumes "ok s" "buf_inv b" "buf_fits b 512" "sc_ok sc"
  shows "\<exists>d s' b'. buf_ReadFromOnce sc rd s b = Some (int (length d), None, s', b') \<and> ok s' \<and> buf_inv b' \<and>
    data s = d @ data s' \<and> unread b' = unread b @ d \<and> (data s \<noteq> [] \<longrightarrow> d \<noteq> [])"
proof -
  have "buf_inv (b\<lparr>lastRead := opInvalid\<rparr>)" "buf_fits (b\<lparr>lastRead := opInvalid\<rparr>) 512"
    using assms(2,3) by (simp_all add: buf_inv_def buf_fits_def opInvalid_def)
  from readInto_ok [OF assms(1) this assms(4)]
  obtain d e s' b' where r: "buf_readInto sc rd s (b\<lparr>lastRead := opInvalid\<rparr>) = Some (int (length d), e, s', b')"
      "ok s'" "buf_inv b'" "data s = d @ data s'" "unread b' = unread b @ d"
      "e = Some EOF \<and> data s' = [] \<or> e = None \<and> d \<noteq> []"
    unfolding buf_forget(2) by (elim exE conjE) (rule that)
  then have "buf_ReadFromOnce sc rd s b = Some (int (length d), None, s', b')"
    by (auto simp: buf_ReadFromOnce_def)
  with r show ?thesis by auto
qed

lemma readLoop_ok:
  assumes "ok s" "buf_inv b" "sc_tight sc"
    and "2 * int (max (length (arr b)) (cap_bound (length (unread b) + length (data s) + 512))) + 512 \<le> maxInt"
  shows "\<exists>s' b'. buf_readLoop sc rd s n b = Some (n + int (length (data s)), None, s', b') \<and>
    buf_inv b' \<and> data s' = [] \<and> unread b' = unread b @ data s"
  using assms
proof (induction "length (data s)" arbitrary: s b n rule: less_induct)
  case less
  have "buf_fits b 512" using less.prems(4) by (simp add: buf_fits_def)
  from readInto_ok [OF less.prems(1,2) this sc_tight_ok [OF less.prems(3)]]
  obtain d e s' b' where r: "buf_readInto sc rd s b = Some (int (length d), e, s', b')" "ok s'" "buf_inv b'"
      "data s = d @ data s'" "unread b' = unread b @ d"
      "e = Some EOF \<and> data s' = [] \<or> e = None \<and> d \<noteq> []"
    by (elim exE conjE) (rule that)
  show ?case
  proof (cases "e = None")
    case False
    with r show ?thesis by (subst buf_readLoop.simps) simp
  next
    case True
    have cap: "length (arr b') \<le> max (length (arr b)) (cap_bound (length (unread b) + 512))"
      by (rule buf_readInto_cap [OF less.prems(2,3) r(1)])
    have "2 * int (max (length (arr b')) (cap_bound (length (unread b') + length (data s') + 512))) + 512 \<le> maxInt"
      using less.prems(4) cap r(4,5) by (auto simp: cap_bound_def max_def split: if_splits)
    with less.hyps [OF _ r(2,3) less.prems(3), of "n + int (length d)"] r True show ?thesis
      by (subst buf_readLoop.simps) (simp add: add.assoc)
  qed
qed

end

text \<open>A buffer is itself such a reader.\<close>

definition buf_reader :: "Buffer reader" where
  "buf_reader b k =
     (case buf_Read b k of Some (e, q, b') \<Rightarrow> (int (length q), e, q, b') | None \<Rightarrow> (0, Some EOF, [], b))"

interpretation buf_src: byte_source buf_reader buf_inv unread
proof (unfold_locales, goal_cases)
  case (1 b k)
  obtain e q b' where r: "buf_Read b k = Some (e, q, b')" "buf_inv b'" "unread b = q @ unread b'"
      "length q = min k (length (unread b))" "e = (if unread b = [] \<and> k \<noteq> 0 then Some EOF else None)"
    using buf_Read_ok [OF 1, of k] by blast
  then have "0 < k \<longrightarrow> unread b \<noteq> [] \<longrightarrow> q \<noteq> []" by (auto simp: min_def split: if_splits)
  with r show ?case by (cases "unread b = []") (auto simp: buf_reader_def)
qed

subsection \<open>Properties of the buffer\<close>

text \<open>
  C18: \<open>Write\<close> never panics on a buffer with room below the overflow limit: it appends all of
  its argument to the unread bytes, whether it reslices, slides or reallocates, returns the
  full count and forbids a following unread.
\<close>

theorem buf_Write_appends:
  assumes "buf_inv b" "2 * int (length (arr b)) + int (length p) \<le> maxInt" "\<forall>c. c \<le> sc c"
  shows "\<exists>b'. buf_Write sc b p = Some (length p, b') \<and> buf_inv b' \<and> unread b' = unread b @ p \<and>
    buf_UnreadByte b' = (Some (Err ''bytes.Buffer: UnreadByte: previous operation was not a successful read''), b')"
proof -
  have "buf_fits b (length p)" "sc_ok sc" using assms(2,3) by (simp_all add: buf_fits_def sc_ok_def)
  with buf_Write_ok [OF assms(1), of p sc] show ?thesis by (auto simp: buf_UnreadByte_def)
qed

theorem buf_Write_appends_witness:
  "\<exists>b'. buf_Write (\<lambda>c. c) \<lparr>arr = [1,2,3,4], blen = 4, off = 3, lastRead = -1, isNil = False\<rparr> [7,8] = Some (2, b') \<and>
     unread b' = [4,7,8]"
  using buf_Write_appends [of "\<lparr>arr = [1,2,3,4], blen = 4, off = 3, lastRead = -1, isNil = False\<rparr>" "[7,8]" "\<lambda>c. c"]
  by (auto simp: buf_inv_def unread_def maxInt_def)

text \<open>
  \<open>Read\<close> returns the first unread bytes, as many as fit, and leaves the rest; it reports
  \<open>io.EOF\<close> exactly when nothing is unread and the destination is not empty, and it never panics.
\<close>

lemma buf_Read_consumes:
  assumes "buf_inv b"
  shows "\<exists>b'. buf_Read b k =
      Some (if unread b = [] \<and> k \<noteq> 0 then Some EOF else None, take k (unread b), b') \<and>
    buf_inv b' \<and> unread b' = drop k (unread b)"
proof -
  obtain e q b' where r: "buf_Read b k = Some (e, q, b')" "buf_inv b'" "unread b = q @ unread b'"
      "length q = min k (length (unread b))" "e = (if unread b = [] \<and> k \<noteq> 0 then Some EOF else None)"
    using buf_Read_ok [OF assms, of k] by blast
  then have "q = take k (unread b)" "unread b' = drop k (unread b)" by (auto simp: min_def split: if_splits)
  with r(1,2,5) show ?thesis by simp
qed

lemma buf_Read_consumes_witness:
  "\<exists>b'. buf_Read \<lparr>arr = [1,2,3,4], blen = 3, off = 1, lastRead = 0, isNil = False\<rparr> 1 = Some (None, [2], b') \<and>
     unread b' = [3]"
  using buf_Read_consumes [of "\<lparr>arr = [1,2,3,4], blen = 3, off = 1, lastRead = 0, isNil = False\<rparr>" 1]
  by (auto simp: buf_inv_def unread_def)

text \<open>
  \<open>ReadBytes\<close> splits the unread bytes after the first delimiter, which the returned line
  ends in; without a delimiter it returns everything and \<open>io.EOF\<close>.
\<close>

lemma buf_ReadBytes_splits:
  assumes "buf_inv b"
  shows "\<exists>line err b'. buf_ReadBytes b d = Some (line, err, b') \<and> buf_inv b' \<and>
    unread b = line @ unread b' \<and>
    (if d \<in> set (unread b) then err = None \<and> (\<exists>pre. line = pre @ [d] \<and> d \<notin> set pre)
     else err = Some EOF \<and> unread b' = [])"
  unfolding buf_ReadBytes_def by (rule buf_readSlice_ok [OF assms])

lemma buf_ReadBytes_splits_witness:
  "\<exists>line err b'. buf_ReadBytes \<lparr>arr = [5,10,6], blen = 3, off = 0, lastRead = 0, isNil = False\<rparr> 10 = Some (line, err, b') \<and>
     err = None \<and> (\<exists>pre. line = pre @ [10] \<and> 10 \<notin> set pre)"
  using buf_ReadBytes_splits [of "\<lparr>arr = [5,10,6], blen = 3, off = 0, lastRead = 0, isNil = False\<rparr>" 10]
  by (auto simp: buf_inv_def unread_def)

text \<open>
  C31: A valid rune written with \<open>WriteRune\<close> to a drained buffer is what \<open>ReadRune\<close> returns,
  with its encoded size, leaving the buffer drained; \<open>UnreadRune\<close> then puts it back.
\<close>

theorem buf_rune_round_trip:
  assumes "buf_inv b" "2 * int (length (arr b)) + 4 \<le> maxInt" "\<forall>c. c \<le> sc c"
    and "unread b = []" "utf8_valid r"
  shows "\<exists>n b1 b2 b3. buf_WriteRune sc b r = Some (n, b1) \<and> buf_ReadRune b1 = Some (Inr (r, n), b2) \<and>
    unread b2 = [] \<and> buf_UnreadRune b2 = (None, b3) \<and> buf_ReadRune b3 = Some (Inr (r, n), b2)"
proof -
  have "buf_fits b 4" "sc_ok sc" using assms(2,3) by (simp_all add: buf_fits_def sc_ok_def)
  then obtain b1 where b1: "buf_WriteRune sc b r = Some (length (utf8_AppendRune r), b1)" "buf_inv b1"
      "unread b1 = utf8_AppendRune r" "lastRead b1 = opInvalid"
    using buf_WriteRune_ok [OF assms(1), of sc r] assms(4) by auto
  have "utf8_DecodeRune (unread b1) = (r, length (utf8_AppendRune r))"
    using utf8_round_trip [OF assms(5), of "[]"] b1(3) by simp
  moreover have same: "b1\<lparr>lastRead := opInvalid\<rparr> = b1" using b1(4) by simp
  ultimately show ?thesis
    using b1 buf_ReadRune_ok [OF b1(2), unfolded same] utf8_AppendRune_nonempty [of r] by auto
qed

theorem buf_rune_round_trip_witness:
  "\<exists>n b1 b2. buf_WriteRune (\<lambda>c. c) (NewBuffer [] 0 True) 0x20AC = Some (n, b1) \<and>
     buf_ReadRune b1 = Some (Inr (0x20AC, n), b2)"
  using buf_rune_round_trip [of "NewBuffer [] 0 True" "\<lambda>c. c" "0x20AC"]
  by (auto simp: NewBuffer_def buf_inv_def unread_def maxInt_def opInvalid_def utf8_valid_def)

text \<open>
  C21: \<open>ReadFrom\<close> of one buffer into another ends and moves everything: it returns the number of
  bytes and no error, the source is drained and its bytes follow the unread bytes of the
  destination. The capacity that the run time gives an allocation, \<open>sc\<close>, is at least the size asked
  for, and at most the double of a size of 512 bytes or more, which are the sizes \<open>ReadFrom\<close> asks
  for; the last hypothesis then excludes the overflow panic.
\<close>

theorem buf_ReadFrom_drains:
  assumes "buf_inv src" "buf_inv b" "\<forall>c. c \<le> sc c" "\<forall>c \<ge> 512. sc c \<le> 2 * c"
    and "2 * int (max (length (arr b)) (8 * (length (unread b) + length (unread src) + 512) + 64)) + 512 \<le> maxInt"
  shows "\<exists>src' b'. buf_ReadFrom sc buf_reader src b = Some (int (length (unread src)), None, src', b') \<and>
    buf_inv b' \<and> unread src' = [] \<and> unread b' = unread b @ unread src"
proof -
  have "buf_inv (b\<lparr>lastRead := opInvalid\<rparr>)" using assms(2) by (simp add: buf_inv_def opInvalid_def)
  then show ?thesis
    using buf_src.readLoop_ok [OF assms(1), of "b\<lparr>lastRead := opInvalid\<rparr>" sc 0] assms(3-5)
    by (simp add: buf_ReadFrom_def sc_tight_def cap_bound_def buf_forget)
qed

text \<open>An instance that rounds as the run time does: small sizes to whole words, large ones to whole pages.\<close>

definition round_alloc :: "nat \<Rightarrow> nat" where
  "round_alloc c = (if c \<le> 32768 then (c + 7) div 8 * 8 else (c + 8191) div 8192 * 8192)"

lemma round_up_ge: "0 < k \<Longrightarrow> c \<le> (c + (k - 1)) div k * (k :: nat)"
  using div_mult_mod_eq [of "c + (k - 1)" k] mod_less_divisor [of k "c + (k - 1)"] by linarith

lemma round_alloc_bounds: "c \<le> round_alloc c" "512 \<le> c \<Longrightarrow> round_alloc c \<le> 2 * c"
proof -
  have "(c + 7) div 8 * 8 \<le> c + 7" "(c + 8191) div 8192 * 8192 \<le> c + 8191" by simp_all
  then show "c \<le> round_alloc c" "512 \<le> c \<Longrightarrow> round_alloc c \<le> 2 * c"
    using round_up_ge [of 8 c] round_up_ge [of 8192 c] by (auto simp only: round_alloc_def split: if_splits)
qed

theorem buf_ReadFrom_drains_witness:
  "\<exists>src' b'. buf_ReadFrom round_alloc buf_reader (NewBufferString [1,2,3]) (NewBufferString [9]) = Some (3, None, src', b') \<and>
     unread b' = [9,1,2,3]"
  using buf_ReadFrom_drains [of "NewBufferString [1,2,3]" "NewBufferString [9]" round_alloc] round_alloc_bounds
  by (auto simp: NewBufferString_def buf_inv_def unread_def maxInt_def opInvalid_def)

text \<open>
  \<open>UnreadByte\<close> is documented to fail after a read that returned no byte. After
  \<open>ReadBytes\<close> on a drained buffer, which only reports \<open>io.EOF\<close>, it succeeds and brings an
  already consumed byte back.
\<close>

lemma buf_UnreadByte_after_EOF:
  assumes "buf_inv b" "unread b = []" "0 < off b"
  shows "\<exists>b1 b2. buf_ReadBytes b d = Some ([], Some EOF, b1) \<and>
    buf_UnreadByte b1 = (None, b2) \<and> unread b2 = [arr b ! (off b - 1)]"
proof -
  have o: "off b = blen b" "blen b \<le> length (arr b)" using assms(1,2) by (auto simp: unread_def buf_inv_def)
  have "buf_ReadBytes b d = Some ([], Some EOF, b\<lparr>off := blen b, lastRead := opRead\<rparr>)"
    using buf_Bytes_unread [OF assms(1)] assms(2)
    by (simp add: buf_ReadBytes_def buf_readSlice_def buf_Bytes_def)
  moreover have "drop (blen b - 1) (take (blen b) (arr b)) = [arr b ! (blen b - 1)]"
    using o assms(3) Cons_nth_drop_Suc [of "blen b - 1" "take (blen b) (arr b)"] by simp
  ultimately show ?thesis
    using assms(3) o by (simp add: buf_UnreadByte_def opRead_def opInvalid_def unread_def)
qed

lemma buf_UnreadByte_after_EOF_witness:
  "\<exists>b1 b2. buf_ReadBytes \<lparr>arr = [5], blen = 1, off = 1, lastRead = 0, isNil = False\<rparr> 10 = Some ([], Some EOF, b1) \<and>
     buf_UnreadByte b1 = (None, b2) \<and> unread b2 = [5]"
  using buf_UnreadByte_after_EOF [of "\<lparr>arr = [5], blen = 1, off = 1, lastRead = 0, isNil = False\<rparr>" 10]
  by (simp add: buf_inv_def unread_def)

end
