(* ===== verification/TuicWire.thy ===== *)
theory TuicWire
  imports NetAddr ByteBuffer
begin

section \<open>The TUIC wire format\<close>

text \<open>
  Models \<open>protocol/tuic/protocol.go\<close> and \<open>protocol/tuic/packet_parse.go\<close>: the commands, their
  serializers into a writer and into a slice, and the three parsers of a packet (from a
  buffered reader, from a datagram, from a stream). A nil \<open>*Address\<close> is \<open>None\<close>. The flag
  \<open>owned\<close> of a packet says that it has a \<open>dataOwner\<close> that has not been released. The command
  names in error messages are left as format strings.
\<close>

subsection \<open>Commands\<close>

definition AuthenticateType :: byte where "AuthenticateType = 0"
definition ConnectType :: byte where "ConnectType = 1"
definition PacketType :: byte where "PacketType = 2"
definition DissociateType :: byte where "DissociateType = 3"
definition HeartbeatType :: byte where "HeartbeatType = 4"

record CommandHead =
  ch_VER :: byte
  ch_TYPE :: byte

definition NewCommandHead :: "byte \<Rightarrow> byte \<Rightarrow> CommandHead" where
  "NewCommandHead ty ver = \<lparr>ch_VER = ver, ch_TYPE = ty\<rparr>"

definition ReadCommandHead :: "bytes \<Rightarrow> go_error + CommandHead \<times> bytes" where
  "ReadCommandHead bs =
     sum_bind (io_ReadByte bs) (\<lambda>(ver, bs1).
     sum_bind (io_ReadByte bs1) (\<lambda>(ty, bs2).
     Inr (\<lparr>ch_VER = ver, ch_TYPE = ty\<rparr>, bs2)))"

definition head_WriteTo :: "'w bwriter \<Rightarrow> 'w \<Rightarrow> CommandHead \<Rightarrow> go_error option \<times> 'w" where
  "head_WriteTo wr w c = write_all wr w [[ch_VER c], [ch_TYPE c]]"

definition head_WriteToBytes :: "CommandHead \<Rightarrow> bytes \<Rightarrow> (nat \<times> bytes) option" where
  "head_WriteToBytes c b = do {
     b1 \<leftarrow> put_at b 0 [ch_VER c];
     b2 \<leftarrow> put_at b1 1 [ch_TYPE c];
     Some (2, b2) }"

definition head_BytesLen :: "CommandHead \<Rightarrow> nat" where
  "head_BytesLen c = 1 + 1"

subsection \<open>Addresses\<close>

definition AtypDomainName :: byte where "AtypDomainName = 0"
definition AtypIPv4 :: byte where "AtypIPv4 = 1"
definition AtypIPv6 :: byte where "AtypIPv6 = 2"
definition AtypNone :: byte where "AtypNone = 255"

lemmas Atyp_defs = AtypDomainName_def AtypIPv4_def AtypIPv6_def AtypNone_def

record Address =
  a_TYPE :: byte
  a_ADDR :: bytes
  a_PORT :: "16 word"

text \<open>
  \<open>ReadAddress\<close>. The length byte of a domain is incremented as a \<open>byte\<close>, so that the slice for
  length 255 is empty and the store of its first element panics (\<open>None\<close>). Reading type \<open>None\<close>
  returns a nil address and no error.
\<close>

definition ReadAddress :: "bytes \<Rightarrow> (go_error + Address option \<times> bytes) option" where
  "ReadAddress bs =
     (case io_ReadByte bs of
        Inl e \<Rightarrow> Some (Inl e)
      | Inr (ty, bs1) \<Rightarrow>
          let port = (\<lambda>addr bs2.
                if ty = AtypNone then Inr (None, bs2)
                else sum_bind (read_u16 bs2) (\<lambda>(p, bs3).
                  Inr (Some \<lparr>a_TYPE = ty, a_ADDR = addr, a_PORT = p\<rparr>, bs3))) in
          if ty = AtypIPv4 then Some (sum_bind (io_ReadFull 4 bs1) (\<lambda>(addr, bs2). port addr bs2))
          else if ty = AtypIPv6 then Some (sum_bind (io_ReadFull 16 bs1) (\<lambda>(addr, bs2). port addr bs2))
          else if ty = AtypDomainName then
            (case io_ReadByte bs1 of
               Inl e \<Rightarrow> Some (Inl e)
             | Inr (addrLen, bs2) \<Rightarrow>
                 let n = unat (addrLen + 1) in
                 if n = 0 then None
                 else Some (sum_bind (io_ReadFull (n - 1) bs2) (\<lambda>(name, bs3). port (addrLen # name) bs3)))
          else Some (port [] bs1))"

definition addr_WriteTo :: "'w bwriter \<Rightarrow> 'w \<Rightarrow> Address \<Rightarrow> go_error option \<times> 'w" where
  "addr_WriteTo wr w c =
     write_all wr w ([a_TYPE c] # (if a_TYPE c = AtypNone then [] else [a_ADDR c, put_u16 (a_PORT c)]))"

definition addr_WriteToBytes :: "Address \<Rightarrow> bytes \<Rightarrow> (nat \<times> bytes) option" where
  "addr_WriteToBytes c b = do {
     b1 \<leftarrow> put_at b 0 [a_TYPE c];
     if a_TYPE c = AtypNone then Some (1, b1)
     else do {
       (n, b2) \<leftarrow> copy_at b1 1 (a_ADDR c);
       b3 \<leftarrow> put_at b2 (1 + n) (put_u16 (a_PORT c));
       Some (3 + n, b3) } }"

definition addr_BytesLen :: "Address \<Rightarrow> nat" where
  "addr_BytesLen c = (if a_TYPE c = AtypNone then 1 else 1 + length (a_ADDR c) + 2)"

definition NewAddressAddrPort :: "addr_port \<Rightarrow> Address" where
  "NewAddressAddrPort ap =
     (let addr = netip_Unmap (fst ap) in
      \<lparr>a_TYPE = (case addr of Addr4 _ \<Rightarrow> AtypIPv4 | _ \<Rightarrow> AtypIPv6), a_ADDR = netip_AsSlice addr, a_PORT = snd ap\<rparr>)"

definition addr_UDPAddr_AddrPort :: "Address \<Rightarrow> addr_port" where
  "addr_UDPAddr_AddrPort c = (AddrFromSlice (a_ADDR c), a_PORT c)"

definition addr_UDPAddrPort :: "Address \<Rightarrow> addr_port" where
  "addr_UDPAddrPort c =
     (case AddrFromSlice (a_ADDR c) of
        NoAddr \<Rightarrow> addr_UDPAddr_AddrPort c
      | addr \<Rightarrow> (addr, a_PORT c))"

subsection \<open>Authenticate, Connect, Dissociate\<close>

record Authenticate =
  au_head :: CommandHead
  au_UUID :: bytes
  au_TOKEN :: bytes
  au_VER :: byte

definition NewAuthenticate :: "bytes \<Rightarrow> bytes \<Rightarrow> byte \<Rightarrow> Authenticate" where
  "NewAuthenticate uuid token ver =
     \<lparr>au_head = NewCommandHead AuthenticateType ver, au_UUID = uuid, au_TOKEN = token, au_VER = ver\<rparr>"

definition ReadAuthenticateWithHead :: "CommandHead \<Rightarrow> bytes \<Rightarrow> go_error + Authenticate \<times> bytes" where
  "ReadAuthenticateWithHead h bs =
     (if ch_TYPE h \<noteq> AuthenticateType then Inl (Err ''error command type: %s'')
      else
        sum_bind (sum_map_error (\<lambda>_. Err ''read uuid: %w'') (io_ReadFull 16 bs)) (\<lambda>(uuid, bs1).
        sum_bind (sum_map_error (\<lambda>_. Err ''read token: %w'') (io_ReadFull 32 bs1)) (\<lambda>(token, bs2).
        Inr (\<lparr>au_head = h, au_UUID = uuid, au_TOKEN = token, au_VER = 0\<rparr>, bs2))))"

text \<open>The key material comes from the TLS connection, the argument \<open>export\<close>.\<close>

definition GenToken ::
    "(bytes \<Rightarrow> bytes \<Rightarrow> nat \<Rightarrow> go_error + bytes) \<Rightarrow> bytes \<Rightarrow> bytes \<Rightarrow> bytes \<times> go_error option" where
  "GenToken export uuid password =
     (case export uuid password 32 of
        Inl e \<Rightarrow> (replicate 32 0, Some e)
      | Inr tokenBytes \<Rightarrow> (go_copy (replicate 32 0) tokenBytes, None))"

definition auth_WriteTo :: "'w bwriter \<Rightarrow> 'w \<Rightarrow> Authenticate \<Rightarrow> go_error option \<times> 'w" where
  "auth_WriteTo wr w c =
     (case head_WriteTo wr w (au_head c) of
        (Some e, w1) \<Rightarrow> (Some e, w1)
      | (None, w1) \<Rightarrow> write_all wr w1 [au_UUID c, au_TOKEN c])"

definition auth_BytesLen :: "Authenticate \<Rightarrow> nat" where
  "auth_BytesLen c = head_BytesLen (au_head c) + 16 + 32"

record Connect =
  co_head :: CommandHead
  co_ADDR :: "Address option"

definition NewConnect :: "Address option \<Rightarrow> byte \<Rightarrow> Connect" where
  "NewConnect addr ver = \<lparr>co_head = NewCommandHead ConnectType ver, co_ADDR = addr\<rparr>"

definition ReadConnectWithHead :: "CommandHead \<Rightarrow> bytes \<Rightarrow> (go_error + Connect \<times> bytes) option" where
  "ReadConnectWithHead h bs =
     (if ch_TYPE h \<noteq> ConnectType then Some (Inl (Err ''error command type: %s''))
      else do {
        r \<leftarrow> ReadAddress bs;
        Some (sum_bind r (\<lambda>(addr, bs1). Inr (\<lparr>co_head = h, co_ADDR = addr\<rparr>, bs1))) })"

definition connect_WriteTo :: "'w bwriter \<Rightarrow> 'w \<Rightarrow> Connect \<Rightarrow> (go_error option \<times> 'w) option" where
  "connect_WriteTo wr w c =
     (case head_WriteTo wr w (co_head c) of
        (Some e, w1) \<Rightarrow> Some (Some e, w1)
      | (None, w1) \<Rightarrow> map_option (addr_WriteTo wr w1) (co_ADDR c))"

definition connect_WriteToBytes :: "Connect \<Rightarrow> bytes \<Rightarrow> (nat \<times> bytes) option" where
  "connect_WriteToBytes c b = do {
     (n, b1) \<leftarrow> head_WriteToBytes (co_head c) b;
     a \<leftarrow> co_ADDR c;
     (k, b2) \<leftarrow> on_tail b1 2 (addr_WriteToBytes a);
     Some (n + k, b2) }"

definition connect_BytesLen :: "Connect \<Rightarrow> nat option" where
  "connect_BytesLen c = map_option (\<lambda>a. head_BytesLen (co_head c) + addr_BytesLen a) (co_ADDR c)"

record Dissociate =
  di_head :: CommandHead
  di_ASSOC_ID :: "16 word"

definition NewDissociate :: "16 word \<Rightarrow> byte \<Rightarrow> Dissociate" where
  "NewDissociate assoc ver = \<lparr>di_head = NewCommandHead DissociateType ver, di_ASSOC_ID = assoc\<rparr>"

definition dissociate_WriteTo :: "'w bwriter \<Rightarrow> 'w \<Rightarrow> Dissociate \<Rightarrow> go_error option \<times> 'w" where
  "dissociate_WriteTo wr w c =
     (case head_WriteTo wr w (di_head c) of
        (Some e, w1) \<Rightarrow> (Some e, w1)
      | (None, w1) \<Rightarrow> write_all wr w1 [put_u16 (di_ASSOC_ID c)])"

definition dissociate_BytesLen :: "Dissociate \<Rightarrow> nat" where
  "dissociate_BytesLen c = head_BytesLen (di_head c) + 4"

subsection \<open>Packets\<close>

record Packet =
  p_head :: CommandHead
  ASSOC_ID :: "16 word"
  PKT_ID :: "16 word"
  FRAG_TOTAL :: byte
  FRAG_ID :: byte
  SIZE :: "16 word"
  p_ADDR :: "Address option"
  p_DATA :: bytes
  owned :: bool

text \<open>\<open>releaseData\<close>: the packet afterwards and the slices handed to \<open>pool.Put\<close>.\<close>

definition releaseData :: "Packet \<Rightarrow> Packet \<times> bytes list" where
  "releaseData p = (if owned p then (p\<lparr>p_DATA := [], owned := False\<rparr>, [p_DATA p]) else (p, []))"

definition NewPacket ::
    "16 word \<Rightarrow> 16 word \<Rightarrow> byte \<Rightarrow> byte \<Rightarrow> 16 word \<Rightarrow> Address option \<Rightarrow> bytes \<Rightarrow> byte \<Rightarrow> Packet" where
  "NewPacket assoc pkt tot fid sz addr data ver =
     \<lparr>p_head = NewCommandHead PacketType ver, ASSOC_ID = assoc, PKT_ID = pkt, FRAG_TOTAL = tot,
      FRAG_ID = fid, SIZE = sz, p_ADDR = addr, p_DATA = data, owned = False\<rparr>"

definition ReadPacketWithHead :: "CommandHead \<Rightarrow> bytes \<Rightarrow> (go_error + Packet \<times> bytes) option" where
  "ReadPacketWithHead h bs =
     (if ch_TYPE h \<noteq> PacketType then Some (Inl (Err ''error command type: %s''))
      else
        case sum_bind (read_u16 bs) (\<lambda>(assoc, bs1).
             sum_bind (read_u16 bs1) (\<lambda>(pkt, bs2).
             sum_bind (read_u8 bs2) (\<lambda>(tot, bs3).
             sum_bind (read_u8 bs3) (\<lambda>(fid, bs4).
             sum_bind (read_u16 bs4) (\<lambda>(sz, bs5). Inr (assoc, pkt, tot, fid, sz, bs5)))))) of
          Inl e \<Rightarrow> Some (Inl e)
        | Inr (assoc, pkt, tot, fid, sz, bs5) \<Rightarrow> do {
            r \<leftarrow> ReadAddress bs5;
            Some (sum_bind r (\<lambda>(addr, bs6).
                  sum_bind (io_ReadFull (unat sz) bs6) (\<lambda>(data, bs7).
                  Inr (\<lparr>p_head = h, ASSOC_ID = assoc, PKT_ID = pkt, FRAG_TOTAL = tot, FRAG_ID = fid,
                        SIZE = sz, p_ADDR = addr, p_DATA = data, owned = False\<rparr>, bs7)))) })"

definition packet_BytesLen :: "Packet \<Rightarrow> nat option" where
  "packet_BytesLen c =
     map_option (\<lambda>a. head_BytesLen (p_head c) + 8 + addr_BytesLen a + length (p_DATA c)) (p_ADDR c)"

definition packet_WriteToBytes :: "Packet \<Rightarrow> bytes \<Rightarrow> (nat \<times> bytes) option" where
  "packet_WriteToBytes c b = do {
     (n0, b0) \<leftarrow> head_WriteToBytes (p_head c) b;
     b1 \<leftarrow> put_at b0 n0 (put_u16 (ASSOC_ID c));
     let n1 = n0 + 2;
     b2 \<leftarrow> put_at b1 n1 (put_u16 (PKT_ID c));
     let n2 = n1 + 2;
     b3 \<leftarrow> put_at b2 n2 [FRAG_TOTAL c];
     let n3 = n2 + 1;
     b4 \<leftarrow> put_at b3 n3 [FRAG_ID c];
     let n4 = n3 + 1;
     b5 \<leftarrow> put_at b4 n4 (put_u16 (SIZE c));
     let n5 = n4 + 2;
     a \<leftarrow> p_ADDR c;
     (k, b6) \<leftarrow> on_tail b5 n5 (addr_WriteToBytes a);
     let n6 = n5 + k;
     (m, b7) \<leftarrow> copy_at b6 n6 (p_DATA c);
     Some (n6 + m, b7) }"

text \<open>
  \<open>Packet.WriteTo\<close> into a pooled byte buffer, which has \<open>Extend\<close>: the packet is laid out in the
  extended part of the buffer's own array. For any other writer it goes through a scratch slice.
\<close>

definition packet_WriteTo_buffer :: "(nat \<Rightarrow> nat) \<Rightarrow> Packet \<Rightarrow> Buffer \<Rightarrow> Buffer option" where
  "packet_WriteTo_buffer sc c buf = do {
     let start = nat (buf_Len buf);
     n \<leftarrow> packet_BytesLen c;
     b1 \<leftarrow> buf_Extend sc buf (int n);
     view \<leftarrow> buf_Bytes b1;
     (_, view') \<leftarrow> on_tail view start (packet_WriteToBytes c);
     Some (b1\<lparr>arr := take (off b1) (arr b1) @ view' @ drop (blen b1) (arr b1)\<rparr>) }"

definition packet_WriteTo :: "'w bwriter \<Rightarrow> 'w \<Rightarrow> Packet \<Rightarrow> (go_error option \<times> 'w) option" where
  "packet_WriteTo wr w c = do {
     l \<leftarrow> packet_BytesLen c;
     (n, b) \<leftarrow> packet_WriteToBytes c (replicate l 0);
     s \<leftarrow> go_slice b 0 n;
     Some (wr w s) }"

subsection \<open>Parsing a datagram\<close>

definition malformedDatagramf :: "string \<Rightarrow> go_error" where
  "malformedDatagramf fmt = Err (''tuic: malformed datagram: '' @ fmt)"

definition readAddressFromSlice :: "bytes \<Rightarrow> go_error + Address \<times> nat" where
  "readAddressFromSlice msg =
     (if length msg < 1 then Inl (malformedDatagramf ''address type byte missing'')
      else
        let typ = msg ! 0;
            finish = (\<lambda>addr off.
              if length (drop off msg) < 2 then Inl (malformedDatagramf ''address port missing'')
              else Inr (\<lparr>a_TYPE = typ, a_ADDR = addr, a_PORT = u16_at msg off\<rparr>, off + 2)) in
        if typ = AtypIPv4 then
          if length (drop 1 msg) < 4 + 2 then Inl (malformedDatagramf ''ipv4 address too short'')
          else finish (go_copy (replicate 4 0) (drop 1 msg)) (1 + 4)
        else if typ = AtypIPv6 then
          if length (drop 1 msg) < 16 + 2 then Inl (malformedDatagramf ''ipv6 address too short'')
          else finish (go_copy (replicate 16 0) (drop 1 msg)) (1 + 16)
        else if typ = AtypDomainName then
          if length (drop 1 msg) < 1 then Inl (malformedDatagramf ''domain length byte missing'')
          else
            let addrLen = unat (msg ! 1) in
            if length (drop 1 msg) < 1 + addrLen + 2 then Inl (malformedDatagramf ''domain address too short'')
            else finish (word_of_nat addrLen # go_copy (replicate addrLen 0) (take addrLen (drop 2 msg)))
                   (1 + (1 + addrLen))
        else if typ = AtypNone then Inr (\<lparr>a_TYPE = typ, a_ADDR = [], a_PORT = 0\<rparr>, 1)
        else Inl (malformedDatagramf ''unknown address type: %#x''))"

text \<open>The pool hands out a slice of exactly \<open>size\<close> bytes, which the copy fills.\<close>

definition readPacketFromMessage :: "bytes \<Rightarrow> go_error + Packet" where
  "readPacketFromMessage msg =
     (if length msg < 10 then Inl (malformedDatagramf ''packet too short: %d bytes'')
      else if msg ! 1 \<noteq> PacketType then Inl (malformedDatagramf ''not a packet command: %s'')
      else
        let sz = u16_at msg 8 in
        sum_bind (readAddressFromSlice (drop 10 msg)) (\<lambda>(addr, n).
          let off = 10 + n;
              packet = (\<lambda>data own. \<lparr>p_head = \<lparr>ch_VER = msg ! 0, ch_TYPE = PacketType\<rparr>, ASSOC_ID = u16_at msg 2,
                PKT_ID = u16_at msg 4, FRAG_TOTAL = msg ! 6, FRAG_ID = msg ! 7, SIZE = sz,
                p_ADDR = Some addr, p_DATA = data, owned = own\<rparr>) in
          if sz > 0 then
            if length (drop off msg) < unat sz then Inl (malformedDatagramf ''data truncated: need %d have %d'')
            else Inr (packet (take (unat sz) (drop off msg)) True)
          else Inr (packet [] False)))"

subsection \<open>Parsing a stream\<close>

definition readAddressFromStream :: "bytes \<Rightarrow> go_error + Address \<times> bytes" where
  "readAddressFromStream r =
     sum_bind (io_ReadFull 1 r) (\<lambda>(typeByte, r1).
       let typ = typeByte ! 0 in
       if typ = AtypIPv4 then
         sum_bind (io_ReadFull (4 + 2) r1) (\<lambda>(rest, r2).
           Inr (\<lparr>a_TYPE = typ, a_ADDR = take 4 rest, a_PORT = u16_at rest 4\<rparr>, r2))
       else if typ = AtypIPv6 then
         sum_bind (io_ReadFull (16 + 2) r1) (\<lambda>(rest, r2).
           Inr (\<lparr>a_TYPE = typ, a_ADDR = take 16 rest, a_PORT = u16_at rest 16\<rparr>, r2))
       else if typ = AtypDomainName then
         sum_bind (io_ReadFull 1 r1) (\<lambda>(lenByte, r2).
           let addrLen = unat (lenByte ! 0) in
           sum_bind (io_ReadFull (addrLen + 2) r2) (\<lambda>(rest, r3).
             Inr (\<lparr>a_TYPE = typ, a_ADDR = lenByte ! 0 # go_copy (replicate addrLen 0) (take addrLen rest),
                   a_PORT = u16_at rest addrLen\<rparr>, r3)))
       else if typ = AtypNone then Inr (\<lparr>a_TYPE = typ, a_ADDR = [], a_PORT = 0\<rparr>, r1)
       else Inl (Err ''tuic: unknown address type: %#x''))"

definition readPacketFromStream :: "bytes \<Rightarrow> go_error + Packet \<times> bytes" where
  "readPacketFromStream r =
     sum_bind (io_ReadFull 10 r) (\<lambda>(head, r1).
       if head ! 1 \<noteq> PacketType then Inl (Err ''tuic: not a packet command: %s'')
       else
         let sz = u16_at head 8 in
         sum_bind (readAddressFromStream r1) (\<lambda>(addr, r2).
         sum_bind (if sz > 0 then io_ReadFull (unat sz) r2 else Inr ([], r2)) (\<lambda>(data, r3).
           Inr (\<lparr>p_head = \<lparr>ch_VER = head ! 0, ch_TYPE = PacketType\<rparr>, ASSOC_ID = u16_at head 2,
                 PKT_ID = u16_at head 4, FRAG_TOTAL = head ! 6, FRAG_ID = head ! 7, SIZE = sz,
                 p_ADDR = Some addr, p_DATA = data, owned = (sz > 0)\<rparr>, r3))))"

subsection \<open>The wire format\<close>

text \<open>What the serializers produce and which values they produce it for.\<close>

definition head_enc :: "CommandHead \<Rightarrow> bytes" where
  "head_enc h = [ch_VER h, ch_TYPE h]"

definition addr_enc :: "Address \<Rightarrow> bytes" where
  "addr_enc a = a_TYPE a # (if a_TYPE a = AtypNone then [] else a_ADDR a @ put_u16 (a_PORT a))"

definition addr_valid :: "Address \<Rightarrow> bool" where
  "addr_valid a \<longleftrightarrow>
     a_TYPE a = AtypIPv4 \<and> length (a_ADDR a) = 4 \<or>
     a_TYPE a = AtypIPv6 \<and> length (a_ADDR a) = 16 \<or>
     a_TYPE a = AtypDomainName \<and> a_ADDR a \<noteq> [] \<and> length (tl (a_ADDR a)) = unat (hd (a_ADDR a)) \<or>
     a_TYPE a = AtypNone \<and> a_ADDR a = [] \<and> a_PORT a = 0"

definition packet_enc :: "Packet \<Rightarrow> Address \<Rightarrow> bytes" where
  "packet_enc p a = head_enc (p_head p) @ put_u16 (ASSOC_ID p) @ put_u16 (PKT_ID p) @
     [FRAG_TOTAL p, FRAG_ID p] @ put_u16 (SIZE p) @ addr_enc a @ p_DATA p"

subsection \<open>The address codecs\<close>

definition addr_dec :: "bytes \<Rightarrow> go_error + Address \<times> bytes" where
  "addr_dec bs = sum_bind (readAddressFromSlice bs) (\<lambda>(a, n). Inr (a, drop n bs))"

lemma addr_valid_cases [consumes 1, case_names IPv4 IPv6 Domain None]:
  assumes "addr_valid a"
  obtains xs port where "a = \<lparr>a_TYPE = AtypIPv4, a_ADDR = xs, a_PORT = port\<rparr>" "length xs = 4"
  | xs port where "a = \<lparr>a_TYPE = AtypIPv6, a_ADDR = xs, a_PORT = port\<rparr>" "length xs = 16"
  | l xs port where "a = \<lparr>a_TYPE = AtypDomainName, a_ADDR = l # xs, a_PORT = port\<rparr>" "length xs = unat l"
  | "a = \<lparr>a_TYPE = AtypNone, a_ADDR = [], a_PORT = 0\<rparr>"
proof (cases a)
  case (fields ty xs port)
  with assms that show thesis by (cases xs) (auto simp: addr_valid_def)
qed

lemma u16_at_after: "length xs = n \<Longrightarrow> u16_at (xs @ put_u16 w @ rest) n = w"
  using u16_at_append [of xs "put_u16 w @ rest" 0] by simp

lemma addr_slice_enc:
  assumes "addr_valid a"
  shows "readAddressFromSlice (addr_enc a @ rest) = Inr (a, length (addr_enc a))"
  using assms
proof (cases rule: addr_valid_cases)
  case (IPv4 xs port)
  have "u16_at (AtypIPv4 # xs @ put_u16 port @ rest) 5 = port"
    using u16_at_after [of "AtypIPv4 # xs" 5] IPv4 by simp
  with IPv4 show ?thesis
    by (simp add: readAddressFromSlice_def addr_enc_def Atyp_defs go_copy_def)
next
  case (IPv6 xs port)
  have "u16_at (AtypIPv6 # xs @ put_u16 port @ rest) 17 = port"
    using u16_at_after [of "AtypIPv6 # xs" 17] IPv6 by simp
  with IPv6 show ?thesis
    by (simp add: readAddressFromSlice_def addr_enc_def Atyp_defs go_copy_def)
next
  case (Domain l xs port)
  have "u16_at (AtypDomainName # l # xs @ put_u16 port @ rest) (Suc (Suc (unat l))) = port"
    using u16_at_after [of "AtypDomainName # l # xs" "Suc (Suc (unat l))"] Domain by simp
  with Domain show ?thesis
    by (simp add: readAddressFromSlice_def addr_enc_def Atyp_defs go_copy_def)
next
  case None
  then show ?thesis by (simp add: readAddressFromSlice_def addr_enc_def Atyp_defs)
qed

lemma addr_slice_sound:
  assumes "readAddressFromSlice bs = Inr (a, n)"
  shows "addr_valid a \<and> n \<le> length bs \<and> bs = addr_enc a @ drop n bs"
proof -
  obtain t bs1 where bs: "bs = t # bs1" using assms by (cases bs) (simp_all add: readAddressFromSlice_def)
  have split: "bs1 = take k bs1 @ put_u16 (u16_at bs (Suc k)) @ drop (Suc (Suc k)) bs1" if "k + 2 \<le> length bs1" for k
  proof -
    have "u16_at bs (Suc k) = u16_at bs1 k" by (simp add: bs u16_at_def)
    with u16_at_drop [OF that] show ?thesis by (metis add_2_eq_Suc' append_take_drop_id)
  qed
  consider "t = AtypIPv4" | "t = AtypIPv6" | "t = AtypDomainName" | "t = AtypNone"
    using assms by (auto simp: readAddressFromSlice_def bs split: if_splits)
  then show ?thesis
  proof cases
    case 1
    with assms split [of 4] show ?thesis
      by (auto simp: readAddressFromSlice_def bs addr_valid_def addr_enc_def Atyp_defs go_copy_def split: if_splits)
  next
    case 2
    with assms split [of 16] show ?thesis
      by (auto simp: readAddressFromSlice_def bs addr_valid_def addr_enc_def Atyp_defs go_copy_def split: if_splits)
  next
    case 3
    then obtain l bs2 where bs1: "bs1 = l # bs2"
      using assms by (cases bs1) (auto simp: readAddressFromSlice_def bs Atyp_defs)
    from 3 assms have "length bs2 \<ge> unat l + 2"
      by (auto simp: readAddressFromSlice_def Let_def bs bs1 Atyp_defs split: if_splits)
    with 3 assms split [of "Suc (unat l)"] show ?thesis
      by (auto simp: readAddressFromSlice_def Let_def bs bs1 addr_valid_def addr_enc_def Atyp_defs
          go_copy_def split: if_splits)
  next
    case 4
    with assms show ?thesis
      by (auto simp: readAddressFromSlice_def bs addr_valid_def addr_enc_def Atyp_defs)
  qed
qed

interpretation addr_slice: exact_codec addr_valid addr_enc addr_dec
proof (unfold_locales, goal_cases)
  case (1 a rest)
  then show ?case by (simp add: addr_dec_def addr_slice_enc)
next
  case (2 bs a rest)
  then show ?case using addr_slice_sound [of bs] by (auto simp: addr_dec_def sum_bind_Inr)
qed

lemma addr_stream_enc:
  assumes "addr_valid a"
  shows "readAddressFromStream (addr_enc a @ rest) = Inr (a, rest)"
  using assms
proof (cases rule: addr_valid_cases)
  case (IPv4 xs port)
  with u16_at_after [of xs 4 port "[]"] io_ReadFull_append [of "xs @ put_u16 port" 6 rest] show ?thesis
    by (simp add: readAddressFromStream_def addr_enc_def Atyp_defs io_ReadFull_def)
next
  case (IPv6 xs port)
  with u16_at_after [of xs 16 port "[]"] io_ReadFull_append [of "xs @ put_u16 port" 18 rest] show ?thesis
    by (simp add: readAddressFromStream_def addr_enc_def Atyp_defs io_ReadFull_def)
next
  case (Domain l xs port)
  with u16_at_after [of xs "unat l" port "[]"] io_ReadFull_append [of "xs @ put_u16 port" "unat l + 2" rest]
  show ?thesis
    by (simp add: readAddressFromStream_def addr_enc_def Atyp_defs io_ReadFull_def go_copy_def)
next
  case None
  then show ?thesis by (simp add: readAddressFromStream_def addr_enc_def Atyp_defs io_ReadFull_def)
qed

lemma addr_stream_sound:
  assumes "readAddressFromStream r = Inr (a, rest)"
  shows "addr_valid a \<and> r = addr_enc a @ rest"
proof -
  obtain t r1 where r: "r = t # r1"
    using assms by (cases r) (auto simp: readAddressFromStream_def io_ReadFull_def)
  have split: "bs = take k bs @ put_u16 (u16_at bs k)" if "length bs = k + 2" for k bs
    using u16_at_drop [of k bs] that by (metis append_Nil2 append_take_drop_id drop_all order_refl)
  consider "t = AtypIPv4" | "t = AtypIPv6" | "t = AtypDomainName" | "t = AtypNone"
    using assms by (auto simp: readAddressFromStream_def r io_ReadFull_def split: if_splits)
  then show ?thesis
  proof cases
    case 1
    with assms obtain bs where "length bs = 6" "r1 = bs @ rest"
        "a = \<lparr>a_TYPE = AtypIPv4, a_ADDR = take 4 bs, a_PORT = u16_at bs 4\<rparr>"
      by (auto simp: readAddressFromStream_def r io_ReadFull_Inr sum_bind_Inr)
    with 1 split [of bs 4] show ?thesis by (simp add: r addr_valid_def addr_enc_def Atyp_defs)
  next
    case 2
    with assms obtain bs where "length bs = 18" "r1 = bs @ rest"
        "a = \<lparr>a_TYPE = AtypIPv6, a_ADDR = take 16 bs, a_PORT = u16_at bs 16\<rparr>"
      by (auto simp: readAddressFromStream_def r io_ReadFull_Inr sum_bind_Inr Atyp_defs)
    with 2 split [of bs 16] show ?thesis by (simp add: r addr_valid_def addr_enc_def Atyp_defs)
  next
    case 3
    with assms obtain l bs where "length bs = unat l + 2" "r1 = l # bs @ rest"
        "a = \<lparr>a_TYPE = AtypDomainName, a_ADDR = l # take (unat l) bs, a_PORT = u16_at bs (unat l)\<rparr>"
      by (cases r1) (auto simp: readAddressFromStream_def r io_ReadFull_Inr sum_bind_Inr Atyp_defs
          Let_def go_copy_def)
    with 3 split [of bs "unat l"] show ?thesis by (simp add: r addr_valid_def addr_enc_def Atyp_defs)
  next
    case 4
    with assms show ?thesis
      by (auto simp: readAddressFromStream_def r io_ReadFull_def addr_valid_def addr_enc_def Atyp_defs)
  qed
qed

interpretation addr_stream: exact_codec addr_valid addr_enc readAddressFromStream
  by unfold_locales (simp_all add: addr_stream_enc addr_stream_sound)

subsection \<open>The packet codecs\<close>

definition packet_valid :: "Packet \<times> Address \<Rightarrow> bool" where
  "packet_valid = (\<lambda>(p, a). ch_TYPE (p_head p) = PacketType \<and> p_ADDR p = Some a \<and> addr_valid a \<and>
     length (p_DATA p) = unat (SIZE p) \<and> owned p = (SIZE p > 0))"

text \<open>Both packet parsers as decoders of a byte string into the packet, its address and the rest.\<close>

definition packet_msg_dec :: "bytes \<Rightarrow> go_error + (Packet \<times> Address) \<times> bytes" where
  "packet_msg_dec bs = sum_bind (readPacketFromMessage bs) (\<lambda>p.
     Inr ((p, the (p_ADDR p)), drop (length (packet_enc p (the (p_ADDR p)))) bs))"

definition packet_stream_dec :: "bytes \<Rightarrow> go_error + (Packet \<times> Address) \<times> bytes" where
  "packet_stream_dec bs = sum_bind (readPacketFromStream bs) (\<lambda>(p, rest). Inr ((p, the (p_ADDR p)), rest))"

text \<open>The ten bytes before the address.\<close>

definition fixed_enc :: "byte \<Rightarrow> 16 word \<Rightarrow> 16 word \<Rightarrow> byte \<Rightarrow> byte \<Rightarrow> 16 word \<Rightarrow> bytes" where
  "fixed_enc ver assoc pkt tot fid sz =
     [ver, PacketType] @ put_u16 assoc @ put_u16 pkt @ [tot, fid] @ put_u16 sz"

lemma length_fixed_enc [simp]: "length (fixed_enc ver assoc pkt tot fid sz) = 10"
  by (simp add: fixed_enc_def)

lemma fixed_enc_fields:
  fixes ver assoc pkt tot fid sz
  defines "h \<equiv> fixed_enc ver assoc pkt tot fid sz"
  shows "(h @ xs) ! 0 = ver" "(h @ xs) ! Suc 0 = PacketType" "u16_at (h @ xs) 2 = assoc" "u16_at (h @ xs) 4 = pkt"
    "(h @ xs) ! 6 = tot" "(h @ xs) ! 7 = fid" "u16_at (h @ xs) 8 = sz"
  by (simp_all add: h_def fixed_enc_def put_u16_def u16_at_def)

lemma fixed_enc_split:
  assumes "10 \<le> length bs" "bs ! 1 = PacketType"
  shows "bs = fixed_enc (bs ! 0) (u16_at bs 2) (u16_at bs 4) (bs ! 6) (bs ! 7) (u16_at bs 8) @ drop 10 bs"
proof -
  obtain b0 b1 b2 b3 b4 b5 b6 b7 b8 b9 rest where "bs = [b0,b1,b2,b3,b4,b5,b6,b7,b8,b9] @ rest"
    using assms(1) by (auto simp: numeral_eq_Suc Suc_le_length_iff)
  with assms(2) show ?thesis by (simp add: fixed_enc_def u16_at_def put_get_u16)
qed

lemma packet_enc_fixed:
  "ch_TYPE (p_head p) = PacketType \<Longrightarrow> packet_enc p a =
     fixed_enc (ch_VER (p_head p)) (ASSOC_ID p) (PKT_ID p) (FRAG_TOTAL p) (FRAG_ID p) (SIZE p) @ addr_enc a @ p_DATA p"
  by (simp add: packet_enc_def fixed_enc_def head_enc_def)

text \<open>A packet as the parsers build it.\<close>

definition parsed :: "byte \<Rightarrow> 16 word \<Rightarrow> 16 word \<Rightarrow> byte \<Rightarrow> byte \<Rightarrow> 16 word \<Rightarrow> Address \<Rightarrow> bytes \<Rightarrow> Packet" where
  "parsed ver assoc pkt tot fid sz a data =
     \<lparr>p_head = \<lparr>ch_VER = ver, ch_TYPE = PacketType\<rparr>, ASSOC_ID = assoc, PKT_ID = pkt, FRAG_TOTAL = tot,
      FRAG_ID = fid, SIZE = sz, p_ADDR = Some a, p_DATA = data, owned = (sz > 0)\<rparr>"

lemma packet_enc_parsed [simp]:
  "packet_enc (parsed ver assoc pkt tot fid sz a data) a = fixed_enc ver assoc pkt tot fid sz @ addr_enc a @ data"
  by (simp add: parsed_def packet_enc_fixed)

lemma packet_valid_parsed [simp]:
  "packet_valid (parsed ver assoc pkt tot fid sz a data, a') \<longleftrightarrow> a' = a \<and> addr_valid a \<and> length data = unat sz"
  by (auto simp: packet_valid_def parsed_def)

lemma packet_valid_cases:
  assumes "packet_valid (p, a)"
  obtains ver assoc pkt tot fid sz data where "p = parsed ver assoc pkt tot fid sz a data"
    "addr_valid a" "length data = unat sz"
proof (cases p)
  case (fields h assoc pkt tot fid sz ad data own)
  with assms that [of "ch_VER h" assoc pkt tot fid sz data] show thesis
    by (cases h) (auto simp: packet_valid_def parsed_def)
qed

lemma size_zero: "\<not> 0 < (sz :: 16 word) \<Longrightarrow> unat sz = 0"
  by (simp add: word_greater_zero_iff)

lemma readPacketFromMessage_fixed:
  "readPacketFromMessage (fixed_enc ver assoc pkt tot fid sz @ xs) =
     sum_bind (readAddressFromSlice xs) (\<lambda>(a, n).
       if length (drop n xs) < unat sz then Inl (malformedDatagramf ''data truncated: need %d have %d'')
       else Inr (parsed ver assoc pkt tot fid sz a (take (unat sz) (drop n xs))))"
  by (cases "sz > 0"; cases "readAddressFromSlice xs")
    (auto simp: readPacketFromMessage_def fixed_enc_fields parsed_def Let_def size_zero
       simp del: not_gr_zero)

lemma packet_msg_enc: "packet_valid (p, a) \<Longrightarrow> readPacketFromMessage (packet_enc p a @ rest) = Inr p"
  by (elim packet_valid_cases) (simp add: readPacketFromMessage_fixed addr_slice_enc)

lemma packet_msg_sound:
  assumes "readPacketFromMessage bs = Inr p"
  shows "\<exists>a rest. packet_valid (p, a) \<and> bs = packet_enc p a @ rest"
proof -
  have b: "10 \<le> length bs" "bs ! 1 = PacketType"
    using assms by (auto simp: readPacketFromMessage_def split: if_splits)
  then obtain ver assoc pkt tot fid sz xs where bs: "bs = fixed_enc ver assoc pkt tot fid sz @ xs"
    using fixed_enc_split by blast
  from assms obtain a n where a: "readAddressFromSlice xs = Inr (a, n)"
      "unat sz \<le> length (drop n xs)" "p = parsed ver assoc pkt tot fid sz a (take (unat sz) (drop n xs))"
    unfolding bs readPacketFromMessage_fixed by (auto simp: sum_bind_Inr split: if_splits)
  from addr_slice_sound [OF a(1)] have "addr_valid a" "xs = addr_enc a @ drop n xs" by simp_all
  moreover have "drop n xs = take (unat sz) (drop n xs) @ drop (unat sz) (drop n xs)"
    by (rule append_take_drop_id [symmetric])
  ultimately have "packet_valid (p, a)" "bs = packet_enc p a @ drop (unat sz) (drop n xs)"
    using a(2,3) by (simp_all add: bs)
  then show ?thesis by blast
qed

interpretation packet_msg: exact_codec packet_valid "\<lambda>(p, a). packet_enc p a" packet_msg_dec
proof (unfold_locales, goal_cases)
  case (1 pa rest)
  then show ?case by (cases pa) (auto simp: packet_msg_dec_def packet_msg_enc packet_valid_def)
next
  case (2 bs pa rest)
  then obtain p where p: "readPacketFromMessage bs = Inr p" "pa = (p, the (p_ADDR p))"
      "rest = drop (length (packet_enc p (the (p_ADDR p)))) bs"
    by (auto simp: packet_msg_dec_def sum_bind_Inr)
  obtain a r where "packet_valid (p, a)" "bs = packet_enc p a @ r" using packet_msg_sound [OF p(1)] by blast
  with p show ?case by (auto simp: packet_valid_def)
qed

lemma readPacketFromStream_fixed:
  "readPacketFromStream (fixed_enc ver assoc pkt tot fid sz @ xs) =
     sum_bind (readAddressFromStream xs) (\<lambda>(a, r).
     sum_bind (io_ReadFull (unat sz) r) (\<lambda>(data, rest).
       Inr (parsed ver assoc pkt tot fid sz a data, rest)))"
  by (cases "sz > 0"; cases "readAddressFromStream xs")
    (auto simp: readPacketFromStream_def fixed_enc_fields [where xs = "[]", simplified] parsed_def Let_def
       size_zero simp del: not_gr_zero)

lemma packet_stream_enc: "packet_valid (p, a) \<Longrightarrow> readPacketFromStream (packet_enc p a @ rest) = Inr (p, rest)"
  by (elim packet_valid_cases) (simp add: readPacketFromStream_fixed addr_stream_enc)

lemma packet_stream_sound:
  assumes "readPacketFromStream bs = Inr (p, rest)"
  shows "\<exists>a. packet_valid (p, a) \<and> bs = packet_enc p a @ rest"
proof -
  obtain h r1 where h: "length h = 10" "bs = h @ r1" "h ! 1 = PacketType"
    using assms by (auto simp: readPacketFromStream_def sum_bind_Inr io_ReadFull_Inr split: if_splits)
  then obtain ver assoc pkt tot fid sz where bs: "bs = fixed_enc ver assoc pkt tot fid sz @ r1"
    using fixed_enc_split [of h] by auto
  from assms obtain a r2 data where "readAddressFromStream r1 = Inr (a, r2)"
      "io_ReadFull (unat sz) r2 = Inr (data, rest)" "p = parsed ver assoc pkt tot fid sz a data"
    unfolding bs readPacketFromStream_fixed by (auto simp: sum_bind_Inr)
  then show ?thesis
    using addr_stream_sound [of r1 a r2] by (auto simp: bs io_ReadFull_Inr intro!: exI [of _ a])
qed

interpretation packet_stream: exact_codec packet_valid "\<lambda>(p, a). packet_enc p a" packet_stream_dec
proof (unfold_locales, goal_cases)
  case (1 pa rest)
  then show ?case by (cases pa) (auto simp: packet_stream_dec_def packet_stream_enc packet_valid_def)
next
  case (2 bs pa rest)
  then obtain p where p: "readPacketFromStream bs = Inr (p, rest)" "pa = (p, the (p_ADDR p))"
    by (auto simp: packet_stream_dec_def sum_bind_Inr)
  with packet_stream_sound [OF p(1)] show ?case by (auto simp: packet_valid_def)
qed

subsection \<open>Serializing\<close>

lemma length_addr_enc [simp]: "length (addr_enc a) = addr_BytesLen a"
  by (simp add: addr_enc_def addr_BytesLen_def)

lemma addr_WriteToBytes_ok:
  assumes "addr_BytesLen a \<le> length b"
  shows "addr_WriteToBytes a b = Some (addr_BytesLen a, addr_enc a @ drop (addr_BytesLen a) b)"
proof -
  obtain x b1 where b: "b = x # b1" using assms by (cases b) (auto simp: addr_BytesLen_def split: if_splits)
  show ?thesis
  proof (cases "a_TYPE a = AtypNone")
    case True
    then show ?thesis by (simp add: addr_WriteToBytes_def b put_at_def addr_enc_def addr_BytesLen_def)
  next
    case False
    let ?n = "length (a_ADDR a)"
    from False assms have l: "?n + 2 \<le> length b1" by (simp add: b addr_BytesLen_def)
    have "copy_at (a_TYPE a # b1) 1 (a_ADDR a) = Some (?n, a_TYPE a # a_ADDR a @ drop ?n b1)"
      using copy_at_front [of "[a_TYPE a]" 1 "a_ADDR a" b1] l by simp
    moreover have "put_at (a_TYPE a # a_ADDR a @ drop ?n b1) (1 + ?n) (put_u16 (a_PORT a)) =
        Some (a_TYPE a # a_ADDR a @ put_u16 (a_PORT a) @ drop (?n + 2) b1)"
      using put_at_front [of "a_TYPE a # a_ADDR a" "1 + ?n" "put_u16 (a_PORT a)" "drop ?n b1"] l
      by (simp add: add.commute)
    ultimately show ?thesis
      using False by (simp add: addr_WriteToBytes_def b put_at_def addr_enc_def addr_BytesLen_def)
  qed
qed

lemma packet_WriteToBytes_ok:
  assumes "p_ADDR p = Some a" "length (packet_enc p a) \<le> length b"
  shows "packet_WriteToBytes p b = Some (length (packet_enc p a), packet_enc p a @ drop (length (packet_enc p a)) b)"
proof -
  let ?k = "addr_BytesLen a" and ?d = "length (p_DATA p)"
  have len: "length (packet_enc p a) = 10 + ?k + ?d" by (simp add: packet_enc_def head_enc_def)
  then obtain b0 b1 b2 b3 b4 b5 b6 b7 b8 b9 r where b: "b = [b0,b1,b2,b3,b4,b5,b6,b7,b8,b9] @ r"
    using assms(2) by (auto simp: numeral_eq_Suc Suc_le_length_iff)
  define h where "h = head_enc (p_head p) @ put_u16 (ASSOC_ID p) @ put_u16 (PKT_ID p) @
    [FRAG_TOTAL p, FRAG_ID p] @ put_u16 (SIZE p)"
  have h: "length h = 10" by (simp add: h_def head_enc_def)
  have l: "?k + ?d \<le> length r" using assms(2) b len by simp
  have "on_tail (h @ r) 10 (addr_WriteToBytes a) = Some (?k, h @ addr_enc a @ drop ?k r)"
    using on_tail_front [OF h, of r "addr_WriteToBytes a"] addr_WriteToBytes_ok [of a r] l by simp
  moreover have "copy_at (h @ addr_enc a @ drop ?k r) (10 + ?k) (p_DATA p) =
      Some (?d, h @ addr_enc a @ p_DATA p @ drop (?k + ?d) r)"
    using copy_at_front [of "h @ addr_enc a" "10 + ?k" "p_DATA p" "drop ?k r"] h l by (simp add: add.commute)
  moreover have "packet_WriteToBytes p b =
      do { (k, b6) \<leftarrow> on_tail (h @ r) 10 (addr_WriteToBytes a);
           (m, b7) \<leftarrow> copy_at b6 (10 + k) (p_DATA p); Some (10 + k + m, b7) }"
    using assms(1) by (simp add: packet_WriteToBytes_def b head_WriteToBytes_def put_at_def put_u16_def h_def head_enc_def)
      (simp add: numeral_eq_Suc)
  moreover have "packet_enc p a = h @ addr_enc a @ p_DATA p" by (simp add: packet_enc_def h_def)
  moreover have "drop (10 + ?k + ?d) b = drop (?k + ?d) r" by (simp add: b numeral_eq_Suc)
  ultimately show ?thesis unfolding len by simp
qed

lemma packet_WriteTo_buffer_ok:
  assumes "p_ADDR p = Some a" "buf_inv b" "buf_fits b (length (packet_enc p a))" "sc_ok sc"
  shows "\<exists>b'. packet_WriteTo_buffer sc p b = Some b' \<and> buf_inv b' \<and> unread b' = unread b @ packet_enc p a"
proof -
  let ?n = "length (packet_enc p a)"
  obtain m b1 where e: "buf_extend sc b (int ?n) = Some (m, b1)" "buf_room b ?n m b1"
    using buf_extend_ok [OF assms(2-4)] by blast
  from e(2) have r: "buf_inv b1" "blen b1 = m + ?n" "off b1 \<le> m" "blen b1 \<le> length (arr b1)"
      "drop (off b1) (take m (arr b1)) = unread b" by (simp_all add: buf_room_def buf_inv_def)
  define tl where "tl = drop m (take (blen b1) (arr b1))"
  have tl: "length tl = ?n" using r(2,4) by (simp add: tl_def)
  have u: "unread b1 = unread b @ tl"
    using r(2,3,4) by (simp add: unread_def [of b1] tl_def take_add drop_take flip: r(5))
  have "packet_BytesLen p = Some ?n"
    using assms(1) by (simp add: packet_BytesLen_def packet_enc_def head_enc_def head_BytesLen_def)
  moreover have "on_tail (unread b1) (nat (buf_Len b)) (packet_WriteToBytes p) = Some (?n, unread b @ packet_enc p a)"
    using packet_WriteToBytes_ok [OF assms(1), of tl] on_tail_front [of "unread b" _ tl] tl u
      buf_Len_unread [OF assms(2)] by simp
  ultimately have w: "packet_WriteTo_buffer sc p b =
      Some (b1\<lparr>arr := take (off b1) (arr b1) @ (unread b @ packet_enc p a) @ drop (blen b1) (arr b1)\<rparr>)"
    using e(1) buf_Bytes_unread [OF r(1)] by (simp add: packet_WriteTo_buffer_def buf_Extend_def)
  have "length (unread b) = m - off b1" using r(3,4,2) by (simp flip: r(5))
  with w r show ?thesis by (auto simp: buf_inv_def unread_def [of "b1\<lparr>arr := _\<rparr>"])
qed

lemma write_all_list: "write_all (\<lambda>w xs. (None, w @ xs)) w xss = (None, w @ concat xss)"
  by (induction xss arbitrary: w) simp_all

lemma addr_WriteTo_list: "addr_WriteTo (\<lambda>w xs. (None, w @ xs)) w a = (None, w @ addr_enc a)"
  by (simp add: addr_WriteTo_def write_all_list addr_enc_def)

subsection \<open>Properties of the wire format\<close>

text \<open>
  C17: The datagram parser accepts exactly the byte strings that start with the encoding of a
  well-formed packet, and the stream parser accepts the same packets from the same bytes,
  leaving exactly what follows them: neither parser misreads, and truncated or malformed
  input is rejected by both.
\<close>

theorem tuic_parsers_exact:
  "(readPacketFromMessage bs = Inr p \<longleftrightarrow> (\<exists>a rest. packet_valid (p, a) \<and> bs = packet_enc p a @ rest)) \<and>
   (readPacketFromStream bs = Inr (p, rest) \<longleftrightarrow> (\<exists>a. packet_valid (p, a) \<and> bs = packet_enc p a @ rest))"
proof
  show "readPacketFromMessage bs = Inr p \<longleftrightarrow> (\<exists>a rest. packet_valid (p, a) \<and> bs = packet_enc p a @ rest)"
    using packet_msg_sound [of bs p] packet_msg_enc [of p] by blast
  show "readPacketFromStream bs = Inr (p, rest) \<longleftrightarrow> (\<exists>a. packet_valid (p, a) \<and> bs = packet_enc p a @ rest)"
    using packet_stream_sound [of bs p rest] packet_stream_enc [of p] by blast
qed

text \<open>
  C19: A packet with a well-formed address and a matching size, serialized into a pooled
  buffer, is appended after what the buffer holds, takes exactly \<open>BytesLen\<close> bytes, and the
  datagram parser gives it back field by field.
\<close>

theorem tuic_packet_round_trip:
  fixes assoc pkt tot fid ver
  assumes "buf_inv b" "\<forall>c. c \<le> sc c" "addr_valid a" "length data = unat sz"
    and "2 * int (length (arr b)) + int (10 + addr_BytesLen a + length data) \<le> maxInt"
  defines "p \<equiv> NewPacket assoc pkt tot fid sz (Some a) data ver"
  shows "\<exists>b' w. packet_WriteTo_buffer sc p b = Some b' \<and> buf_inv b' \<and> unread b' = unread b @ w \<and>
    packet_BytesLen p = Some (length w) \<and>
    readPacketFromMessage w = Inr (p\<lparr>owned := data \<noteq> []\<rparr>)"
proof -
  let ?q = "parsed ver assoc pkt tot fid sz a data"
  have enc: "packet_enc p a = packet_enc ?q a" and pa: "p_ADDR p = Some a" and sz: "0 < sz \<longleftrightarrow> data \<noteq> []"
    using assms(4) by (auto simp: p_def NewPacket_def NewCommandHead_def packet_enc_fixed word_greater_zero_iff
        unat_eq_0 simp flip: length_0_conv)
  have len: "length (packet_enc p a) = 10 + addr_BytesLen a + length data" by (simp add: enc)
  have "readPacketFromMessage (packet_enc p a) = Inr ?q"
    using packet_msg_enc [of ?q a "[]"] assms(3,4) by (simp add: enc)
  moreover have "?q = p\<lparr>owned := data \<noteq> []\<rparr>"
    by (simp add: parsed_def p_def NewPacket_def NewCommandHead_def sz)
  moreover have "packet_BytesLen p = Some (length (packet_enc p a))"
    unfolding len by (simp add: p_def NewPacket_def packet_BytesLen_def head_BytesLen_def)
  moreover have "buf_fits b (length (packet_enc p a))" "sc_ok sc"
    using assms(2,5) by (simp_all add: buf_fits_def sc_ok_def len)
  ultimately show ?thesis using packet_WriteTo_buffer_ok [OF pa assms(1)] by fastforce
qed

theorem tuic_packet_round_trip_witness:
  "\<exists>b' w. packet_WriteTo_buffer (\<lambda>c. c) (NewPacket 1 2 1 0 3
       (Some \<lparr>a_TYPE = AtypIPv4, a_ADDR = [10,0,0,1], a_PORT = 53\<rparr>) [7,8,9] 5) (NewBuffer [] 0 True) = Some b' \<and>
     unread b' = w \<and> readPacketFromMessage w = Inr ((NewPacket 1 2 1 0 3
       (Some \<lparr>a_TYPE = AtypIPv4, a_ADDR = [10,0,0,1], a_PORT = 53\<rparr>) [7,8,9] 5)\<lparr>owned := True\<rparr>)"
  using tuic_packet_round_trip [of "NewBuffer [] 0 True" "\<lambda>c. c"
      "\<lparr>a_TYPE = AtypIPv4, a_ADDR = [10,0,0,1], a_PORT = 53\<rparr>" "[7,8,9]" 3 1 2 1 0 5]
  by (auto simp: NewBuffer_def buf_inv_def unread_def [of "\<lparr>arr = _, blen = _, off = _, lastRead = _, isNil = _\<rparr>"]
      maxInt_def opInvalid_def addr_valid_def addr_BytesLen_def Atyp_defs)

text \<open>
  C34: Every address the client builds from a valid socket address is well-formed, goes
  through both address parsers unchanged, whatever follows it, and turns back into the same
  socket address without its zone, with IPv4-mapped IPv6 addresses as IPv4.
\<close>

theorem tuic_address_round_trip:
  fixes port
  assumes "case a of NoAddr \<Rightarrow> False | Addr4 s \<Rightarrow> length s = 4 | Addr6 s z \<Rightarrow> length s = 16"
  defines "c \<equiv> NewAddressAddrPort (a, port)"
  shows "readAddressFromSlice (addr_enc c @ rest) = Inr (c, addr_BytesLen c) \<and>
    readAddressFromStream (addr_enc c @ rest) = Inr (c, rest) \<and>
    addr_WriteTo (\<lambda>w xs. (None, w @ xs)) [] c = (None, addr_enc c) \<and>
    addr_UDPAddrPort c = (netip_WithoutZone (netip_Unmap a), port)"
proof -
  have v: "addr_valid c" "addr_UDPAddrPort c = (netip_WithoutZone (netip_Unmap a), port)"
    using assms(1) by (auto simp: c_def NewAddressAddrPort_def addr_valid_def addr_UDPAddrPort_def
        addr_UDPAddr_AddrPort_def AddrFromSlice_def split: netip_addr.splits)
  with addr_slice_enc [OF v(1), of rest] addr_stream_enc [OF v(1), of rest] addr_WriteTo_list [of "[]" c]
  show ?thesis by simp
qed

theorem tuic_address_round_trip_witness:
  "addr_UDPAddrPort (NewAddressAddrPort (Addr6 (replicate 10 0 @ [255, 255, 1, 2, 3, 4]) [], 80)) = (Addr4 [1, 2, 3, 4], 80)"
  using tuic_address_round_trip [of "Addr6 (replicate 10 0 @ [255, 255, 1, 2, 3, 4]) []" 80 "[]"]
  by (simp add: v4in6Prefix_def numeral_eq_Suc)

lemma ReadAddress_enc:
  assumes "addr_valid a"
  shows "ReadAddress (addr_enc a @ rest) =
    (if a_TYPE a = AtypDomainName \<and> hd (a_ADDR a) = 255 then None
     else Some (Inr (if a_TYPE a = AtypNone then None else Some a, rest)))"
  using assms
proof (cases rule: addr_valid_cases)
  case (IPv4 xs port)
  with io_ReadFull_append [of xs 4 "put_u16 port @ rest"] show ?thesis
    by (simp add: ReadAddress_def addr_enc_def Atyp_defs)
next
  case (IPv6 xs port)
  with io_ReadFull_append [of xs 16 "put_u16 port @ rest"] show ?thesis
    by (simp add: ReadAddress_def addr_enc_def Atyp_defs)
next
  case (Domain l xs port)
  have "(255 :: byte) = - 1" by code_simp
  then have "l = 255 \<longleftrightarrow> 1 + l = 0" unfolding add_eq_0_iff by (rule arg_cong)
  then have "unat (l + 1) = (if l = 255 then 0 else unat l + 1)" using unatSuc [of l] by (simp add: add.commute)
  with Domain io_ReadFull_append [of xs "unat l" "put_u16 port @ rest"] show ?thesis
    by (simp add: ReadAddress_def addr_enc_def Atyp_defs Let_def)
next
  case None
  then show ?thesis by (simp add: ReadAddress_def addr_enc_def Atyp_defs)
qed

text \<open>
  C40: The third packet parser, which reads a stream after the command head, agrees with the other two on every
  encoding of a well-formed packet, up to what they do with the packet: its data is not a pooled slice, and the
  address of type \<open>None\<close> is nil. The one exception is a domain name of 255 bytes, on which it panics.
\<close>

theorem tuic_reader_parser:
  assumes "packet_valid (p, a)"
  shows "ReadPacketWithHead (p_head p) (drop 2 (packet_enc p a @ rest)) =
    (if a_TYPE a = AtypDomainName \<and> hd (a_ADDR a) = 255 then None
     else Some (Inr (p\<lparr>p_ADDR := if a_TYPE a = AtypNone then None else Some a, owned := False\<rparr>, rest)))"
  using assms
proof (cases rule: packet_valid_cases)
  case (1 ver assoc pkt tot fid sz data)
  show ?thesis
    using ReadAddress_enc [OF 1(2), of "data @ rest"] io_ReadFull_append [of data "unat sz" rest] 1(3)
    by (simp add: 1(1) fixed_enc_def ReadPacketWithHead_def) (simp add: parsed_def)
qed

theorem tuic_reader_parser_witness:
  "ReadPacketWithHead \<lparr>ch_VER = 5, ch_TYPE = PacketType\<rparr> [0, 1, 0, 2, 1, 0, 0, 2, 1, 10, 0, 0, 1, 0, 53, 7, 8, 9] =
    Some (Inr (NewPacket 1 2 1 0 2 (Some \<lparr>a_TYPE = AtypIPv4, a_ADDR = [10, 0, 0, 1], a_PORT = 53\<rparr>) [7, 8] 5, [9]))"
proof -
  let ?a = "\<lparr>a_TYPE = AtypIPv4, a_ADDR = [10, 0, 0, 1], a_PORT = 53\<rparr>"
  let ?p = "parsed 5 1 2 1 0 2 ?a [7, 8]"
  have v: "packet_valid (?p, ?a)" by (simp add: addr_valid_def)
  have "drop 2 (packet_enc ?p ?a @ [9]) = [0, 1, 0, 2, 1, 0, 0, 2, 1, 10, 0, 0, 1, 0, 53, 7, 8, 9]"
    unfolding packet_enc_parsed by code_simp
  with tuic_reader_parser [OF v, of "[9]"] show ?thesis
    by (simp add: Atyp_defs parsed_def NewPacket_def NewCommandHead_def)
qed

text \<open>
  The reader-based parser disagrees with the other two on a domain name of 255 bytes: the
  slice length is computed in a byte, wraps to zero, and the parser panics, whereas the
  datagram parser accepts the address. It also accepts unknown address types, which the
  others reject.
\<close>

lemma tuic_ReadAddress_panics:
  assumes "length name = 255"
  shows "ReadAddress (AtypDomainName # 255 # name @ put_u16 port @ rest) = None \<and>
    readAddressFromSlice (AtypDomainName # 255 # name @ put_u16 port @ rest) =
      Inr (\<lparr>a_TYPE = AtypDomainName, a_ADDR = 255 # name, a_PORT = port\<rparr>, 259) \<and>
    ReadAddress (3 # put_u16 port @ rest) = Some (Inr (Some \<lparr>a_TYPE = 3, a_ADDR = [], a_PORT = port\<rparr>, rest))"
proof (intro conjI)
  show "ReadAddress (AtypDomainName # 255 # name @ put_u16 port @ rest) = None"
    by (simp add: ReadAddress_def Atyp_defs Let_def)
  have "addr_valid \<lparr>a_TYPE = AtypDomainName, a_ADDR = 255 # name, a_PORT = port\<rparr>"
    using assms by (simp add: addr_valid_def)
  from addr_slice_enc [OF this, of rest] assms
  show "readAddressFromSlice (AtypDomainName # 255 # name @ put_u16 port @ rest) =
      Inr (\<lparr>a_TYPE = AtypDomainName, a_ADDR = 255 # name, a_PORT = port\<rparr>, 259)"
    by (simp add: addr_enc_def addr_BytesLen_def Atyp_defs)
  show "ReadAddress (3 # put_u16 port @ rest) = Some (Inr (Some \<lparr>a_TYPE = 3, a_ADDR = [], a_PORT = port\<rparr>, rest))"
    by (simp add: ReadAddress_def Atyp_defs Let_def)
qed

lemma tuic_ReadAddress_panics_witness:
  "ReadAddress (AtypDomainName # 255 # replicate 255 97 @ put_u16 443 @ []) = None"
  using tuic_ReadAddress_panics [of "replicate 255 97" 443 "[]"] by simp

text \<open>
  \<open>UDPAddrPort\<close> is documented to give an invalid address for a domain. The domain bytes keep
  their length byte, so a domain of three characters fills four bytes and is returned as a
  valid IPv4 address.
\<close>

lemma tuic_domain_as_IPv4:
  "addr_valid \<lparr>a_TYPE = AtypDomainName, a_ADDR = [3, x, y, z], a_PORT = port\<rparr> \<and>
   addr_UDPAddrPort \<lparr>a_TYPE = AtypDomainName, a_ADDR = [3, x, y, z], a_PORT = port\<rparr> = (Addr4 [3, x, y, z], port)"
  by (simp add: addr_valid_def addr_UDPAddrPort_def AddrFromSlice_def)

text \<open>
  \<open>Dissociate\<close> writes four bytes, two less than its \<open>BytesLen\<close> announces.
\<close>

lemma tuic_Dissociate_length:
  "dissociate_WriteTo (\<lambda>w xs. (None, w @ xs)) w d = (None, w @ head_enc (di_head d) @ put_u16 (di_ASSOC_ID d)) \<and>
   length (head_enc (di_head d) @ put_u16 (di_ASSOC_ID d)) = 4 \<and> dissociate_BytesLen d = 6"
  by (simp add: dissociate_WriteTo_def head_WriteTo_def head_enc_def dissociate_BytesLen_def head_BytesLen_def)

end
