(* ===== verification/TuicFrag.thy ===== *)
theory TuicFrag
  imports TuicWire
begin

section \<open>TUIC fragmentation\<close>

text \<open>
  Models \<open>protocol/tuic/frag.go\<close> and the \<open>deFraggerBucket\<close> of \<open>protocol/tuic/packet.go\<close>: splitting
  a payload into fragments and putting fragments together again, in whatever order they
  arrive. A \<open>*Packet\<close> held by a defragger is a pair of its identity and its value, since
  \<open>Feed\<close> compares pointers. Slices given back to the pool are collected in a list. The wall
  clock, which \<open>touch\<close> reads for a zero time, is the argument \<open>clock\<close>. The slots of a bucket
  within its length are never nil, so its checks for nil have no counterpart. Lengths and
  times are unbounded.
\<close>

subsection \<open>Splitting\<close>

text \<open>
  The loop of \<open>fragmentPackets\<close>; it would not end for a fragment size of zero, which the
  caller excludes. Dereferencing a nil address panics. The call also sets \<open>FRAG_TOTAL\<close> of the packet it
  is given, to the number all fragments carry; that packet is not returned here.
\<close>

partial_function (option) frag_loop :: "Packet \<Rightarrow> nat \<Rightarrow> nat \<Rightarrow> Packet list \<Rightarrow> Packet list option" where
  "frag_loop packet fragSize pos frags =
     (if pos < length (p_DATA packet) then
        let payloadSize = min (length (p_DATA packet) - pos) fragSize in
        Option.bind
          (if pos = 0 then Some (p_ADDR packet)
           else map_option (\<lambda>a. Some (a\<lparr>a_TYPE := AtypNone\<rparr>)) (p_ADDR packet))
          (\<lambda>fragAddr. frag_loop packet fragSize (pos + payloadSize)
            (frags @ [packet\<lparr>p_ADDR := fragAddr, FRAG_ID := word_of_nat (length frags),
               SIZE := word_of_nat payloadSize, p_DATA := take payloadSize (drop pos (p_DATA packet))\<rparr>]))
      else Some frags)"

definition fragmentPackets :: "Packet \<Rightarrow> int \<Rightarrow> (go_error + Packet list) option" where
  "fragmentPackets packet fragSize =
     (if fragSize \<le> 0 then Some (Inl (Err ''tuic: invalid fragment payload size %d''))
      else
        let fragCount = (int (length (p_DATA packet)) + fragSize - 1) div fragSize in
        if fragCount > 255 then Some (Inl (Err ''tuic: payload needs %d fragments, protocol limit is 255''))
        else map_option Inr
          (frag_loop (packet\<lparr>FRAG_TOTAL := word_of_int fragCount\<rparr>) (nat fragSize) 0 []))"

subsection \<open>Reassembly\<close>

type_synonym pkt_ref = "nat \<times> Packet"

record deFragger =
  pkgID :: "16 word"
  df_frags :: "pkt_ref option list"
  df_count :: byte
  totalLen :: nat
  firstAddrPort :: addr_port
  hasFirstFrag :: bool
  lastUpdateNano :: int

definition addr_port_valid :: "addr_port \<Rightarrow> bool" where
  "addr_port_valid ap \<longleftrightarrow> fst ap \<noteq> NoAddr"

definition df_touch :: "int \<Rightarrow> deFragger \<Rightarrow> int \<Rightarrow> deFragger" where
  "df_touch clock d nowNano = d\<lparr>lastUpdateNano := (if nowNano = 0 then clock else nowNano)\<rparr>"

definition newDeFragger :: "int \<Rightarrow> int \<Rightarrow> deFragger" where
  "newDeFragger clock nowNano =
     df_touch clock \<lparr>pkgID = 0, df_frags = [], df_count = 0, totalLen = 0, firstAddrPort = noAddrPort,
       hasFirstFrag = False, lastUpdateNano = 0\<rparr> nowNano"

definition df_IsExpired :: "deFragger \<Rightarrow> int \<Rightarrow> int \<Rightarrow> bool" where
  "df_IsExpired d nowNano ttl =
     (if ttl \<le> 0 then False else lastUpdateNano d > 0 \<and> nowNano - lastUpdateNano d \<ge> ttl)"

text \<open>The slices that \<open>releaseData\<close> of the held fragments gives back.\<close>

definition df_held :: "deFragger \<Rightarrow> bytes list" where
  "df_held d = concat (map (\<lambda>f. case f of None \<Rightarrow> [] | Some (_, p) \<Rightarrow> snd (releaseData p)) (df_frags d))"

definition df_release :: "deFragger \<Rightarrow> deFragger \<times> bytes list" where
  "df_release d =
     (d\<lparr>df_frags := map (\<lambda>_. None) (df_frags d), df_count := 0, totalLen := 0\<rparr>, df_held d)"

definition packetFragmentAddrPort :: "Packet \<Rightarrow> addr_port" where
  "packetFragmentAddrPort packet =
     (case p_ADDR packet of
        None \<Rightarrow> noAddrPort
      | Some a \<Rightarrow> if a_TYPE a = AtypNone then noAddrPort else addr_UDPAddr_AddrPort a)"

definition df_matches :: "deFragger \<Rightarrow> Packet \<Rightarrow> bool" where
  "df_matches d packet =
     (if FRAG_TOTAL packet \<le> 1 then False
      else if df_count d = 0 then FRAG_ID packet < FRAG_TOTAL packet
      else if pkgID d \<noteq> PKT_ID packet \<or> length (df_frags d) \<noteq> unat (FRAG_TOTAL packet) then False
      else if FRAG_ID packet \<ge> FRAG_TOTAL packet then False
      else if FRAG_ID packet = 0 then
        if \<not> hasFirstFrag d then True
        else
          let addrPort = packetFragmentAddrPort packet in
          addr_port_valid addrPort \<and> firstAddrPort d = addrPort
      else df_frags d ! unat (FRAG_ID packet) = None)"

definition df_assembledLen :: "deFragger \<Rightarrow> nat \<times> bool" where
  "df_assembledLen d = (totalLen d, unat (df_count d) = length (df_frags d) \<and> hasFirstFrag d)"

text \<open>The copy loop of \<open>Feed\<close>: a missing fragment would be a nil dereference.\<close>

primrec df_copy :: "pkt_ref option list \<Rightarrow> nat \<Rightarrow> bytes \<Rightarrow> (nat \<times> bytes) option" where
  "df_copy [] n p = Some (n, p)"
| "df_copy (f # fs) n p = do {
     (_, frag) \<leftarrow> f;
     (k, p') \<leftarrow> copy_at p n (p_DATA frag);
     df_copy fs (n + k) p' }"

text \<open>
  What a call of \<open>Feed\<close> with the caller's slice \<open>p\<close> returns: the count, the source, whether a
  datagram was assembled, the slice, the slices released and the defragger.
\<close>

type_synonym feed_result = "(nat \<times> addr_port \<times> bool) \<times> bytes \<times> bytes list \<times> deFragger"

definition df_begin :: "deFragger \<Rightarrow> Packet \<Rightarrow> deFragger" where
  "df_begin d m =
     (if df_count d = 0 then
        d\<lparr>pkgID := PKT_ID m, df_frags := replicate (unat (FRAG_TOTAL m)) None, df_count := 0, totalLen := 0,
          firstAddrPort := noAddrPort, hasFirstFrag := False\<rparr>
      else d)"

definition df_store :: "deFragger \<Rightarrow> pkt_ref \<Rightarrow> deFragger \<times> bytes list" where
  "df_store d m =
     (let d1 = (if FRAG_ID (snd m) = 0 \<and> addr_port_valid (packetFragmentAddrPort (snd m))
                then d\<lparr>firstAddrPort := packetFragmentAddrPort (snd m), hasFirstFrag := True\<rparr> else d);
          i = unat (FRAG_ID (snd m)) in
      case df_frags d1 ! i of
        None \<Rightarrow> (d1\<lparr>df_frags := (df_frags d1)[i := Some m], df_count := df_count d1 + 1,
                   totalLen := totalLen d1 + length (p_DATA (snd m))\<rparr>, [])
      | Some f \<Rightarrow> (d1, if fst f \<noteq> fst m then snd (releaseData (snd m)) else []))"

definition df_Feed :: "int \<Rightarrow> deFragger \<Rightarrow> pkt_ref option \<Rightarrow> bytes \<Rightarrow> int \<Rightarrow> feed_result option" where
  "df_Feed clock d0 mo p nowNano =
     (let d = df_touch clock d0 nowNano; nothing = (\<lambda>d rel. Some ((0, noAddrPort, False), p, rel, d)) in
      case mo of
        None \<Rightarrow> nothing d []
      | Some m \<Rightarrow>
          if FRAG_TOTAL (snd m) \<le> 1 then do {
            a \<leftarrow> p_ADDR (snd m);
            (n, p') \<leftarrow> copy_at p 0 (p_DATA (snd m));
            Some ((n, addr_UDPAddr_AddrPort a, True), p', [], d) }
          else if FRAG_ID (snd m) \<ge> FRAG_TOTAL (snd m) then nothing d []
          else
            let d1 = df_begin d (snd m) in
            if length (df_frags d1) \<noteq> unat (FRAG_TOTAL (snd m)) then nothing d1 []
            else
              let (d2, rel) = df_store d1 m in
              if unat (df_count d2) = length (df_frags d2) \<and> hasFirstFrag d2 \<and> length p \<ge> totalLen d2 then do {
                (n, p') \<leftarrow> df_copy (df_frags d2) 0 p;
                let (d3, rel') = df_release d2;
                Some ((n, firstAddrPort d3, True), p', rel @ rel', d3) }
              else nothing d2 rel)"

subsection \<open>Buckets\<close>

text \<open>A bucket holds the defraggers of one packet number; several sources may share it.\<close>

type_synonym bucket = "deFragger list"

definition swap_remove :: "nat \<Rightarrow> 'a list \<Rightarrow> 'a list" where
  "swap_remove i xs = butlast (xs[i := last xs])"

definition bucket_removeAt :: "bucket \<Rightarrow> int \<Rightarrow> bucket \<times> bytes list" where
  "bucket_removeAt b index =
     (if index < 0 \<or> index \<ge> int (length b) then (b, [])
      else (swap_remove (nat index) b, snd (df_release (b ! nat index))))"

definition bucket_release :: "bucket \<Rightarrow> bucket \<times> bytes list" where
  "bucket_release b = ([], concat (map (\<lambda>d. snd (df_release d)) b))"

definition bucket_pruneExpired :: "int \<Rightarrow> bucket \<Rightarrow> int \<Rightarrow> bucket \<times> bytes list" where
  "bucket_pruneExpired timeout b nowNano =
     (if timeout \<le> 0 then (b, [])
      else (filter (\<lambda>d. \<not> df_IsExpired d nowNano timeout) b,
            concat (map (\<lambda>d. snd (df_release d)) (filter (\<lambda>d. df_IsExpired d nowNano timeout) b))))"

definition candidates :: "bucket \<Rightarrow> Packet \<Rightarrow> nat list" where
  "candidates b packet = filter (\<lambda>i. df_matches (b ! i) packet) [0..<length b]"

text \<open>
  Choosing the defragger: \<open>None\<close> drops the packet, otherwise the bucket, perhaps with a new
  defragger, and the index chosen.
\<close>

definition bucket_select :: "int \<Rightarrow> bucket \<Rightarrow> Packet \<Rightarrow> int \<Rightarrow> (bucket \<times> nat) option" where
  "bucket_select clock b packet nowNano =
     (let fresh = (b @ [newDeFragger clock nowNano], length b) in
      case candidates b packet of
        [] \<Rightarrow> Some fresh
      | [i] \<Rightarrow> Some (b, i)
      | cs \<Rightarrow>
          if FRAG_ID packet = 0 then
            let addrPort = packetFragmentAddrPort packet in
            case filter (\<lambda>i. hasFirstFrag (b ! i) \<and> firstAddrPort (b ! i) = addrPort) cs of
              i # _ \<Rightarrow> Some (b, i)
            | [] \<Rightarrow>
                (case filter (\<lambda>i. \<not> hasFirstFrag (b ! i)) cs of
                   i # _ \<Rightarrow> Some (b, i)
                 | [] \<Rightarrow> Some fresh)
          else
            case filter (\<lambda>i. hasFirstFrag (b ! i)) cs of
              [i] \<Rightarrow> Some (b, i)
            | _ \<Rightarrow> None)"

text \<open>
  \<open>bucket.feed\<close>: the result of \<open>Feed\<close> with the assembled length, the slice, the slices
  released, and the bucket.
\<close>

definition bucket_feed ::
    "int \<Rightarrow> bucket \<Rightarrow> pkt_ref option \<Rightarrow> bytes \<Rightarrow> int \<Rightarrow>
     ((nat \<times> addr_port \<times> bool \<times> nat) \<times> bytes \<times> bytes list \<times> bucket) option" where
  "bucket_feed clock b po p nowNano =
     (case po of
        None \<Rightarrow>
          (case filter (\<lambda>i. snd (df_assembledLen (b ! i)) \<and> length p \<ge> fst (df_assembledLen (b ! i))) [0..<length b] of
             [] \<Rightarrow> Some ((0, noAddrPort, False, 0), p, [], b)
           | i # _ \<Rightarrow>
               let d = b ! i; sz = fst (df_assembledLen d);
                   trigger = (case filter (\<lambda>f. f \<noteq> None) (df_frags d) of [] \<Rightarrow> None | f # _ \<Rightarrow> f) in
               do {
                 ((n, addr, assembled), p', rel, d') \<leftarrow> df_Feed clock d trigger p nowNano;
                 Some ((n, addr, assembled, sz), p', rel,
                   if assembled then swap_remove i b else b[i := d']) })
      | Some m \<Rightarrow>
          let drop_it = Some ((0, noAddrPort, False, 0), p, snd (releaseData (snd m)), b) in
          if FRAG_TOTAL (snd m) \<le> 1 \<or> FRAG_ID (snd m) \<ge> FRAG_TOTAL (snd m) then drop_it
          else
            case bucket_select clock b (snd m) nowNano of
              None \<Rightarrow> drop_it
            | Some (b1, i) \<Rightarrow>
                let d = b1 ! i; (assembledLen, ready) = df_assembledLen d in
                if ready \<and> length p < assembledLen then
                  Some ((0, noAddrPort, False, assembledLen), p, [], b1)
                else do {
                  ((n, addr, assembled), p', rel, d') \<leftarrow> df_Feed clock d (Some m) p nowNano;
                  if assembled then Some ((n, addr, True, assembledLen), p', rel, swap_remove i b1)
                  else
                    let (sz, ready') = df_assembledLen d' in
                    Some ((0, noAddrPort, False, if ready' then sz else 0), p', rel, b1[i := d']) })"

subsection \<open>What splitting produces\<close>

text \<open>Fragment \<open>i\<close> of a packet for fragment size \<open>k\<close>.\<close>

definition frag_of :: "Packet \<Rightarrow> nat \<Rightarrow> nat \<Rightarrow> Packet" where
  "frag_of p k i =
     p\<lparr>p_ADDR := (if i = 0 then p_ADDR p else map_option (\<lambda>a. a\<lparr>a_TYPE := AtypNone\<rparr>) (p_ADDR p)),
       FRAG_ID := word_of_nat i, SIZE := word_of_nat (length (take k (drop (i * k) (p_DATA p)))),
       p_DATA := take k (drop (i * k) (p_DATA p))\<rparr>"

lemma frag_loop_step:
  assumes "pos < length (p_DATA p)" "p_ADDR p = Some a"
  shows "frag_loop p k pos fs = frag_loop p k (pos + min (length (p_DATA p) - pos) k)
    (fs @ [p\<lparr>p_ADDR := Some (if pos = 0 then a else a\<lparr>a_TYPE := AtypNone\<rparr>), FRAG_ID := word_of_nat (length fs),
       SIZE := word_of_nat (min (length (p_DATA p) - pos) k), p_DATA := take (min (length (p_DATA p) - pos) k) (drop pos (p_DATA p))\<rparr>])"
  by (subst frag_loop.simps) (simp add: assms Let_def)

lemma frag_loop_ok:
  assumes k: "0 < k" and a: "p_ADDR p = Some a"
  defines "n \<equiv> length (p_DATA p)"
  shows "frag_loop p k (min (i * k) n) (map (frag_of p k) [0..<i]) =
    Some (map (frag_of p k) [0..<max i ((n + k - 1) div k)])"
proof (induction "(n + k - 1) div k - i" arbitrary: i)
  case 0
  then have "\<not> i * k < n" using frag_count_iff [OF k, of i n] by simp
  with 0 show ?case by (subst frag_loop.simps) (simp add: n_def max_def)
next
  case (Suc j)
  then have i: "i * k < n" "i < (n + k - 1) div k" using frag_count_iff [OF k, of i n] by auto
  have "map (frag_of p k) [0..<i] @ [p\<lparr>p_ADDR := Some (if i * k = 0 then a else a\<lparr>a_TYPE := AtypNone\<rparr>),
      FRAG_ID := word_of_nat (length (map (frag_of p k) [0..<i])), SIZE := word_of_nat (min (n - i * k) k),
      p_DATA := take (min (n - i * k) k) (drop (i * k) (p_DATA p))\<rparr>] = map (frag_of p k) [0..<Suc i]"
    using k a by (simp add: frag_of_def n_def min.commute min_def)
  with frag_loop_step [OF i(1) [unfolded n_def] a, of k "map (frag_of p k) [0..<i]"]
  have step: "frag_loop p k (i * k) (map (frag_of p k) [0..<i]) =
      frag_loop p k (i * k + min (n - i * k) k) (map (frag_of p k) [0..<Suc i])"
    by (simp only: n_def)
  have pos: "i * k + min (n - i * k) k = min (Suc i * k) n" "min (i * k) n = i * k" using i(1) by simp_all
  have "j = (n + k - 1) div k - Suc i" "max (Suc i) ((n + k - 1) div k) = max i ((n + k - 1) div k)"
    using Suc.hyps(2) i(2) by simp_all
  with Suc.hyps(1) [of "Suc i"] show ?case unfolding pos(2) step pos(1) by (simp only:)
qed

lemma fragmentPackets_ok:
  assumes k: "0 < k" and a: "p_ADDR p = Some a"
  defines "n \<equiv> (length (p_DATA p) + k - 1) div k"
  assumes n: "n \<le> 255"
  shows "fragmentPackets p (int k) = Some (Inr (map (frag_of (p\<lparr>FRAG_TOTAL := word_of_nat n\<rparr>) k) [0..<n])) \<and>
    concat (map (\<lambda>i. p_DATA (frag_of (p\<lparr>FRAG_TOTAL := word_of_nat n\<rparr>) k i)) [0..<n]) = p_DATA p"
proof -
  let ?p = "p\<lparr>FRAG_TOTAL := word_of_nat n\<rparr>"
  have c: "(int (length (p_DATA p)) + int k - 1) div int k = int n"
    using k by (simp add: n_def zdiv_int)
  have "frag_loop ?p k 0 [] = Some (map (frag_of ?p k) [0..<n])"
    using frag_loop_ok [OF k, of ?p a 0] a by (simp add: n_def)
  moreover have "length (p_DATA p) \<le> n * k" using frag_count_iff [OF k, of n "length (p_DATA p)"] by (simp add: n_def)
  ultimately show ?thesis
    using c n k by (simp add: fragmentPackets_def frag_of_def concat_chunks)
qed

subsection \<open>Reassembly in any order\<close>

text \<open>
  A complete set of fragments: numbered from zero, all with the same total, which fits a
  byte, and the first with a usable source address \<open>ap\<close>.
\<close>

definition frag_set :: "Packet list \<Rightarrow> addr_port \<Rightarrow> bool" where
  "frag_set fs ap \<longleftrightarrow> 2 \<le> length fs \<and> length fs \<le> 255 \<and>
     (\<forall>i < length fs. unat (FRAG_TOTAL (fs ! i)) = length fs \<and> unat (FRAG_ID (fs ! i)) = i \<and>
        PKT_ID (fs ! i) = PKT_ID (fs ! 0)) \<and>
     packetFragmentAddrPort (fs ! 0) = ap \<and> addr_port_valid ap"

text \<open>
  The defragger holds exactly the fragments with index in \<open>S\<close>, the pointer of fragment \<open>i\<close>
  being \<open>r i\<close>.
\<close>

definition df_content :: "(nat \<Rightarrow> nat) \<Rightarrow> Packet list \<Rightarrow> addr_port \<Rightarrow> deFragger \<Rightarrow> nat set \<Rightarrow> bool" where
  "df_content r fs ap d S \<longleftrightarrow>
     pkgID d = PKT_ID (fs ! 0) \<and> length (df_frags d) = length fs \<and>
     (\<forall>i < length fs. df_frags d ! i = (if i \<in> S then Some (r i, fs ! i) else None)) \<and>
     unat (df_count d) = card S \<and> totalLen d = (\<Sum>i \<in> S. length (p_DATA (fs ! i))) \<and>
     hasFirstFrag d = (0 \<in> S) \<and> (0 \<in> S \<longrightarrow> firstAddrPort d = ap)"

definition df_holds :: "(nat \<Rightarrow> nat) \<Rightarrow> Packet list \<Rightarrow> addr_port \<Rightarrow> deFragger \<Rightarrow> nat set \<Rightarrow> bool" where
  "df_holds r fs ap d S \<longleftrightarrow> (if S = {} then df_count d = 0 else df_content r fs ap d S)"

lemma df_content_touch [simp]: "df_content r fs ap (df_touch clock d now) S = df_content r fs ap d S"
  by (simp add: df_content_def df_touch_def)

lemma df_begin_ok:
  assumes "frag_set fs ap" "df_holds r fs ap d S" "finite S" "i < length fs"
  shows "df_content r fs ap (df_begin (df_touch clock d now) (fs ! i)) S"
proof (cases "S = {}")
  case True
  with assms show ?thesis
    by (simp add: df_holds_def df_begin_def df_touch_def df_content_def frag_set_def)
next
  case False
  then have "unat (df_count d) \<noteq> 0" using assms(2,3) by (simp add: df_holds_def df_content_def)
  then have "df_count d \<noteq> 0" by auto
  with False assms(2) show ?thesis by (simp add: df_holds_def df_begin_def df_content_def df_touch_def)
qed

lemma df_store_ok:
  assumes fs: "frag_set fs ap" and d: "df_content r fs ap d S" and S: "S \<subseteq> {..<length fs}" "i < length fs" "i \<notin> S"
  shows "\<exists>d'. df_store d (r i, fs ! i) = (d', []) \<and> df_content r fs ap d' (insert i S)"
proof -
  have i: "unat (FRAG_ID (fs ! i)) = i" using fs S(2) by (simp add: frag_set_def)
  then have i0: "FRAG_ID (fs ! i) = 0 \<longleftrightarrow> i = 0" by (metis unat_0 unat_eq_zero)
  have fin: "finite S" using S(1) finite_subset by blast
  have "card (insert i S) \<le> length fs"
    using S card_mono [of "{..<length fs}" "insert i S"] by simp
  then have c: "card S + 1 < 256" "card (insert i S) = Suc (card S)"
    using fs S(3) fin by (simp_all add: frag_set_def)
  have "unat (df_count d) = card S" using d by (simp add: df_content_def)
  with c have cnt: "unat (df_count d + 1) = Suc (card S)" by (simp add: unat_word_ariths)
  have ap: "packetFragmentAddrPort (fs ! 0) = ap" "addr_port_valid ap" using fs by (simp_all add: frag_set_def)
  show ?thesis
    using d S i i0 fin c cnt ap
    by (cases "i = 0") (auto simp: df_store_def df_content_def Let_def nth_list_update)
qed

lemma df_copy_ok:
  assumes "length (concat (map (\<lambda>i. p_DATA (fs ! i)) is)) \<le> length p"
  shows "df_copy (map (\<lambda>i. Some (r i, fs ! i)) is) (length pre) (pre @ p) =
    Some (length pre + length (concat (map (\<lambda>i. p_DATA (fs ! i)) is)),
      pre @ concat (map (\<lambda>i. p_DATA (fs ! i)) is) @ drop (length (concat (map (\<lambda>i. p_DATA (fs ! i)) is))) p)"
  using assms
proof (induction "is" arbitrary: pre p)
  case (Cons i "is")
  let ?d = "p_DATA (fs ! i)"
  have "copy_at (pre @ p) (length pre) ?d = Some (length ?d, (pre @ ?d) @ drop (length ?d) p)"
    using copy_at_front [of pre "length pre" ?d p] Cons.prems by simp
  with Cons.IH [of "drop (length ?d) p" "pre @ ?d"] Cons.prems show ?case by (simp add: add.commute)
qed simp

lemma df_frags_full:
  assumes "df_content r fs ap d {..<length fs}"
  shows "df_frags d = map (\<lambda>i. Some (r i, fs ! i)) [0..<length fs]"
  using assms by (intro nth_equalityI) (auto simp: df_content_def)

definition payload :: "Packet list \<Rightarrow> bytes" where
  "payload fs = concat (map p_DATA fs)"

lemma payload_upt: "concat (map (\<lambda>i. p_DATA (fs ! i)) [0..<length fs]) = payload fs"
  by (simp only: payload_def map_upt_nth)

lemma totalLen_full:
  assumes "df_content r fs ap d {..<length fs}"
  shows "totalLen d = length (payload fs)"
  using assms by (simp add: df_content_def payload_def length_concat sum_list_sum_nth atLeast0LessThan comp_def)

text \<open>One more fragment of the set: either it completes the datagram or nothing happens yet.\<close>

lemma df_Feed_step:
  assumes fs: "frag_set fs ap" and d: "df_holds r fs ap d S" and S: "S \<subseteq> {..<length fs}" "i < length fs" "i \<notin> S"
    and p: "length (payload fs) \<le> length p"
  shows "\<exists>d'. if insert i S = {..<length fs}
    then df_Feed clock d (Some (r i, fs ! i)) p now = Some ((length (payload fs), ap, True),
        payload fs @ drop (length (payload fs)) p, concat (map (\<lambda>f. snd (releaseData f)) fs), d') \<and> df_count d' = 0
    else df_Feed clock d (Some (r i, fs ! i)) p now = Some ((0, noAddrPort, False), p, [], d') \<and>
      df_holds r fs ap d' (insert i S)"
proof -
  have fin: "finite S" using S(1) finite_subset by blast
  have t: "unat (FRAG_TOTAL (fs ! i)) = length fs" "unat (FRAG_ID (fs ! i)) = i" "2 \<le> length fs"
    using fs S(2) by (auto simp: frag_set_def)
  then have ft: "\<not> FRAG_TOTAL (fs ! i) \<le> 1" "\<not> FRAG_TOTAL (fs ! i) \<le> FRAG_ID (fs ! i)"
    using S(2) by (simp_all add: word_le_nat_alt)
  define d1 where "d1 = df_begin (df_touch clock d now) (fs ! i)"
  have d1: "df_content r fs ap d1 S" unfolding d1_def by (rule df_begin_ok [OF fs d fin S(2)])
  then have l1: "length (df_frags d1) = unat (FRAG_TOTAL (fs ! i))" using t by (simp add: df_content_def)
  obtain d2 where d2: "df_store d1 (r i, fs ! i) = (d2, [])" "df_content r fs ap d2 (insert i S)"
    using df_store_ok [OF fs d1 S] by blast
  have feed: "df_Feed clock d (Some (r i, fs ! i)) p now =
      (if unat (df_count d2) = length (df_frags d2) \<and> hasFirstFrag d2 \<and> length p \<ge> totalLen d2 then do {
         (n, p') \<leftarrow> df_copy (df_frags d2) 0 p;
         let (d3, rel') = df_release d2;
         Some ((n, firstAddrPort d3, True), p', rel', d3) }
       else Some ((0, noAddrPort, False), p, [], d2))"
    using ft l1 d2(1) by (simp add: df_Feed_def Let_def flip: d1_def)
  show ?thesis
  proof (cases "insert i S = {..<length fs}")
    case True
    then have c: "df_content r fs ap d2 {..<length fs}" using d2(2) by simp
    have z: "0 \<in> {..<length fs}" using t(3) by auto
    have "df_copy (df_frags d2) 0 p = Some (length (payload fs), payload fs @ drop (length (payload fs)) p)"
      using df_copy_ok [of fs "[0..<length fs]" p r "[]"] p unfolding df_frags_full [OF c] payload_upt by simp
    moreover have "df_held d2 = concat (map (\<lambda>f. snd (releaseData f)) fs)"
      unfolding df_held_def df_frags_full [OF c] using map_upt_nth [of "\<lambda>f. snd (releaseData f)" fs]
      by (simp add: comp_def)
    moreover have "firstAddrPort d2 = ap" "hasFirstFrag d2" "unat (df_count d2) = length (df_frags d2)"
      using c z by (auto simp: df_content_def)
    ultimately show ?thesis
      using True p unfolding feed by (simp add: totalLen_full [OF c] df_release_def)
  next
    case False
    then have "card (insert i S) < length fs"
      using S psubset_card_mono [of "{..<length fs}" "insert i S"] by auto
    then have "unat (df_count d2) \<noteq> length (df_frags d2)" using d2(2) by (simp add: df_content_def)
    with False d2(2) show ?thesis unfolding feed by (simp add: df_holds_def)
  qed
qed

lemma df_matches_missing:
  assumes fs: "frag_set fs ap" and d: "df_holds r fs ap d S" and i: "i < length fs" "i \<notin> S" and fin: "finite S"
  shows "df_matches d (fs ! i)"
proof -
  have t: "unat (FRAG_TOTAL (fs ! i)) = length fs" "unat (FRAG_ID (fs ! i)) = i" "2 \<le> length fs"
      "PKT_ID (fs ! i) = PKT_ID (fs ! 0)"
    using fs i(1) by (auto simp: frag_set_def)
  then have ft: "\<not> FRAG_TOTAL (fs ! i) \<le> 1" "FRAG_ID (fs ! i) < FRAG_TOTAL (fs ! i)"
    using i(1) by (simp_all add: word_le_nat_alt word_less_nat_alt)
  have i0: "FRAG_ID (fs ! i) = 0 \<longleftrightarrow> i = 0" using t(2) by (metis unat_0 unat_eq_zero)
  show ?thesis
  proof (cases "S = {}")
    case True
    with d ft show ?thesis by (simp add: df_holds_def df_matches_def)
  next
    case False
    with d have c: "df_content r fs ap d S" by (simp add: df_holds_def)
    with ft t i i0 show ?thesis by (auto simp: df_matches_def df_content_def)
  qed
qed

text \<open>Feeding a bucket several fragments in turn, with the same slice.\<close>

primrec bucket_feed_all ::
    "int \<Rightarrow> int \<Rightarrow> bucket \<Rightarrow> pkt_ref list \<Rightarrow> bytes \<Rightarrow>
     ((nat \<times> addr_port \<times> bool) list \<times> bytes \<times> bytes list \<times> bucket) option" where
  "bucket_feed_all clock now b [] p = Some ([], p, [], b)"
| "bucket_feed_all clock now b (m # ms) p = do {
     ((n, addr, done, _), p1, rel1, b1) \<leftarrow> bucket_feed clock b (Some m) p now;
     (outs, p2, rel2, b2) \<leftarrow> bucket_feed_all clock now b1 ms p1;
     Some ((n, addr, done) # outs, p2, rel1 @ rel2, b2) }"

definition bucket_holds :: "(nat \<Rightarrow> nat) \<Rightarrow> Packet list \<Rightarrow> addr_port \<Rightarrow> bucket \<Rightarrow> nat set \<Rightarrow> bool" where
  "bucket_holds r fs ap b S \<longleftrightarrow> (if S = {} then b = [] else (\<exists>d. b = [d] \<and> df_holds r fs ap d S))"

lemma bucket_feed_step:
  assumes fs: "frag_set fs ap" and b: "bucket_holds r fs ap b S" and S: "S \<subseteq> {..<length fs}" "i < length fs" "i \<notin> S"
    and p: "length (payload fs) \<le> length p"
  shows "\<exists>sz b'. if insert i S = {..<length fs}
    then bucket_feed clock b (Some (r i, fs ! i)) p now = Some ((length (payload fs), ap, True, sz),
        payload fs @ drop (length (payload fs)) p, concat (map (\<lambda>f. snd (releaseData f)) fs), [])
    else bucket_feed clock b (Some (r i, fs ! i)) p now = Some ((0, noAddrPort, False, sz), p, [], b') \<and>
      bucket_holds r fs ap b' (insert i S)"
proof -
  have fin: "finite S" using S(1) finite_subset by blast
  define d where "d = (if S = {} then newDeFragger clock now else hd b)"
  have d: "df_holds r fs ap d S"
    using b by (cases "S = {}") (auto simp: d_def bucket_holds_def df_holds_def newDeFragger_def df_touch_def)
  have sel: "bucket_select clock b (fs ! i) now = Some ([d], 0)"
  proof (cases "S = {}")
    case True
    with b show ?thesis by (simp add: bucket_select_def bucket_holds_def candidates_def d_def)
  next
    case False
    with b df_matches_missing [OF fs d S(2,3) fin] have "b = [d]" "candidates b (fs ! i) = [0]"
      by (auto simp: d_def bucket_holds_def candidates_def)
    then show ?thesis by (simp add: bucket_select_def)
  qed
  have t: "\<not> FRAG_TOTAL (fs ! i) \<le> 1" "\<not> FRAG_TOTAL (fs ! i) \<le> FRAG_ID (fs ! i)"
    using fs S(2) by (auto simp: frag_set_def word_le_nat_alt)
  have ready: "\<not> (snd (df_assembledLen d) \<and> length p < fst (df_assembledLen d))"
  proof (cases "S = {}")
    case True
    with b d show ?thesis by (auto simp: d_def newDeFragger_def df_touch_def df_assembledLen_def)
  next
    case False
    have "card S < length fs" using S psubset_card_mono [of "{..<length fs}" S] by auto
    with d False show ?thesis by (simp add: df_holds_def df_content_def df_assembledLen_def)
  qed
  have feed: "bucket_feed clock b (Some (r i, fs ! i)) p now = do {
      ((n, addr, assembled), p', rel, d') \<leftarrow> df_Feed clock d (Some (r i, fs ! i)) p now;
      if assembled then Some ((n, addr, True, fst (df_assembledLen d)), p', rel, [])
      else Some ((0, noAddrPort, False, if snd (df_assembledLen d') then fst (df_assembledLen d') else 0), p', rel, [d']) }"
    using sel t ready
    by (cases "df_assembledLen d") (auto simp: bucket_feed_def Let_def swap_remove_def split: prod.splits intro!: Option.bind_cong)
  from df_Feed_step [OF fs d S p, of clock now] obtain d' where
    "if insert i S = {..<length fs}
     then df_Feed clock d (Some (r i, fs ! i)) p now = Some ((length (payload fs), ap, True),
        payload fs @ drop (length (payload fs)) p, concat (map (\<lambda>f. snd (releaseData f)) fs), d') \<and> df_count d' = 0
     else df_Feed clock d (Some (r i, fs ! i)) p now = Some ((0, noAddrPort, False), p, [], d') \<and>
      df_holds r fs ap d' (insert i S)" ..
  then show ?thesis unfolding feed by (auto simp: bucket_holds_def split: if_splits)
qed

lemma bucket_feed_all_ok:
  assumes fs: "frag_set fs ap" and p: "length (payload fs) \<le> length p"
  shows "bucket_holds r fs ap b S \<Longrightarrow> distinct is \<Longrightarrow> is \<noteq> [] \<Longrightarrow> set is \<inter> S = {} \<Longrightarrow>
    set is \<union> S = {..<length fs} \<Longrightarrow>
    bucket_feed_all clock now b (map (\<lambda>i. (r i, fs ! i)) is) p =
      Some (replicate (length is - 1) (0, noAddrPort, False) @ [(length (payload fs), ap, True)],
        payload fs @ drop (length (payload fs)) p, concat (map (\<lambda>f. snd (releaseData f)) fs), [])"
proof (induction "is" arbitrary: b S)
  case (Cons i "is")
  have S: "S \<subseteq> {..<length fs}" "i < length fs" "i \<notin> S" using Cons.prems by auto
  obtain sz b' where step: "if insert i S = {..<length fs}
    then bucket_feed clock b (Some (r i, fs ! i)) p now = Some ((length (payload fs), ap, True, sz),
        payload fs @ drop (length (payload fs)) p, concat (map (\<lambda>f. snd (releaseData f)) fs), [])
    else bucket_feed clock b (Some (r i, fs ! i)) p now = Some ((0, noAddrPort, False, sz), p, [], b') \<and>
      bucket_holds r fs ap b' (insert i S)"
    using bucket_feed_step [OF fs Cons.prems(1) S p, of clock now] by (elim exE)
  show ?case
  proof (cases "is = []")
    case True
    with Cons.prems(5) have "insert i S = {..<length fs}" by simp
    with step True show ?thesis by simp
  next
    case False
    moreover from False Cons.prems obtain j where "j \<in> set is" "j \<notin> insert i S" by (cases "is") auto
    ultimately have "insert i S \<noteq> {..<length fs}" using Cons.prems(5) by auto
    with step have "bucket_feed clock b (Some (r i, fs ! i)) p now = Some ((0, noAddrPort, False, sz), p, [], b')"
        "bucket_holds r fs ap b' (insert i S)" by simp_all
    moreover have "replicate (length is) x = x # replicate (length is - 1) x" for x :: "nat \<times> addr_port \<times> bool"
      using False by (cases "is") auto
    ultimately show ?thesis
      using Cons.IH [of b' "insert i S"] Cons.prems False by auto
  qed
qed simp

subsection \<open>Across the wire\<close>

text \<open>Fragment \<open>i\<close> as the peer parses it: the address is on the first fragment only.\<close>

definition frag_parsed :: "Packet \<Rightarrow> Address \<Rightarrow> nat \<Rightarrow> nat \<Rightarrow> Packet" where
  "frag_parsed p a k i =
     (let d = take k (drop (i * k) (p_DATA p)) in
      parsed (ch_VER (p_head p)) (ASSOC_ID p) (PKT_ID p) (FRAG_TOTAL p) (word_of_nat i) (word_of_nat (length d))
        (if i = 0 then a else \<lparr>a_TYPE = AtypNone, a_ADDR = [], a_PORT = 0\<rparr>) d)"

definition on_wire :: "Packet \<Rightarrow> bytes option" where
  "on_wire f = do {
     n \<leftarrow> packet_BytesLen f;
     (m, w) \<leftarrow> packet_WriteToBytes f (replicate n 0);
     go_slice w 0 m }"

lemma on_wire_enc: "p_ADDR f = Some a \<Longrightarrow> on_wire f = Some (packet_enc f a)"
proof -
  assume a: "p_ADDR f = Some a"
  then have l: "packet_BytesLen f = Some (length (packet_enc f a))"
    by (simp add: packet_BytesLen_def packet_enc_def head_enc_def head_BytesLen_def)
  with packet_WriteToBytes_ok [OF a, of "replicate (length (packet_enc f a)) 0"] show ?thesis
    by (simp add: on_wire_def go_slice_def)
qed

lemma frag_on_wire:
  assumes p: "ch_TYPE (p_head p) = PacketType" "p_ADDR p = Some a" "addr_valid a" and k: "k \<le> 65535"
  shows "\<exists>w. on_wire (frag_of p k i) = Some w \<and> readPacketFromMessage w = Inr (frag_parsed p a k i)"
proof -
  let ?q = "frag_parsed p a k i" and ?d = "take k (drop (i * k) (p_DATA p))"
  let ?a = "if i = 0 then a else a\<lparr>a_TYPE := AtypNone\<rparr>"
  let ?b = "if i = 0 then a else \<lparr>a_TYPE = AtypNone, a_ADDR = [], a_PORT = 0\<rparr>"
  have w: "on_wire (frag_of p k i) = Some (packet_enc (frag_of p k i) ?a)"
    using p(2) by (intro on_wire_enc) (simp add: frag_of_def)
  have "length ?d < 2 ^ 16" using k by (simp add: min_def)
  then have "length ?d = unat (word_of_nat (length ?d) :: 16 word)"
    by (simp add: take_bit_nat_eq_self unsigned_of_nat)
  then have "packet_valid (?q, ?b)"
    using p(3) by (auto simp: frag_parsed_def Let_def addr_valid_def)
  moreover have "packet_enc (frag_of p k i) ?a = packet_enc ?q ?b"
    using p(1) by (simp add: frag_parsed_def Let_def frag_of_def packet_enc_fixed addr_enc_def)
  ultimately have "readPacketFromMessage (packet_enc (frag_of p k i) ?a) = Inr ?q"
    using packet_msg_enc [of ?q ?b "[]"] by simp
  with w show ?thesis by blast
qed

lemma frag_parsed_set:
  assumes p: "unat (FRAG_TOTAL p) = n" "2 \<le> n" and a: "a_TYPE a \<noteq> AtypNone" "addr_port_valid (addr_UDPAddr_AddrPort a)"
  shows "frag_set (map (frag_parsed p a k) [0..<n]) (addr_UDPAddr_AddrPort a)"
proof -
  have "n < 256" using unsigned_less [of "FRAG_TOTAL p", where ?'a = nat] p(1) by simp
  then have "unat (word_of_nat i :: byte) = i" if "i < n" for i
    using that by (simp add: unsigned_of_nat take_bit_nat_eq_self)
  with p a \<open>n < 256\<close> show ?thesis
    by (simp add: frag_set_def frag_parsed_def parsed_def Let_def packetFragmentAddrPort_def)
qed

subsection \<open>Properties of fragmentation\<close>

text \<open>
  C24: \<open>fragmentPackets\<close> always ends. For a positive size and at most 255 fragments the payloads
  of the fragments, in order, are the payload of the packet; they are not empty, at most
  the fragment size, numbered from zero, carry the total, and only the first one carries the
  address. More fragments than a byte can count are refused.
\<close>

theorem tuic_fragmentPackets_correct:
  assumes "0 < k" "p_ADDR p = Some a"
  defines "n \<equiv> (length (p_DATA p) + k - 1) div k"
  shows "if n > 255 then \<exists>e. fragmentPackets p (int k) = Some (Inl e)
    else \<exists>fs. fragmentPackets p (int k) = Some (Inr fs) \<and> length fs = n \<and> concat (map p_DATA fs) = p_DATA p \<and>
      (\<forall>i < n. 0 < length (p_DATA (fs ! i)) \<and> length (p_DATA (fs ! i)) \<le> k \<and> unat (FRAG_ID (fs ! i)) = i \<and>
         unat (FRAG_TOTAL (fs ! i)) = n \<and>
         p_ADDR (fs ! i) = Some (if i = 0 then a else a\<lparr>a_TYPE := AtypNone\<rparr>))"
proof (cases "n > 255")
  case True
  have "(int (length (p_DATA p)) + int k - 1) div int k = int n"
    using assms(1) by (simp add: n_def zdiv_int)
  with True assms(1) show ?thesis by (simp add: fragmentPackets_def)
next
  case False
  let ?p = "p\<lparr>FRAG_TOTAL := word_of_nat n\<rparr>"
  let ?fs = "map (frag_of ?p k) [0..<n]"
  have ok: "fragmentPackets p (int k) = Some (Inr ?fs)" "concat (map p_DATA ?fs) = p_DATA p"
    using fragmentPackets_ok [OF assms(1,2)] False by (simp_all add: n_def comp_def)
  have b: "unat (word_of_nat j :: byte) = j" if "j \<le> n" for j
    using that False by (simp add: unsigned_of_nat take_bit_nat_eq_self)
  have "0 < length (p_DATA (?fs ! i)) \<and> length (p_DATA (?fs ! i)) \<le> k \<and> unat (FRAG_ID (?fs ! i)) = i \<and>
      unat (FRAG_TOTAL (?fs ! i)) = n \<and> p_ADDR (?fs ! i) = Some (if i = 0 then a else a\<lparr>a_TYPE := AtypNone\<rparr>)"
    if "i < n" for i
  proof -
    have "i * k < length (p_DATA p)"
      using frag_count_iff [OF assms(1), of i "length (p_DATA p)"] that by (simp add: n_def)
    with that b [of i] b [of n] assms(1,2) show ?thesis by (auto simp: frag_of_def)
  qed
  with False ok show ?thesis by (intro if_not_P [THEN iffD2] exI [of _ ?fs]) auto
qed

theorem tuic_fragmentPackets_correct_witness:
  "\<exists>fs. fragmentPackets (NewPacket 1 2 1 0 5 (Some \<lparr>a_TYPE = AtypIPv4, a_ADDR = [1,2,3,4], a_PORT = 53\<rparr>) [1,2,3,4,5] 5) 2
      = Some (Inr fs) \<and> length fs = 3 \<and> concat (map p_DATA fs) = [1,2,3,4,5]"
  using tuic_fragmentPackets_correct [of 2 "NewPacket 1 2 1 0 5 (Some \<lparr>a_TYPE = AtypIPv4, a_ADDR = [1,2,3,4], a_PORT = 53\<rparr>) [1,2,3,4,5] 5"]
  by (auto simp: NewPacket_def)

text \<open>
  C1: End to end: a packet for an IP address that is split, serialized fragment by fragment,
  parsed by the peer and fed to an empty bucket, with the fragments arriving in any order,
  yields nothing until the last fragment arrives and then exactly the payload and the
  address. The bucket ends up empty and every pooled fragment is given back exactly once.
\<close>

theorem tuic_reassembly:
  assumes "ch_TYPE (p_head p) = PacketType" "p_ADDR p = Some a" "addr_valid a" "a_TYPE a = AtypIPv4 \<or> a_TYPE a = AtypIPv6"
    and k: "0 < k" "k \<le> 65535"
  defines "n \<equiv> (length (p_DATA p) + k - 1) div k"
  assumes n: "2 \<le> n" "n \<le> 255" and buf: "length (p_DATA p) \<le> length buf"
  shows "\<exists>fs qs. fragmentPackets p (int k) = Some (Inr fs) \<and> length fs = n \<and> length qs = n \<and>
    (\<forall>i < n. \<exists>w. on_wire (fs ! i) = Some w \<and> readPacketFromMessage w = Inr (qs ! i)) \<and>
    (\<forall>is. mset is = mset [0..<n] \<longrightarrow>
       bucket_feed_all clock now [] (map (\<lambda>i. (r i, qs ! i)) is) buf =
         Some (replicate (n - 1) (0, noAddrPort, False) @ [(length (p_DATA p), addr_UDPAddr_AddrPort a, True)],
           p_DATA p @ drop (length (p_DATA p)) buf, map p_DATA qs, []))"
proof -
  let ?p = "p\<lparr>FRAG_TOTAL := word_of_nat n\<rparr>"
  let ?fs = "map (frag_of ?p k) [0..<n]" and ?qs = "map (frag_parsed ?p a k) [0..<n]"
  have split: "fragmentPackets p (int k) = Some (Inr ?fs)" "concat (map p_DATA ?fs) = p_DATA p"
    using fragmentPackets_ok [OF k(1) assms(2)] n(2) by (simp_all add: n_def comp_def)
  have wire: "\<exists>w. on_wire (?fs ! i) = Some w \<and> readPacketFromMessage w = Inr (?qs ! i)" if "i < n" for i
    using frag_on_wire [of ?p a k i] assms(1-3) k(2) that by simp
  have "length (a_ADDR a) = 4 \<or> length (a_ADDR a) = 16" using assms(3,4) by (auto simp: addr_valid_def Atyp_defs)
  then have "addr_port_valid (addr_UDPAddr_AddrPort a)" "a_TYPE a \<noteq> AtypNone"
    using assms(4) by (auto simp: addr_port_valid_def addr_UDPAddr_AddrPort_def AddrFromSlice_def Atyp_defs)
  then have fs: "frag_set ?qs (addr_UDPAddr_AddrPort a)"
    using n by (intro frag_parsed_set) (simp_all add: unsigned_of_nat take_bit_nat_eq_self)
  have data: "p_DATA (frag_parsed ?p a k i) = p_DATA (frag_of ?p k i)" for i
    by (simp add: frag_parsed_def frag_of_def parsed_def Let_def)
  then have pl: "payload ?qs = p_DATA p" using split(2) by (simp add: payload_def comp_def)
  have rel: "snd (releaseData (frag_parsed ?p a k i)) = [p_DATA (frag_parsed ?p a k i)]" if "i < n" for i
  proof -
    have "0 < min (length (p_DATA p) - i * k) k" "min (length (p_DATA p) - i * k) k < 65536"
      using frag_count_iff [OF k(1), of i "length (p_DATA p)"] that k by (auto simp: n_def)
    then show ?thesis
      by (simp add: frag_parsed_def parsed_def Let_def releaseData_def word_greater_zero_iff word_unat_eq_iff
          unsigned_of_nat take_bit_nat_eq_self min.commute)
  qed
  have "concat (map (\<lambda>f. snd (releaseData f)) ?qs) = concat (map (\<lambda>i. [p_DATA (frag_parsed ?p a k i)]) [0..<n])"
    using rel by (intro arg_cong [of _ _ concat]) simp
  also have "\<dots> = map p_DATA ?qs" by (simp add: comp_def)
  finally have rel_all: "concat (map (\<lambda>f. snd (releaseData f)) ?qs) = map p_DATA ?qs" .
  have "bucket_feed_all clock now [] (map (\<lambda>i. (r i, ?qs ! i)) is) buf =
      Some (replicate (n - 1) (0, noAddrPort, False) @ [(length (p_DATA p), addr_UDPAddr_AddrPort a, True)],
        p_DATA p @ drop (length (p_DATA p)) buf, map p_DATA ?qs, [])" if "mset is = mset [0..<n]" for "is"
  proof -
    have perm: "distinct is" "set is = {..<length ?qs}" "length is = n" using mset_upt_perm [OF that] by simp_all
    have "is \<noteq> []" using perm(3) n(1) by (cases "is") simp_all
    with perm show ?thesis
      using bucket_feed_all_ok [OF fs, of buf r "[]" "{}" "is" clock now] buf rel_all
      by (simp add: pl bucket_holds_def)
  qed
  with split(1) wire show ?thesis by (intro exI [of _ ?fs] exI [of _ ?qs]) auto
qed

theorem tuic_reassembly_witness:
  "\<exists>qs. length qs = 3 \<and>
     bucket_feed_all 0 1 [] (map (\<lambda>i. (i, qs ! i)) [2, 0, 1]) [0, 0, 0, 0, 0, 0, 0, 0] =
       Some ([(0, noAddrPort, False), (0, noAddrPort, False), (5, (Addr4 [1, 2, 3, 4], 53), True)],
         [1, 2, 3, 4, 5, 0, 0, 0], map p_DATA qs, [])"
proof -
  let ?a = "\<lparr>a_TYPE = AtypIPv4, a_ADDR = [1, 2, 3, 4], a_PORT = 53\<rparr>"
  let ?p = "NewPacket 7 9 1 0 5 (Some ?a) [1, 2, 3, 4, 5] 5"
  have p: "ch_TYPE (p_head ?p) = PacketType" "p_ADDR ?p = Some ?a" "p_DATA ?p = [1, 2, 3, 4, 5]"
    by (simp_all add: NewPacket_def NewCommandHead_def)
  have a: "addr_valid ?a" "a_TYPE ?a = AtypIPv4 \<or> a_TYPE ?a = AtypIPv6" "addr_UDPAddr_AddrPort ?a = (Addr4 [1, 2, 3, 4], 53)"
    by (simp_all add: addr_valid_def addr_UDPAddr_AddrPort_def AddrFromSlice_def)
  obtain qs where qs: "length qs = Suc (Suc (Suc 0))" "\<forall>is. mset is = {#0, Suc 0, Suc (Suc 0)#} \<longrightarrow>
      bucket_feed_all 0 1 [] (map (\<lambda>i. (i, qs ! i)) is) [0, 0, 0, 0, 0, 0, 0, 0] =
        Some ([(0, noAddrPort, False), (0, noAddrPort, False), (Suc (Suc (Suc (Suc (Suc 0)))), (Addr4 [1, 2, 3, 4], 53), True)],
          [1, 2, 3, 4, 5, 0, 0, 0], map p_DATA qs, [])"
    using tuic_reassembly [OF p(1,2) a(1,2), of 2 "[0, 0, 0, 0, 0, 0, 0, 0]" 0 1 "\<lambda>i. i"] p(3) a(3) by auto
  have "mset [2, 0, 1] = {#0, Suc 0, Suc (Suc 0)#}" by (simp add: numeral_2_eq_2)
  with qs(2) [rule_format, of "[2, 0, 1]"] qs(1) show ?thesis
    by (intro exI [of _ qs]) (simp add: numeral_eq_Suc)
qed

end
