(* ===== verification/HysteriaWire.thy ===== *)
theory HysteriaWire
  imports Io
begin

section \<open>The Hysteria 2 wire format\<close>

text \<open>
  Models \<open>protocol/hysteria2/internal/protocol/proxy.go\<close> and \<open>padding.go\<close>. The package
  \<open>quicvarint\<close> is a dependency: its \<open>Len\<close>, \<open>Parse\<close> and \<open>Read\<close> are the arguments \<open>qlen\<close>, \<open>qparse\<close>
  and \<open>qread\<close>, and the locale \<open>quicvarint\<close> states what the code relies on, that they are the
  variable-length integers of RFC 9000, which \<open>varintPut\<close> writes. The random number generator
  is the arguments \<open>intn\<close> and \<open>rnd\<close>. A \<open>Release\<close> function is the number of the pooled buffer it
  gives back. A \<open>ProtocolError\<close> is its message.
\<close>

subsection \<open>Variable-length integers\<close>

definition maxVarInt1 :: "64 word" where "maxVarInt1 = 63"
definition maxVarInt2 :: "64 word" where "maxVarInt2 = 16383"
definition maxVarInt4 :: "64 word" where "maxVarInt4 = 1073741823"
definition maxVarInt8 :: "64 word" where "maxVarInt8 = 4611686018427387903"

lemmas maxVarInt_defs = maxVarInt1_def maxVarInt2_def maxVarInt4_def maxVarInt8_def

text \<open>Indexing past the slice panics, and so does a value that needs more than 62 bits.\<close>

definition varintPut :: "bytes \<Rightarrow> 64 word \<Rightarrow> (nat \<times> bytes) option" where
  "varintPut b i =
     (if i \<le> maxVarInt1 then do {
        b1 \<leftarrow> put_at b 0 [ucast i];
        Some (1, b1) }
      else if i \<le> maxVarInt2 then do {
        b1 \<leftarrow> put_at b 0 [ucast (drop_bit 8 i) OR 0x40];
        b2 \<leftarrow> put_at b1 1 [ucast i];
        Some (2, b2) }
      else if i \<le> maxVarInt4 then do {
        b1 \<leftarrow> put_at b 0 [ucast (drop_bit 24 i) OR 0x80];
        b2 \<leftarrow> put_at b1 1 [ucast (drop_bit 16 i)];
        b3 \<leftarrow> put_at b2 2 [ucast (drop_bit 8 i)];
        b4 \<leftarrow> put_at b3 3 [ucast i];
        Some (4, b4) }
      else if i \<le> maxVarInt8 then do {
        b1 \<leftarrow> put_at b 0 [ucast (drop_bit 56 i) OR 0xC0];
        b2 \<leftarrow> put_at b1 1 [ucast (drop_bit 48 i)];
        b3 \<leftarrow> put_at b2 2 [ucast (drop_bit 40 i)];
        b4 \<leftarrow> put_at b3 3 [ucast (drop_bit 32 i)];
        b5 \<leftarrow> put_at b4 4 [ucast (drop_bit 24 i)];
        b6 \<leftarrow> put_at b5 5 [ucast (drop_bit 16 i)];
        b7 \<leftarrow> put_at b6 6 [ucast (drop_bit 8 i)];
        b8 \<leftarrow> put_at b7 7 [ucast i];
        Some (8, b8) }
      else None)"

definition varint_enc :: "64 word \<Rightarrow> bytes" where
  "varint_enc i =
     (if i \<le> maxVarInt1 then [ucast i]
      else if i \<le> maxVarInt2 then [ucast (drop_bit 8 i) OR 0x40, ucast i]
      else if i \<le> maxVarInt4 then
        [ucast (drop_bit 24 i) OR 0x80, ucast (drop_bit 16 i), ucast (drop_bit 8 i), ucast i]
      else
        [ucast (drop_bit 56 i) OR 0xC0, ucast (drop_bit 48 i), ucast (drop_bit 40 i), ucast (drop_bit 32 i),
         ucast (drop_bit 24 i), ucast (drop_bit 16 i), ucast (drop_bit 8 i), ucast i])"

text \<open>
  The decoding of RFC 9000, section 16: the two high bits of the first byte give the length,
  the others and the following bytes the value.
\<close>

definition be_word :: "bytes \<Rightarrow> 64 word" where
  "be_word bs = foldl (\<lambda>w b. push_bit 8 w OR ucast b) 0 bs"

definition rfc_parse :: "bytes \<Rightarrow> go_error + 64 word \<times> nat" where
  "rfc_parse bs =
     (case bs of
        [] \<Rightarrow> Inl EOF
      | b # _ \<Rightarrow>
          let n = 2 ^ unat (drop_bit 6 b) in
          if length bs < n then Inl ErrUnexpectedEOF
          else Inr (be_word ((b AND 0x3F) # take (n - 1) (tl bs)), n))"

definition rfc_read :: "bytes \<Rightarrow> go_error + 64 word \<times> bytes" where
  "rfc_read bs = sum_bind (rfc_parse bs) (\<lambda>(v, n). Inr (v, drop n bs))"

definition rfc_len :: "64 word \<Rightarrow> nat" where
  "rfc_len i = (if i \<le> 63 then 1 else if i \<le> 16383 then 2 else if i \<le> 1073741823 then 4 else 8)"

locale quicvarint =
  fixes qlen :: "64 word \<Rightarrow> nat"
    and qparse :: "bytes \<Rightarrow> go_error + 64 word \<times> nat"
    and qread :: "bytes \<Rightarrow> go_error + 64 word \<times> bytes"
  assumes len_law: "i \<le> maxVarInt8 \<Longrightarrow> qlen i = length (varint_enc i)"
    and parse_law: "i \<le> maxVarInt8 \<Longrightarrow> qparse (varint_enc i @ rest) = Inr (i, length (varint_enc i))"
    and read_law: "i \<le> maxVarInt8 \<Longrightarrow> qread (varint_enc i @ rest) = Inr (i, rest)"
    and parse_bound: "qparse bs = Inr (v, n) \<Longrightarrow> n \<le> length bs"

subsection \<open>Padding\<close>

record padding =
  pad_Min :: int
  pad_Max :: int

definition paddingChars :: bytes where
  "paddingChars = map word_of_nat ([97..<123] @ [65..<91] @ [48..<58])"

definition randomLen :: "(int \<Rightarrow> int) \<Rightarrow> padding \<Rightarrow> int" where
  "randomLen intn p = (if pad_Max p \<le> pad_Min p then pad_Min p else pad_Min p + intn (pad_Max p - pad_Min p))"

text \<open>\<open>rnd n\<close> is what \<open>rand.Read\<close> stores into a slice of length \<open>n\<close>.\<close>

definition writeRandomBytes :: "(nat \<Rightarrow> bytes) \<Rightarrow> bytes \<Rightarrow> bytes" where
  "writeRandomBytes rnd dst =
     (if length dst = 0 then dst
      else map (\<lambda>b. paddingChars ! (unat b mod length paddingChars)) (go_copy dst (rnd (length dst))))"

definition padding_String :: "(int \<Rightarrow> int) \<Rightarrow> (nat \<Rightarrow> bytes) \<Rightarrow> padding \<Rightarrow> bytes" where
  "padding_String intn rnd p = writeRandomBytes rnd (replicate (nat (randomLen intn p)) 0)"

definition tcpRequestPadding :: padding where "tcpRequestPadding = \<lparr>pad_Min = 64, pad_Max = 512\<rparr>"
definition tcpResponsePadding :: padding where "tcpResponsePadding = \<lparr>pad_Min = 128, pad_Max = 1024\<rparr>"
definition authRequestPadding :: padding where "authRequestPadding = \<lparr>pad_Min = 256, pad_Max = 2048\<rparr>"
definition authResponsePadding :: padding where "authResponsePadding = \<lparr>pad_Min = 256, pad_Max = 2048\<rparr>"

subsection \<open>TCP requests and responses\<close>

definition FrameTypeTCPRequest :: "64 word" where "FrameTypeTCPRequest = 0x401"
definition MaxAddressLength :: "64 word" where "MaxAddressLength = 2048"
definition MaxMessageLength :: "64 word" where "MaxMessageLength = 2048"
definition MaxPaddingLength :: "64 word" where "MaxPaddingLength = 4096"

text \<open>\<open>io.CopyN(io.Discard, r, n)\<close>.\<close>

definition io_discard :: "nat \<Rightarrow> bytes \<Rightarrow> go_error + bytes" where
  "io_discard n bs = (if length bs < n then Inl EOF else Inr (drop n bs))"

definition skip_padding ::
    "(bytes \<Rightarrow> go_error + 64 word \<times> bytes) \<Rightarrow> bytes \<Rightarrow> go_error + bytes" where
  "skip_padding qread bs =
     sum_bind (qread bs) (\<lambda>(paddingLen, bs1).
       if paddingLen > MaxPaddingLength then Inl (Err ''invalid padding length'')
       else if paddingLen > 0 then io_discard (unat paddingLen) bs1
       else Inr bs1)"

definition ReadTCPRequest ::
    "(bytes \<Rightarrow> go_error + 64 word \<times> bytes) \<Rightarrow> bytes \<Rightarrow> go_error + bytes \<times> bytes" where
  "ReadTCPRequest qread r =
     sum_bind (qread r) (\<lambda>(addrLen, r1).
       if addrLen = 0 \<or> addrLen > MaxAddressLength then Inl (Err ''invalid address length'')
       else
         sum_bind (io_ReadFull (unat addrLen) r1) (\<lambda>(addrBuf, r2).
         sum_bind (skip_padding qread r2) (\<lambda>r3. Inr (addrBuf, r3))))"

definition WriteTCPRequest ::
    "(64 word \<Rightarrow> nat) \<Rightarrow> (int \<Rightarrow> int) \<Rightarrow> (nat \<Rightarrow> bytes) \<Rightarrow> 'w bwriter \<Rightarrow> 'w \<Rightarrow> bytes \<Rightarrow> (go_error option \<times> 'w) option" where
  "WriteTCPRequest qlen intn rnd wr w addr =
     (let paddingLen = nat (randomLen intn tcpRequestPadding);
          addrLen = length addr;
          sz = qlen FrameTypeTCPRequest + qlen (word_of_nat addrLen) + addrLen +
               qlen (word_of_nat paddingLen) + paddingLen in
      do {
        (i0, b0) \<leftarrow> varintPut (replicate sz 0) FrameTypeTCPRequest;
        (i1, b1) \<leftarrow> on_tail b0 i0 (\<lambda>t. varintPut t (word_of_nat addrLen));
        (i2, b2) \<leftarrow> copy_at b1 (i0 + i1) addr;
        (i3, b3) \<leftarrow> on_tail b2 (i0 + i1 + i2) (\<lambda>t. varintPut t (word_of_nat paddingLen));
        let i = i0 + i1 + i2 + i3;
        pad \<leftarrow> go_slice b3 i (i + paddingLen);
        b4 \<leftarrow> put_at b3 i (writeRandomBytes rnd pad);
        Some (wr w b4) })"

definition ReadTCPResponse ::
    "(bytes \<Rightarrow> go_error + 64 word \<times> bytes) \<Rightarrow> bytes \<Rightarrow> go_error + (bool \<times> bytes) \<times> bytes" where
  "ReadTCPResponse qread r =
     sum_bind (io_ReadFull 1 r) (\<lambda>(status, r1).
     sum_bind (qread r1) (\<lambda>(msgLen, r2).
       if msgLen > MaxMessageLength then Inl (Err ''invalid message length'')
       else
         sum_bind (if msgLen > 0 then io_ReadFull (unat msgLen) r2 else Inr ([], r2)) (\<lambda>(msgBuf, r3).
         sum_bind (skip_padding qread r3) (\<lambda>r4. Inr ((status ! 0 = 0, msgBuf), r4)))))"

definition WriteTCPResponse ::
    "(64 word \<Rightarrow> nat) \<Rightarrow> (int \<Rightarrow> int) \<Rightarrow> (nat \<Rightarrow> bytes) \<Rightarrow> 'w bwriter \<Rightarrow> 'w \<Rightarrow> bool \<Rightarrow> bytes \<Rightarrow>
     (go_error option \<times> 'w) option" where
  "WriteTCPResponse qlen intn rnd wr w ok msg =
     (let paddingLen = nat (randomLen intn tcpResponsePadding);
          msgLen = length msg;
          sz = 1 + qlen (word_of_nat msgLen) + msgLen + qlen (word_of_nat paddingLen) + paddingLen in
      do {
        b0 \<leftarrow> put_at (replicate sz 0) 0 [if ok then 0 else 1];
        (i1, b1) \<leftarrow> on_tail b0 1 (\<lambda>t. varintPut t (word_of_nat msgLen));
        (i2, b2) \<leftarrow> copy_at b1 (1 + i1) msg;
        (i3, b3) \<leftarrow> on_tail b2 (1 + (i1 + i2)) (\<lambda>t. varintPut t (word_of_nat paddingLen));
        let i = i1 + i2 + i3;
        pad \<leftarrow> go_slice b3 (1 + i) (1 + i + paddingLen);
        b4 \<leftarrow> put_at b3 (1 + i) (writeRandomBytes rnd pad);
        Some (wr w b4) })"

subsection \<open>UDP messages\<close>

record UDPMessage =
  SessionID :: "32 word"
  PacketID :: "16 word"
  FragID :: byte
  FragCount :: byte
  um_Addr :: bytes
  um_Data :: bytes
  um_Release :: "nat option"

definition um_HeaderSize :: "(64 word \<Rightarrow> nat) \<Rightarrow> UDPMessage \<Rightarrow> int" where
  "um_HeaderSize qlen m =
     (let lAddr = length (um_Addr m) in 4 + 2 + 1 + 1 + int (qlen (word_of_nat lAddr)) + int lAddr)"

definition um_Size :: "(64 word \<Rightarrow> nat) \<Rightarrow> UDPMessage \<Rightarrow> int" where
  "um_Size qlen m = um_HeaderSize qlen m + int (length (um_Data m))"

definition um_Serialize :: "(64 word \<Rightarrow> nat) \<Rightarrow> UDPMessage \<Rightarrow> bytes \<Rightarrow> (int \<times> bytes) option" where
  "um_Serialize qlen m buf =
     (if int (length buf) < um_Size qlen m then Some (-1, buf)
      else do {
        b1 \<leftarrow> put_at buf 0 (put_u32 (SessionID m));
        b2 \<leftarrow> put_at b1 4 (put_u16 (PacketID m));
        b3 \<leftarrow> put_at b2 6 [FragID m];
        b4 \<leftarrow> put_at b3 7 [FragCount m];
        (i, b5) \<leftarrow> on_tail b4 8 (\<lambda>t. varintPut t (word_of_nat (length (um_Addr m))));
        (j, b6) \<leftarrow> copy_at b5 (8 + i) (um_Addr m);
        (k, b7) \<leftarrow> copy_at b6 (8 + (i + j)) (um_Data m);
        Some (int (8 + (i + j + k)), b7) })"

text \<open>A slice bound past the message panics.\<close>

definition ParseUDPMessage ::
    "(bytes \<Rightarrow> go_error + 64 word \<times> nat) \<Rightarrow> bytes \<Rightarrow> (go_error + UDPMessage) option" where
  "ParseUDPMessage qparse msg =
     (if length msg < 8 then Some (Inl (Err ''invalid message: header too short''))
      else
        case qparse (drop 8 msg) of
          Inl e \<Rightarrow> Some (Inl e)
        | Inr (lAddr, n) \<Rightarrow>
            if lAddr = 0 \<or> lAddr > MaxMessageLength then Some (Inl (Err ''invalid address length''))
            else do {
              body \<leftarrow> go_slice msg (8 + n) (length msg);
              if sint lAddr > int (length body) - 1 then Some (Inl (Err ''invalid message length''))
              else do {
                addr \<leftarrow> go_slice body 0 (unat lAddr);
                data \<leftarrow> go_slice body (unat lAddr) (length body);
                Some (Inr \<lparr>SessionID = u32_at msg 0, PacketID = u16_at msg 4, FragID = msg ! 6,
                  FragCount = msg ! 7, um_Addr = addr, um_Data = data, um_Release = None\<rparr>) } })"

subsection \<open>The varint codec\<close>

lemma varint_enc_nonempty [simp]: "varint_enc i \<noteq> []" "0 < length (varint_enc i)"
  by (simp_all add: varint_enc_def)

lemma varintPut_ok:
  assumes "i \<le> maxVarInt8" "length (varint_enc i) \<le> length b"
  shows "varintPut b i = Some (length (varint_enc i), varint_enc i @ drop (length (varint_enc i)) b)"
proof -
  consider "i \<le> maxVarInt1" | "\<not> i \<le> maxVarInt1" "i \<le> maxVarInt2" | "\<not> i \<le> maxVarInt1" "\<not> i \<le> maxVarInt2" "i \<le> maxVarInt4"
    | "\<not> i \<le> maxVarInt1" "\<not> i \<le> maxVarInt2" "\<not> i \<le> maxVarInt4" by blast
  then show ?thesis
  proof cases
    case 1
    with assms show ?thesis by (cases b) (simp_all add: varintPut_def varint_enc_def put_at_def)
  next
    case 2
    with assms obtain b0 b1 r where "b = b0 # b1 # r"
      by (auto simp: varint_enc_def numeral_eq_Suc Suc_le_length_iff)
    with 2 show ?thesis by (simp add: varintPut_def varint_enc_def put_at_def)
  next
    case 3
    with assms obtain b0 b1 b2 b3 r where "b = b0 # b1 # b2 # b3 # r"
      by (auto simp: varint_enc_def numeral_eq_Suc Suc_le_length_iff)
    with 3 show ?thesis by (simp add: varintPut_def varint_enc_def put_at_def)
  next
    case 4
    with assms obtain b0 b1 b2 b3 b4 b5 b6 b7 r where "b = b0 # b1 # b2 # b3 # b4 # b5 # b6 # b7 # r"
      by (auto simp: varint_enc_def numeral_eq_Suc Suc_le_length_iff)
    with 4 assms(1) show ?thesis by (simp add: varintPut_def varint_enc_def put_at_def)
  qed
qed

lemma be_word_snoc: "be_word (bs @ [b]) = push_bit 8 (be_word bs) OR ucast b"
  by (simp add: be_word_def)

text \<open>The bytes of a word, from the most significant of the \<open>k\<close> lowest ones.\<close>

definition be_bytes :: "nat \<Rightarrow> 64 word \<Rightarrow> bytes" where
  "be_bytes k i = map (\<lambda>j. ucast (drop_bit (8 * j) i)) (rev [0..<k])"

lemma be_bytes_Suc: "be_bytes (Suc k) i = be_bytes k (drop_bit 8 i) @ [ucast i]"
proof -
  have "[0..<Suc k] = 0 # map Suc [0..<k]" by (simp add: map_Suc_upt upt_conv_Cons del: upt_Suc)
  then show ?thesis by (simp add: be_bytes_def rev_map comp_def add.commute del: upt_Suc)
qed

lemma unat_drop_bit8: "unat (drop_bit 8 (i :: 64 word)) = unat i div 256"
  using unsigned_less [of i, where ?'a=nat]
  by (simp add: unsigned_drop_bit_eq take_bit_nat_eq_self drop_bit_eq_div [where ?'a=nat] del: drop_bit_eq_div)

lemma be_word_bytes: "unat i < 2 ^ (8 * k) \<Longrightarrow> be_word (be_bytes k i) = i"
proof (induction k arbitrary: i)
  case 0
  then have "i = 0" by (simp add: unat_eq_zero)
  then show ?case by (simp add: be_bytes_def be_word_def)
next
  case (Suc k)
  have "unat (drop_bit 8 i) < 2 ^ (8 * k)"
    using Suc.prems unfolding unat_drop_bit8 by (simp add: less_mult_imp_div_less power_add mult.commute)
  then have "be_word (be_bytes (Suc k) i) = push_bit 8 (drop_bit 8 i) OR ucast (ucast i :: byte)"
    using Suc.IH [of "drop_bit 8 i"] by (simp add: be_bytes_Suc be_word_snoc)
  also have "\<dots> = i" by (rule bit_word_eqI) (auto simp: bit_simps)
  finally show ?case .
qed

lemma varint_tag0: "(y :: byte) < 0x40 \<Longrightarrow> drop_bit 6 (y) = word_of_nat 0 \<and> (y) AND 0x3F = y"
  by (rule byte_below [of _ 64 y], code_simp) (simp add: word_less_nat_alt)

lemma varint_tag1: "(y :: byte) < 0x40 \<Longrightarrow> drop_bit 6 (y OR 0x40) = word_of_nat 1 \<and> (y OR 0x40) AND 0x3F = y"
  by (rule byte_below [of _ 64 y], code_simp) (simp add: word_less_nat_alt)

lemma varint_tag2: "(y :: byte) < 0x40 \<Longrightarrow> drop_bit 6 (y OR 0x80) = word_of_nat 2 \<and> (y OR 0x80) AND 0x3F = y"
  by (rule byte_below [of _ 64 y], code_simp) (simp add: word_less_nat_alt)

lemma varint_tag3: "(y :: byte) < 0x40 \<Longrightarrow> drop_bit 6 (y OR 0xC0) = word_of_nat 3 \<and> (y OR 0xC0) AND 0x3F = y"
  by (rule byte_below [of _ 64 y], code_simp) (simp add: word_less_nat_alt)

lemma top_byte_small:
  assumes "unat (i :: 64 word) < 2 ^ (n + 6)"
  shows "(ucast (drop_bit n i) :: byte) < 0x40"
proof -
  have "unat (drop_bit n i) = unat i div 2 ^ n"
    using unsigned_less [of i, where ?'a=nat]
    by (simp add: unsigned_drop_bit_eq take_bit_nat_eq_self drop_bit_eq_div [where ?'a=nat] del: drop_bit_eq_div)
  moreover have "unat i div 2 ^ n < 64" using assms by (simp add: less_mult_imp_div_less power_add mult.commute)
  ultimately show ?thesis by (simp add: word_less_nat_alt unsigned_ucast_eq take_bit_eq_mod [where ?'a=nat])
qed

text \<open>Each form of the encoding, with its length and the value read back.\<close>

lemma rfc_parse_form:
  assumes "drop_bit 6 t = word_of_nat c" "c < 4" "t AND 0x3F = hd (be_bytes (2 ^ c) i)"
    and "length xs = 2 ^ c - 1" "xs = tl (be_bytes (2 ^ c) i)" "unat i < 2 ^ (8 * 2 ^ c)"
  shows "rfc_parse (t # xs @ rest) = Inr (i, 2 ^ c)"
proof -
  have c: "unat (drop_bit 6 t) = c"
    unfolding assms(1) using assms(2) by (simp add: unsigned_of_nat take_bit_nat_eq_self)
  have "be_bytes (2 ^ c) i \<noteq> []" by (simp add: be_bytes_def)
  then have "(t AND 0x3F) # xs = be_bytes (2 ^ c) i" using assms(3,5) by simp
  moreover have "2 ^ c \<le> Suc (length xs)" using assms(4) by simp
  ultimately show ?thesis
    using assms(4) be_word_bytes [OF assms(6)] by (simp add: rfc_parse_def Let_def c)
qed

lemma be_bytes_forms:
  "be_bytes (Suc 0) i = [ucast i]" "be_bytes 2 i = [ucast (drop_bit 8 i), ucast i]"
  "be_bytes 4 i = [ucast (drop_bit 24 i), ucast (drop_bit 16 i), ucast (drop_bit 8 i), ucast i]"
  "be_bytes 8 i = [ucast (drop_bit 56 i), ucast (drop_bit 48 i), ucast (drop_bit 40 i), ucast (drop_bit 32 i),
     ucast (drop_bit 24 i), ucast (drop_bit 16 i), ucast (drop_bit 8 i), ucast i]"
  by (simp_all add: be_bytes_def upt_rec)

lemma rfc_parse_enc:
  assumes "i \<le> maxVarInt8"
  shows "rfc_parse (varint_enc i @ rest) = Inr (i, length (varint_enc i))"
proof -
  consider "i \<le> maxVarInt1" | "\<not> i \<le> maxVarInt1" "i \<le> maxVarInt2" | "\<not> i \<le> maxVarInt1" "\<not> i \<le> maxVarInt2" "i \<le> maxVarInt4"
    | "\<not> i \<le> maxVarInt1" "\<not> i \<le> maxVarInt2" "\<not> i \<le> maxVarInt4" by blast
  then show ?thesis
  proof cases
    case 1
    then have u: "unat i < 2 ^ (0 + 6)" by (simp add: word_le_nat_alt maxVarInt_defs)
    have "rfc_parse (ucast (drop_bit 0 i) # [] @ rest) = Inr (i, 2 ^ 0)"
      using varint_tag0 [OF top_byte_small [OF u]] u by (intro rfc_parse_form) (simp_all add: be_bytes_forms)
    with 1 show ?thesis by (simp add: varint_enc_def)
  next
    case 2
    then have u: "unat i < 2 ^ (8 + 6)" by (simp add: word_le_nat_alt maxVarInt_defs)
    have "rfc_parse ((ucast (drop_bit 8 i) OR 0x40) # [ucast i] @ rest) = Inr (i, 2 ^ 1)"
      using varint_tag1 [OF top_byte_small [OF u]] u by (intro rfc_parse_form) (simp_all add: be_bytes_forms)
    with 2 show ?thesis by (simp add: varint_enc_def)
  next
    case 3
    then have u: "unat i < 2 ^ (24 + 6)" by (simp add: word_le_nat_alt maxVarInt_defs)
    have "rfc_parse ((ucast (drop_bit 24 i) OR 0x80) # [ucast (drop_bit 16 i), ucast (drop_bit 8 i), ucast i] @ rest) = Inr (i, 2 ^ 2)"
      using varint_tag2 [OF top_byte_small [OF u]] u by (intro rfc_parse_form) (simp_all add: be_bytes_forms)
    with 3 show ?thesis by (simp add: varint_enc_def)
  next
    case 4
    have u: "unat i < 2 ^ (56 + 6)" using assms by (simp add: word_le_nat_alt maxVarInt_defs)
    have "rfc_parse ((ucast (drop_bit 56 i) OR 0xC0) # [ucast (drop_bit 48 i), ucast (drop_bit 40 i), ucast (drop_bit 32 i), ucast (drop_bit 24 i), ucast (drop_bit 16 i), ucast (drop_bit 8 i), ucast i] @ rest) = Inr (i, 2 ^ 3)"
      using varint_tag3 [OF top_byte_small [OF u]] u by (intro rfc_parse_form) (simp_all add: be_bytes_forms)
    with 4 show ?thesis by (simp add: varint_enc_def)
  qed
qed

interpretation rfc: quicvarint rfc_len rfc_parse rfc_read
proof (unfold_locales, goal_cases)
  case (1 i)
  then show ?case by (simp add: rfc_len_def varint_enc_def maxVarInt_defs)
next
  case (2 i rest)
  then show ?case by (rule rfc_parse_enc)
next
  case (3 i rest)
  then show ?case by (simp add: rfc_read_def rfc_parse_enc)
next
  case (4 bs v n)
  then show ?case by (cases bs) (auto simp: rfc_parse_def Let_def split: if_splits)
qed

text \<open>Reading and writing a stream of varints is a prefix code.\<close>

interpretation varint: prefix_codec "\<lambda>i. i \<le> maxVarInt8" varint_enc rfc_read
  by unfold_locales (rule rfc.read_law)

lemma nat_le_maxVarInt8: "n \<le> 65535 \<Longrightarrow> word_of_nat n \<le> maxVarInt8"
  by (simp add: word_le_nat_alt maxVarInt_defs unsigned_of_nat take_bit_nat_eq_self)

lemma unat_small64: "n \<le> 65535 \<Longrightarrow> unat (word_of_nat n :: 64 word) = n"
  by (simp add: unsigned_of_nat take_bit_nat_eq_self)

lemma length_writeRandomBytes [simp]: "length (writeRandomBytes rnd dst) = length dst"
  by (simp add: writeRandomBytes_def)

text \<open>A varint stored behind what a slice already holds.\<close>

lemma on_tail_varint:
  assumes "length pre = n" "i \<le> maxVarInt8" "length (varint_enc i) \<le> length b"
  shows "on_tail (pre @ b) n (\<lambda>t. varintPut t i) =
    Some (length (varint_enc i), pre @ varint_enc i @ drop (length (varint_enc i)) b)"
  using on_tail_front [OF assms(1), of b "\<lambda>t. varintPut t i"] varintPut_ok [OF assms(2,3)] by simp

lemma fill_padding:
  assumes "length pre = n" "length b = k"
  shows "do { pad \<leftarrow> go_slice (pre @ b) n (n + k); put_at (pre @ b) n (writeRandomBytes rnd pad) } =
    Some (pre @ writeRandomBytes rnd b)"
  using assms by (simp add: go_slice_def put_at_def)

text \<open>The layout of a UDP message.\<close>

definition um_enc :: "UDPMessage \<Rightarrow> bytes" where
  "um_enc m = put_u32 (SessionID m) @ put_u16 (PacketID m) @ [FragID m, FragCount m] @
     varint_enc (word_of_nat (length (um_Addr m))) @ um_Addr m @ um_Data m"

context quicvarint
begin

lemma WriteTCPRequest_bytes:
  assumes addr: "length addr \<le> 2048" and pl: "nat (randomLen intn tcpRequestPadding) = pl" "pl \<le> 4096"
  shows "\<exists>pad. length pad = pl \<and> WriteTCPRequest qlen intn rnd wr w addr =
    Some (wr w (varint_enc FrameTypeTCPRequest @ varint_enc (word_of_nat (length addr)) @ addr @
      varint_enc (word_of_nat pl) @ pad))"
proof -
  let ?f = "varint_enc FrameTypeTCPRequest" and ?a = "varint_enc (word_of_nat (length addr))"
    and ?p = "varint_enc (word_of_nat pl)"
  have small: "FrameTypeTCPRequest \<le> maxVarInt8" "word_of_nat (length addr) \<le> maxVarInt8" "word_of_nat pl \<le> maxVarInt8"
    using addr pl nat_le_maxVarInt8 [of "length addr"] nat_le_maxVarInt8 [of pl]
    by (simp_all add: FrameTypeTCPRequest_def maxVarInt_defs)
  let ?buf = "replicate (length ?f + length ?a + length addr + length ?p + pl) (0 :: byte)"
  have s0: "varintPut ?buf FrameTypeTCPRequest = Some (length ?f, ?f @ replicate (length ?a + length addr + length ?p + pl) 0)"
    using varintPut_ok [OF small(1), of ?buf] by (simp add: add.assoc)
  have s1: "on_tail (?f @ replicate (length ?a + length addr + length ?p + pl) 0) (length ?f) (\<lambda>t. varintPut t (word_of_nat (length addr))) =
      Some (length ?a, (?f @ ?a) @ replicate (length addr + length ?p + pl) 0)"
    using on_tail_varint [OF refl small(2)] by (simp add: add.assoc)
  have s2: "copy_at ((?f @ ?a) @ replicate (length addr + length ?p + pl) 0) (length ?f + length ?a) addr =
      Some (length addr, (?f @ ?a @ addr) @ replicate (length ?p + pl) 0)"
    using copy_at_front [of "?f @ ?a" "length ?f + length ?a" addr] by (simp add: add.assoc)
  have s3: "on_tail ((?f @ ?a @ addr) @ replicate (length ?p + pl) 0) (length ?f + length ?a + length addr)
      (\<lambda>t. varintPut t (word_of_nat pl)) = Some (length ?p, (?f @ ?a @ addr @ ?p) @ replicate pl 0)"
    using on_tail_varint [of "?f @ ?a @ addr" "length ?f + length ?a + length addr", OF _ small(3)] by simp
  have s4: "do { pad \<leftarrow> go_slice ((?f @ ?a @ addr @ ?p) @ replicate pl 0) n (n + pl);
      put_at ((?f @ ?a @ addr @ ?p) @ replicate pl 0) n (writeRandomBytes rnd pad) } =
      Some ((?f @ ?a @ addr @ ?p) @ writeRandomBytes rnd (replicate pl 0))"
    if "n = length ?f + length ?a + length addr + length ?p" for n
    using that by (intro fill_padding) simp_all
  have "WriteTCPRequest qlen intn rnd wr w addr =
      Some (wr w ((?f @ ?a @ addr @ ?p) @ writeRandomBytes rnd (replicate pl 0)))"
    using s4 [OF refl] unfolding WriteTCPRequest_def pl(1) len_law [OF small(1)] len_law [OF small(2)] len_law [OF small(3)] Let_def
    by (simp add: s0 s1 s2 s3 bind_eq_Some_conv del: append_assoc) blast
  then show ?thesis by (intro exI [of _ "writeRandomBytes rnd (replicate pl 0)"]) simp
qed

lemma skip_padding_ok:
  assumes "length pad = pl" "pl \<le> 4096"
  shows "skip_padding qread (varint_enc (word_of_nat pl) @ pad @ rest) = Inr rest"
proof -
  have "word_of_nat pl \<le> maxVarInt8" "unat (word_of_nat pl :: 64 word) = pl"
    using assms(2) nat_le_maxVarInt8 [of pl] unat_small64 [of pl] by simp_all
  then show ?thesis
    using assms read_law [of "word_of_nat pl" "pad @ rest"]
    by (auto simp: skip_padding_def io_discard_def MaxPaddingLength_def word_less_nat_alt word_greater_zero_iff)
qed

lemma ReadTCPRequest_ok:
  assumes "addr \<noteq> []" "length addr \<le> 2048" "length pad = pl" "pl \<le> 4096"
  shows "ReadTCPRequest qread (varint_enc (word_of_nat (length addr)) @ addr @ varint_enc (word_of_nat pl) @ pad @ rest) =
    Inr (addr, rest)"
proof -
  have "word_of_nat (length addr) \<le> maxVarInt8" "unat (word_of_nat (length addr) :: 64 word) = length addr"
    using assms(2) nat_le_maxVarInt8 [of "length addr"] unat_small64 [of "length addr"] by simp_all
  moreover from this(2) have "(word_of_nat (length addr) :: 64 word) \<noteq> 0" using assms(1) by auto
  ultimately show ?thesis
    using assms read_law [of "word_of_nat (length addr)" "addr @ varint_enc (word_of_nat pl) @ pad @ rest"]
      skip_padding_ok [OF assms(3,4)]
    by (simp add: ReadTCPRequest_def MaxAddressLength_def word_less_nat_alt)
qed

lemma WriteTCPResponse_bytes:
  assumes msg: "length msg \<le> 2048" and pl: "nat (randomLen intn tcpResponsePadding) = pl" "pl \<le> 4096"
  shows "\<exists>pad. length pad = pl \<and> WriteTCPResponse qlen intn rnd wr w ok msg =
    Some (wr w ((if ok then 0 else 1) # varint_enc (word_of_nat (length msg)) @ msg @
      varint_enc (word_of_nat pl) @ pad))"
proof -
  let ?f = "[if ok then 0 else 1 :: byte]" and ?a = "varint_enc (word_of_nat (length msg))"
    and ?p = "varint_enc (word_of_nat pl)"
  have small: "word_of_nat (length msg) \<le> maxVarInt8" "word_of_nat pl \<le> maxVarInt8"
    using msg pl nat_le_maxVarInt8 [of "length msg"] nat_le_maxVarInt8 [of pl] by simp_all
  have s0: "put_at (replicate (1 + length ?a + length msg + length ?p + pl) 0) 0 ?f =
      Some (?f @ replicate (length ?a + length msg + length ?p + pl) 0)"
    by (simp add: put_at_def)
  have s1: "on_tail (?f @ replicate (length ?a + length msg + length ?p + pl) 0) 1 (\<lambda>t. varintPut t (word_of_nat (length msg))) =
      Some (length ?a, (?f @ ?a) @ replicate (length msg + length ?p + pl) 0)"
    using on_tail_varint [of ?f 1, OF _ small(1)] by (simp add: add.assoc)
  have s2: "copy_at ((?f @ ?a) @ replicate (length msg + length ?p + pl) 0) (1 + length ?a) msg =
      Some (length msg, (?f @ ?a @ msg) @ replicate (length ?p + pl) 0)"
    using copy_at_front [of "?f @ ?a" "1 + length ?a" msg] by (simp add: add.assoc)
  have s3: "on_tail ((?f @ ?a @ msg) @ replicate (length ?p + pl) 0) (1 + (length ?a + length msg))
      (\<lambda>t. varintPut t (word_of_nat pl)) = Some (length ?p, (?f @ ?a @ msg @ ?p) @ replicate pl 0)"
    using on_tail_varint [of "?f @ ?a @ msg" "1 + (length ?a + length msg)", OF _ small(2)] by simp
  have s4: "do { pad \<leftarrow> go_slice ((?f @ ?a @ msg @ ?p) @ replicate pl 0) n (n + pl);
      put_at ((?f @ ?a @ msg @ ?p) @ replicate pl 0) n (writeRandomBytes rnd pad) } =
      Some ((?f @ ?a @ msg @ ?p) @ writeRandomBytes rnd (replicate pl 0))"
    if "n = 1 + (length ?a + length msg + length ?p)" for n
    using that by (intro fill_padding) simp_all
  obtain pad where s5: "go_slice ((?f @ ?a @ msg @ ?p) @ replicate pl 0) (1 + (length ?a + length msg + length ?p))
      (1 + (length ?a + length msg + length ?p) + pl) = Some pad"
    "put_at ((?f @ ?a @ msg @ ?p) @ replicate pl 0) (1 + (length ?a + length msg + length ?p)) (writeRandomBytes rnd pad) =
      Some ((?f @ ?a @ msg @ ?p) @ writeRandomBytes rnd (replicate pl 0))"
    using s4 [OF refl] by (auto simp only: bind_eq_Some_conv)
  have "WriteTCPResponse qlen intn rnd wr w ok msg =
      Some (wr w ((?f @ ?a @ msg @ ?p) @ writeRandomBytes rnd (replicate pl 0)))"
    unfolding WriteTCPResponse_def pl(1) len_law [OF small(1)] len_law [OF small(2)] Let_def s0 s1 s2 s3
      Option.bind.simps prod.case s5 ..
  then show ?thesis by (intro exI [of _ "writeRandomBytes rnd (replicate pl 0)"]) simp
qed

lemma ReadTCPResponse_ok:
  assumes "length msg \<le> 2048" "length pad = pl" "pl \<le> 4096"
  shows "ReadTCPResponse qread (st # varint_enc (word_of_nat (length msg)) @ msg @ varint_enc (word_of_nat pl) @ pad @ rest) =
    Inr ((st = 0, msg), rest)"
proof -
  have m: "word_of_nat (length msg) \<le> maxVarInt8" "unat (word_of_nat (length msg) :: 64 word) = length msg"
    using assms(1) nat_le_maxVarInt8 [of "length msg"] unat_small64 [of "length msg"] by simp_all
  have "(if (word_of_nat (length msg) :: 64 word) > 0 then io_ReadFull (length msg) (msg @ xs) else Inr ([], msg @ xs)) =
      Inr (msg, xs)" for xs
    using m(2) by (auto simp: word_greater_zero_iff)
  then show ?thesis
    using assms m read_law [of "word_of_nat (length msg)" "msg @ varint_enc (word_of_nat pl) @ pad @ rest"]
      skip_padding_ok [OF assms(2,3)]
    by (simp add: ReadTCPResponse_def MaxMessageLength_def word_less_nat_alt)
qed

lemma um_Size_enc: "length (um_Addr m) \<le> 2048 \<Longrightarrow> um_Size qlen m = int (length (um_enc m))"
  using len_law [OF nat_le_maxVarInt8 [of "length (um_Addr m)"]]
  by (simp add: um_Size_def um_HeaderSize_def um_enc_def Let_def)

lemma um_Serialize_ok:
  assumes a: "length (um_Addr m) \<le> 2048" and b: "length (um_enc m) \<le> length buf"
  shows "um_Serialize qlen m buf = Some (int (length (um_enc m)), um_enc m @ drop (length (um_enc m)) buf)"
proof -
  let ?v = "varint_enc (word_of_nat (length (um_Addr m)))" and ?la = "length (um_Addr m)" and ?ld = "length (um_Data m)"
  have small: "word_of_nat ?la \<le> maxVarInt8" using a nat_le_maxVarInt8 [of ?la] by simp
  have len: "length (um_enc m) = 8 + (length ?v + ?la + ?ld)" by (simp add: um_enc_def)
  then obtain b0 b1 b2 b3 b4 b5 b6 b7 r where buf: "buf = [b0,b1,b2,b3,b4,b5,b6,b7] @ r"
    using b by (auto simp: numeral_eq_Suc Suc_le_length_iff)
  define h where "h = put_u32 (SessionID m) @ put_u16 (PacketID m) @ [FragID m, FragCount m]"
  have h: "length h = 8" by (simp add: h_def)
  have l: "length ?v + ?la + ?ld \<le> length r" using b buf len by simp
  have s1: "on_tail (h @ r) 8 (\<lambda>t. varintPut t (word_of_nat ?la)) = Some (length ?v, (h @ ?v) @ drop (length ?v) r)"
    using on_tail_varint [OF h small, of r] l by simp
  have s2: "copy_at ((h @ ?v) @ drop (length ?v) r) (8 + length ?v) (um_Addr m) =
      Some (?la, (h @ ?v @ um_Addr m) @ drop (length ?v + ?la) r)"
    using copy_at_front [of "h @ ?v" "8 + length ?v" "um_Addr m" "drop (length ?v) r"] h l by (simp add: add.commute)
  have s3: "copy_at ((h @ ?v @ um_Addr m) @ drop (length ?v + ?la) r) (8 + (length ?v + ?la)) (um_Data m) =
      Some (?ld, (h @ ?v @ um_Addr m @ um_Data m) @ drop (length ?v + ?la + ?ld) r)"
    using copy_at_front [of "h @ ?v @ um_Addr m" "8 + (length ?v + ?la)" "um_Data m" "drop (length ?v + ?la) r"] h l
    by (simp add: add.commute)
  have "um_Serialize qlen m buf = do {
      (i, b5) \<leftarrow> on_tail (h @ r) 8 (\<lambda>t. varintPut t (word_of_nat ?la));
      (j, b6) \<leftarrow> copy_at b5 (8 + i) (um_Addr m);
      (k, b7) \<leftarrow> copy_at b6 (8 + (i + j)) (um_Data m);
      Some (int (8 + (i + j + k)), b7) }"
    using b um_Size_enc [OF a]
    by (simp add: um_Serialize_def buf put_at_def put_u16_def put_u32_def h_def)
  then have "um_Serialize qlen m buf =
      Some (int (8 + (length ?v + ?la + ?ld)), (h @ ?v @ um_Addr m @ um_Data m) @ drop (length ?v + ?la + ?ld) r)"
    by (simp only: s1 s2 s3 Option.bind.simps prod.case)
  moreover have "drop (length (um_enc m)) buf = drop (length ?v + ?la + ?ld) r" unfolding len by (simp add: buf numeral_eq_Suc)
  moreover have "um_enc m = h @ ?v @ um_Addr m @ um_Data m" by (simp add: um_enc_def h_def)
  ultimately show ?thesis using h by simp
qed

lemma ParseUDPMessage_ok:
  assumes "um_Addr m \<noteq> []" "length (um_Addr m) \<le> 2048" "um_Data m \<noteq> []"
  shows "ParseUDPMessage qparse (um_enc m) = Some (Inr (m\<lparr>um_Release := None\<rparr>))"
proof -
  let ?v = "varint_enc (word_of_nat (length (um_Addr m)))" and ?la = "length (um_Addr m)"
  have la: "word_of_nat ?la \<le> maxVarInt8" "unat (word_of_nat ?la :: 64 word) = ?la"
    using assms(2) nat_le_maxVarInt8 [of ?la] unat_small64 [of ?la] by simp_all
  then have "(word_of_nat ?la :: 64 word) \<noteq> 0" using assms(1) by auto
  moreover have "sint (word_of_nat ?la :: 64 word) = int ?la"
    using assms(2) signed_take_bit_int_eq_self [of 63 "int ?la"] unfolding signed_of_nat by simp
  moreover have "drop 8 (um_enc m) = ?v @ um_Addr m @ um_Data m"
    by (simp add: um_enc_def put_u16_def put_u32_def)
  moreover have "u32_at (um_enc m) 0 = SessionID m" "u16_at (um_enc m) 4 = PacketID m" "um_enc m ! 6 = FragID m" "um_enc m ! 7 = FragCount m"
    by (simp_all add: um_enc_def put_u16_def put_u32_def u32_at_def u16_at_def)
  moreover have "go_slice (um_enc m) (8 + length ?v) (length (um_enc m)) = Some (um_Addr m @ um_Data m)"
    by (simp add: go_slice_def um_enc_def put_u16_def put_u32_def numeral_eq_Suc)
  moreover have "8 \<le> length (um_enc m)" by (simp add: um_enc_def)
  ultimately show ?thesis
    using assms parse_law [OF la(1), of "um_Addr m @ um_Data m"] la(2)
    by (simp add: ParseUDPMessage_def MaxMessageLength_def word_less_nat_alt go_slice_def)
qed

end

lemma randomLen_bounds:
  assumes "\<forall>k > 0. 0 \<le> intn k \<and> intn k < k" "0 \<le> pad_Min p" "pad_Min p \<le> pad_Max p"
  shows "pad_Min p \<le> randomLen intn p \<and> randomLen intn p \<le> pad_Max p"
  using assms(1) [rule_format, of "pad_Max p - pad_Min p"] assms(2,3) by (auto simp: randomLen_def)

lemma ParseUDPMessage_total:
  assumes "quicvarint qlen qparse qread"
  shows "ParseUDPMessage qparse msg \<noteq> None"
proof (cases "8 \<le> length msg \<and> (\<exists>lAddr n. qparse (drop 8 msg) = Inr (lAddr, n) \<and> lAddr \<noteq> 0 \<and> lAddr \<le> 2048)")
  case False
  then show ?thesis
    by (auto simp: ParseUDPMessage_def MaxMessageLength_def not_less not_le split: sum.splits)
next
  case True
  then obtain lAddr n where q: "8 \<le> length msg" "qparse (drop 8 msg) = Inr (lAddr, n)" "lAddr \<noteq> 0" "lAddr \<le> 2048" by blast
  have "n \<le> length (drop 8 msg)" by (rule quicvarint.parse_bound [OF assms q(2)])
  then have s: "go_slice msg (8 + n) (length msg) = Some (drop (8 + n) msg)" using q(1) by (simp add: go_slice_def)
  have "unat lAddr \<le> 2048" using q(4) by (simp add: word_le_nat_alt)
  have "uint lAddr \<le> 2048" using q(4) by (simp add: word_le_def)
  moreover have "- 9223372036854775808 \<le> uint lAddr"
    using unsigned_greater_eq [of lAddr, where ?'a = int] by linarith
  ultimately have "sint lAddr = int (unat lAddr)"
    using signed_take_bit_int_eq_self [of 63 "int (unat lAddr)"] signed_of_nat [where ?'a = int and ?'b = 64, of "unat lAddr"] by simp
  moreover have "unat lAddr \<le> k" if "\<not> int k - 1 < uint lAddr" for k
    using that unfolding unat_eq_nat_uint nat_le_iff by linarith
  ultimately show ?thesis
    using q s by (auto simp: ParseUDPMessage_def MaxMessageLength_def go_slice_def)
qed

subsection \<open>Properties of the wire format\<close>

text \<open>
  C22: Whatever padding the generator picks, a TCP request is the frame type followed by
  bytes from which the peer reads exactly the address, and a TCP response reads back as the
  same status and message; both readers leave exactly what follows. The hypotheses on the
  dependencies are the RFC 9000 encoding and that \<open>Intn\<close> stays in its range.
\<close>

theorem hy_tcp_round_trip:
  assumes q: "quicvarint qlen qparse qread" and intn: "\<forall>k > 0. 0 \<le> intn k \<and> intn k < k"
    and addr: "addr \<noteq> []" "length addr \<le> 2048" and msg: "length msg \<le> 2048"
  shows "\<exists>req resp. WriteTCPRequest qlen intn rnd (\<lambda>w xs. (None, w @ xs)) [] addr =
      Some (None, varint_enc FrameTypeTCPRequest @ req) \<and> ReadTCPRequest qread (req @ rest) = Inr (addr, rest) \<and>
    WriteTCPResponse qlen intn rnd (\<lambda>w xs. (None, w @ xs)) [] ok msg = Some (None, resp) \<and>
    ReadTCPResponse qread (resp @ rest) = Inr ((ok, msg), rest)"
proof -
  have pads: "nat (randomLen intn tcpRequestPadding) \<le> 4096" "nat (randomLen intn tcpResponsePadding) \<le> 4096"
    using randomLen_bounds [OF intn, of tcpRequestPadding] randomLen_bounds [OF intn, of tcpResponsePadding]
    by (auto simp: tcpRequestPadding_def tcpResponsePadding_def nat_le_iff)
  let ?pl = "nat (randomLen intn tcpRequestPadding)" and ?ql = "nat (randomLen intn tcpResponsePadding)"
  obtain pad where p: "length pad = ?pl" "WriteTCPRequest qlen intn rnd (\<lambda>w xs. (None, w @ xs)) [] addr =
      Some (None, [] @ varint_enc FrameTypeTCPRequest @ varint_enc (word_of_nat (length addr)) @ addr @
        varint_enc (word_of_nat ?pl) @ pad)"
    using quicvarint.WriteTCPRequest_bytes [OF q addr(2) refl pads(1), where wr = "\<lambda>w xs. (None, w @ xs)" and w = "[]" and rnd = rnd]
    by (elim exE conjE) (rule that)
  obtain pad' where r: "length pad' = ?ql" "WriteTCPResponse qlen intn rnd (\<lambda>w xs. (None, w @ xs)) [] ok msg =
      Some (None, [] @ (if ok then 0 else 1) # varint_enc (word_of_nat (length msg)) @ msg @
        varint_enc (word_of_nat ?ql) @ pad')"
    using quicvarint.WriteTCPResponse_bytes [OF q msg refl pads(2), where wr = "\<lambda>w xs. (None, w @ xs)" and w = "[]" and rnd = rnd and ok = ok]
    by (elim exE conjE) (rule that)
  have st: "((if ok then 0 else 1 :: byte) = 0) = ok" by simp
  from p r show ?thesis
    using quicvarint.ReadTCPRequest_ok [OF q addr p(1) pads(1), of rest]
      quicvarint.ReadTCPResponse_ok [OF q msg r(1) pads(2), of "if ok then 0 else 1" rest, unfolded st]
    by (intro exI conjI) (assumption | simp)+
qed

theorem hy_tcp_round_trip_witness:
  "\<exists>req. WriteTCPRequest rfc_len (\<lambda>_. 0) (\<lambda>n. replicate n 7) (\<lambda>w xs. (None, w @ xs)) [] [97, 58, 56, 48] =
      Some (None, varint_enc FrameTypeTCPRequest @ req) \<and> ReadTCPRequest rfc_read (req @ [1]) = Inr ([97, 58, 56, 48], [1])"
proof -
  have i: "\<forall>k > 0. 0 \<le> (0 :: int) \<and> 0 < (k :: int)" by simp
  show ?thesis
    using hy_tcp_round_trip [OF rfc.quicvarint_axioms i, of "[97, 58, 56, 48]" "[]" "\<lambda>n. replicate n 7" "[1]" True] by auto
qed

text \<open>
  C23: Parsing a datagram never panics, whatever its bytes. A message with an address of at
  most 2048 bytes and some data, serialized into a buffer that is large enough, occupies
  exactly \<open>Size\<close> bytes and parses back field by field; a shorter buffer is left alone.
\<close>

theorem hy_udp_round_trip:
  assumes q: "quicvarint qlen qparse qread"
    and m: "um_Addr m \<noteq> []" "length (um_Addr m) \<le> 2048" "um_Data m \<noteq> []"
  shows "ParseUDPMessage qparse msg \<noteq> None \<and>
    (if int (length buf) < um_Size qlen m then um_Serialize qlen m buf = Some (-1, buf)
     else \<exists>buf' w. um_Serialize qlen m buf = Some (um_Size qlen m, buf') \<and> length buf' = length buf \<and>
       go_slice buf' 0 (nat (um_Size qlen m)) = Some w \<and>
       ParseUDPMessage qparse w = Some (Inr (m\<lparr>um_Release := None\<rparr>)))"
proof -
  note sz = quicvarint.um_Size_enc [OF q m(2)]
  show ?thesis
  proof (cases "int (length buf) < um_Size qlen m")
    case True
    then show ?thesis using ParseUDPMessage_total [OF q] by (simp add: um_Serialize_def)
  next
    case False
    then have l: "length (um_enc m) \<le> length buf" by (simp add: sz)
    have "go_slice (um_enc m @ drop (length (um_enc m)) buf) 0 (nat (um_Size qlen m)) = Some (um_enc m)"
      using l by (simp add: sz go_slice_def)
    with False show ?thesis
      using ParseUDPMessage_total [OF q] quicvarint.um_Serialize_ok [OF q m(2) l] quicvarint.ParseUDPMessage_ok [OF q m] l
      by (simp add: sz)
  qed
qed

theorem hy_udp_round_trip_witness:
  "\<exists>w. ParseUDPMessage rfc_parse w = Some (Inr \<lparr>SessionID = 1, PacketID = 2, FragID = 0, FragCount = 1,
      um_Addr = [97, 58, 49], um_Data = [9], um_Release = None\<rparr>)"
  using hy_udp_round_trip [OF rfc.quicvarint_axioms, of "\<lparr>SessionID = 1, PacketID = 2, FragID = 0, FragCount = 1,
      um_Addr = [97, 58, 49], um_Data = [9], um_Release = None\<rparr>" "[]" "replicate 20 0"]
  by (auto simp: um_Size_def um_HeaderSize_def rfc_len_def word_le_nat_alt Let_def)

end
