(* ===== verification/HysteriaFrag.thy ===== *)
theory HysteriaFrag
  imports HysteriaWire
begin

section \<open>Hysteria 2 fragmentation\<close>

text \<open>
  Models \<open>protocol/hysteria2/internal/frag/frag.go\<close>. A \<open>*UDPMessage\<close> is a pair of its identity and
  its value. A call of a non-nil \<open>Release\<close> is recorded by the number of the buffer it gives back.
  The theorems show that reassembly is exact in any order, and that over any sequence of
  messages every pooled buffer is given back exactly once or handed to the caller.
\<close>

subsection \<open>Splitting\<close>

definition um_zero :: UDPMessage where
  "um_zero = \<lparr>SessionID = 0, PacketID = 0, FragID = 0, FragCount = 0, um_Addr = [], um_Data = [], um_Release = None\<rparr>"

text \<open>The loop of \<open>FragUDPMessage\<close>, over the offset, the next fragment number and the result slice.\<close>

partial_function (option) hy_frag_loop ::
    "UDPMessage \<Rightarrow> nat \<Rightarrow> byte \<Rightarrow> nat \<Rightarrow> byte \<Rightarrow> UDPMessage list \<Rightarrow> UDPMessage list option" where
  "hy_frag_loop m maxPayloadSize fragCount pos fragID frags =
     (if pos < length (um_Data m) then
        let payloadSize = min (length (um_Data m) - pos) maxPayloadSize;
            frag = m\<lparr>FragID := fragID, FragCount := fragCount,
                     um_Data := take payloadSize (drop pos (um_Data m))\<rparr> in
        if unat fragID < length frags then
          hy_frag_loop m maxPayloadSize fragCount (pos + payloadSize) (fragID + 1) (frags[unat fragID := frag])
        else None
      else Some frags)"

definition FragUDPMessage :: "(64 word \<Rightarrow> nat) \<Rightarrow> UDPMessage \<Rightarrow> int \<Rightarrow> (go_error + UDPMessage list) option" where
  "FragUDPMessage qlen m maxSize =
     (if um_Size qlen m \<le> maxSize then Some (Inr [m])
      else
        let maxPayloadSize = maxSize - um_HeaderSize qlen m in
        if maxPayloadSize \<le> 0 then
          Some (Inl (Err ''hysteria2: datagram max size %d cannot hold UDP header of %d bytes''))
        else
          let fragCount = (int (length (um_Data m)) + maxPayloadSize - 1) div maxPayloadSize in
          if fragCount > 255 then
            Some (Inl (Err ''hysteria2: datagram requires %d fragments, exceeds uint8 FragCount''))
          else map_option Inr
            (hy_frag_loop m (nat maxPayloadSize) (word_of_int fragCount) 0 0 (replicate (nat fragCount) um_zero)))"

subsection \<open>Reassembly\<close>

type_synonym um_ref = "nat \<times> UDPMessage"

record Defragger =
  dg_pktID :: "16 word"
  dg_frags :: "um_ref option list"
  dg_count :: byte
  dg_size :: nat
  dg_closed :: bool

definition newDefragger :: Defragger where
  "newDefragger = \<lparr>dg_pktID = 0, dg_frags = [], dg_count = 0, dg_size = 0, dg_closed = False\<rparr>"

definition um_releases :: "UDPMessage \<Rightarrow> nat list" where
  "um_releases m = (case um_Release m of None \<Rightarrow> [] | Some b \<Rightarrow> [b])"

definition dg_held :: "Defragger \<Rightarrow> nat list" where
  "dg_held d = concat (map (\<lambda>f. case f of None \<Rightarrow> [] | Some (_, m) \<Rightarrow> um_releases m) (dg_frags d))"

definition dg_releaseHeld :: "Defragger \<Rightarrow> Defragger \<times> nat list" where
  "dg_releaseHeld d = (d\<lparr>dg_frags := [], dg_count := 0, dg_size := 0\<rparr>, dg_held d)"

primrec dg_copy :: "um_ref option list \<Rightarrow> nat \<Rightarrow> bytes \<Rightarrow> (nat \<times> bytes) option" where
  "dg_copy [] n data = Some (n, data)"
| "dg_copy (f # fs) n data = do {
     (_, frag) \<leftarrow> f;
     (k, data') \<leftarrow> copy_at data n (um_Data frag);
     dg_copy fs (n + k) data' }"

text \<open>\<open>Feed\<close>: the message returned, the buffers given back, and the defragger; \<open>None\<close> is a panic.\<close>

definition dg_Feed :: "Defragger \<Rightarrow> um_ref \<Rightarrow> (um_ref option \<times> nat list \<times> Defragger) option" where
  "dg_Feed d r =
     (let m = snd r in
      if dg_closed d then Some (None, um_releases m, d)
      else if FragCount m \<le> 1 then Some (Some r, [], d)
      else if FragID m \<ge> FragCount m then Some (None, um_releases m, d)
      else if PacketID m \<noteq> dg_pktID d \<or> FragCount m \<noteq> word_of_nat (length (dg_frags d)) then
        let (d1, rel) = dg_releaseHeld d in
        Some (None, rel, d1\<lparr>dg_pktID := PacketID m,
          dg_frags := (replicate (unat (FragCount m)) None)[unat (FragID m) := Some r],
          dg_count := 1, dg_size := length (um_Data m)\<rparr>)
      else do {
        held \<leftarrow> go_index (dg_frags d) (unat (FragID m));
        case held of
          None \<Rightarrow>
            let d1 = d\<lparr>dg_frags := (dg_frags d)[unat (FragID m) := Some r], dg_count := dg_count d + 1,
                       dg_size := dg_size d + length (um_Data m)\<rparr> in
            if unat (dg_count d1) = length (dg_frags d1) then do {
              (_, data) \<leftarrow> dg_copy (dg_frags d1) 0 (replicate (dg_size d1) 0);
              let (d2, rel) = dg_releaseHeld d1;
              Some (Some (fst r, m\<lparr>um_Data := data, FragID := 0, FragCount := 1, um_Release := None\<rparr>), rel, d2) }
            else Some (None, [], d1)
        | Some f \<Rightarrow> Some (None, if fst f \<noteq> fst r then um_releases m else [], d) })"

definition dg_Close :: "Defragger \<Rightarrow> Defragger \<times> nat list" where
  "dg_Close d = dg_releaseHeld (d\<lparr>dg_closed := True\<rparr>)"

text \<open>A sequence of messages: those returned, and the buffers given back on the way.\<close>

primrec dg_feed_all :: "Defragger \<Rightarrow> um_ref list \<Rightarrow> (um_ref list \<times> nat list \<times> Defragger) option" where
  "dg_feed_all d [] = Some ([], [], d)"
| "dg_feed_all d (r # rs) = do {
     (out, rel, d1) \<leftarrow> dg_Feed d r;
     (outs, rels, d2) \<leftarrow> dg_feed_all d1 rs;
     Some ((case out of None \<Rightarrow> outs | Some x \<Rightarrow> x # outs), rel @ rels, d2) }"

subsection \<open>No buffer is lost or given back twice\<close>

text \<open>
  The count is the number of slots in use, below the number of slots; the slots fit a
  byte; the size is that of the fragments held.
\<close>

definition slots_used :: "'a option list \<Rightarrow> nat" where
  "slots_used xs = length (filter (\<lambda>x. x \<noteq> None) xs)"

definition frag_data :: "um_ref option \<Rightarrow> bytes" where
  "frag_data f = (case f of None \<Rightarrow> [] | Some (_, m) \<Rightarrow> um_Data m)"

definition dg_inv :: "Defragger \<Rightarrow> bool" where
  "dg_inv d \<longleftrightarrow> unat (dg_count d) = slots_used (dg_frags d) \<and> length (dg_frags d) \<le> 255 \<and>
     (dg_frags d \<noteq> [] \<longrightarrow> slots_used (dg_frags d) < length (dg_frags d)) \<and>
     dg_size d = length (concat (map frag_data (dg_frags d)))"

lemma slots_used_update: "i < length xs \<Longrightarrow> xs ! i = None \<Longrightarrow> slots_used (xs[i := Some x]) = Suc (slots_used xs)"
proof (induction xs arbitrary: i)
  case (Cons y ys)
  then show ?case by (cases i) (auto simp: slots_used_def)
qed simp

lemma slots_used_replicate [simp]: "slots_used (replicate n None) = 0"
  by (simp add: slots_used_def)

lemma slots_used_full: "slots_used xs = length xs \<Longrightarrow> None \<notin> set xs"
  unfolding slots_used_def using length_filter_less [of None xs "\<lambda>x. x \<noteq> None"] by auto

lemma concat_map_update:
  assumes "i < length xs" "f (xs ! i) = []"
  shows "mset (concat (map f (xs[i := x]))) = mset (concat (map f xs)) + mset (f x)"
proof -
  have "xs = take i xs @ xs ! i # drop (Suc i) xs" using assms(1) by (rule id_take_nth_drop)
  then have "concat (map f xs) = concat (map f (take i xs)) @ f (xs ! i) @ concat (map f (drop (Suc i) xs))"
    by (metis concat.simps(2) concat_append list.simps(9) map_append)
  with assms show ?thesis by (simp add: upd_conv_take_nth_drop)
qed

lemma dg_copy_total:
  assumes "None \<notin> set fs" "length (concat (map frag_data fs)) \<le> length data"
  shows "dg_copy fs (length pre) (pre @ data) =
    Some (length pre + length (concat (map frag_data fs)),
      pre @ concat (map frag_data fs) @ drop (length (concat (map frag_data fs))) data)"
  using assms
proof (induction fs arbitrary: pre data)
  case (Cons f fs)
  then obtain i m where f: "f = Some (i, m)" by (cases f) auto
  have "copy_at (pre @ data) (length pre) (um_Data m) =
      Some (length (um_Data m), (pre @ um_Data m) @ drop (length (um_Data m)) data)"
    using copy_at_front [of pre "length pre" "um_Data m" data] Cons.prems by (simp add: f frag_data_def)
  with Cons.IH [of "drop (length (um_Data m)) data" "pre @ um_Data m"] Cons.prems show ?case
    by (simp add: f frag_data_def add.commute)
qed simp

lemma length_concat_map_update:
  assumes "i < length xs" "f (xs ! i) = []"
  shows "length (concat (map f (xs[i := x]))) = length (concat (map f xs)) + length (f x)"
  using arg_cong [OF concat_map_update [of i xs f x, OF assms], of size] by (simp only: size_mset size_union)

definition dg_ptrs :: "Defragger \<Rightarrow> nat set" where
  "dg_ptrs d = {i. \<exists>m. Some (i, m) \<in> set (dg_frags d)}"

lemma dg_held_update:
  assumes "i < length (dg_frags d)" "dg_frags d ! i = None"
  shows "mset (concat (map (\<lambda>f. case f of None \<Rightarrow> [] | Some (_, m) \<Rightarrow> um_releases m) ((dg_frags d)[i := Some (p, m)]))) =
    mset (dg_held d) + mset (um_releases m)"
  using concat_map_update [of i "dg_frags d" "\<lambda>f. case f of None \<Rightarrow> [] | Some (_, m) \<Rightarrow> um_releases m" "Some (p, m)"] assms
  by (simp add: dg_held_def)

lemma ptrs_update: "dg_ptrs (d\<lparr>dg_frags := (dg_frags d)[i := Some (p, m)], dg_count := c, dg_size := s\<rparr>) \<subseteq> insert p (dg_ptrs d)"
  using set_update_subset_insert [of "dg_frags d" i "Some (p, m)"] by (auto simp: dg_ptrs_def)

text \<open>
  One message: \<open>Feed\<close> does not panic, keeps the invariant, and accounts for the buffer of
  the message and of every fragment held.
\<close>

lemma dg_Feed_new:
  assumes inv: "dg_inv d" and m: "\<not> dg_closed d" "\<not> FragCount m \<le> 1" "\<not> FragID m \<ge> FragCount m"
    and new: "PacketID m \<noteq> dg_pktID d \<or> FragCount m \<noteq> word_of_nat (length (dg_frags d))"
  shows "\<exists>d'. dg_Feed d (p, m) = Some (None, dg_held d, d') \<and> dg_inv d' \<and>
    dg_pktID d' = PacketID m \<and> dg_frags d' = (replicate (unat (FragCount m)) None)[unat (FragID m) := Some (p, m)] \<and>
    \<not> dg_closed d'"
proof -
  define xs where "xs = (replicate (unat (FragCount m)) None :: um_ref option list)"
  have i: "unat (FragID m) < length xs" "xs ! unat (FragID m) = None" "2 \<le> length xs" "length xs \<le> 255"
    using m(2,3) unsigned_less [of "FragCount m", where ?'a = nat]
    by (simp_all add: xs_def word_le_nat_alt)
  have "slots_used (xs[unat (FragID m) := Some (p, m)]) = 1"
    using slots_used_update [OF i(1,2), of "(p, m)"] by (simp add: xs_def)
  moreover have "concat (map frag_data xs) = []" by (simp add: xs_def frag_data_def)
  then have "length (concat (map frag_data (xs[unat (FragID m) := Some (p, m)]))) = length (um_Data m)"
    using length_concat_map_update [OF i(1), of frag_data "Some (p, m)"] i(2) by (simp add: frag_data_def)
  ultimately show ?thesis
    using m new i(3,4) by (simp add: dg_Feed_def dg_releaseHeld_def dg_inv_def flip: xs_def)
qed

lemma dg_Feed_more:
  fixes p
  assumes inv: "dg_inv d" and m: "\<not> dg_closed d" "\<not> FragCount m \<le> 1" "\<not> FragID m \<ge> FragCount m"
    and same: "PacketID m = dg_pktID d" "FragCount m = word_of_nat (length (dg_frags d))"
    and free: "dg_frags d ! unat (FragID m) = None"
  defines "fs \<equiv> (dg_frags d)[unat (FragID m) := Some (p, m)]"
  shows "\<exists>d' rel. dg_Feed d (p, m) =
      Some (if slots_used fs = length fs then
              Some (p, m\<lparr>um_Data := concat (map frag_data fs), FragID := 0, FragCount := 1, um_Release := None\<rparr>)
            else None, rel, d') \<and> dg_inv d' \<and> \<not> dg_closed d' \<and> dg_pktID d' = dg_pktID d \<and>
    mset rel + mset (dg_held d') = mset (dg_held d) + mset (um_releases m) \<and>
    dg_frags d' = (if slots_used fs = length fs then [] else fs)"
proof -
  have len: "unat (FragCount m) = length (dg_frags d)"
    using same(2) inv by (simp add: dg_inv_def unsigned_of_nat take_bit_nat_eq_self)
  then have i: "unat (FragID m) < length (dg_frags d)" using m(3) by (simp add: word_le_nat_alt)
  have used: "slots_used fs = Suc (slots_used (dg_frags d))" unfolding fs_def by (rule slots_used_update [OF i free])
  define d1 where "d1 = d\<lparr>dg_frags := fs, dg_count := dg_count d + 1, dg_size := dg_size d + length (um_Data m)\<rparr>"
  have cnt: "unat (dg_count d1) = slots_used fs"
  proof -
    have "unat (dg_count d) < 255" using inv i by (auto simp: dg_inv_def)
    then show ?thesis using inv used by (simp add: d1_def dg_inv_def unat_word_ariths)
  qed
  have sz: "dg_size d1 = length (concat (map frag_data fs))"
    using length_concat_map_update [OF i, of frag_data "Some (p, m)"] free inv
    by (simp add: d1_def fs_def dg_inv_def frag_data_def)
  have held: "mset (dg_held d1) = mset (dg_held d) + mset (um_releases m)"
    using dg_held_update [OF i free, of p m] by (simp add: d1_def dg_held_def fs_def)
  have feed: "dg_Feed d (p, m) =
      (if slots_used fs = length fs then do {
         (_, data) \<leftarrow> dg_copy fs 0 (replicate (dg_size d1) 0);
         let (d2, rel) = dg_releaseHeld d1;
         Some (Some (p, m\<lparr>um_Data := data, FragID := 0, FragCount := 1, um_Release := None\<rparr>), rel, d2) }
       else Some (None, [], d1))"
    using m same free i cnt by (simp add: dg_Feed_def Let_def flip: fs_def d1_def) (simp add: d1_def)
  show ?thesis
  proof (cases "slots_used fs = length fs")
    case True
    have "dg_copy fs 0 (replicate (dg_size d1) 0) = Some (length (concat (map frag_data fs)), concat (map frag_data fs))"
      using dg_copy_total [OF slots_used_full [OF True], of "replicate (dg_size d1) 0" "[]"] by (simp add: sz)
    with True held m(1) show ?thesis unfolding feed
      by (simp add: dg_releaseHeld_def dg_inv_def dg_held_def [of "d1\<lparr>dg_frags := _, dg_count := _, dg_size := _\<rparr>"])
        (simp add: slots_used_def d1_def)
  next
    case False
    have "length fs \<le> 255" using inv by (simp add: fs_def dg_inv_def)
    moreover have "slots_used fs \<le> length fs" by (simp add: slots_used_def)
    ultimately have "dg_inv d1" using False cnt sz unfolding dg_inv_def by (auto simp: d1_def)
    with False held m(1) show ?thesis unfolding feed by (simp add: d1_def)
  qed
qed

definition out_releases :: "um_ref option \<Rightarrow> nat list" where
  "out_releases out = (case out of None \<Rightarrow> [] | Some r \<Rightarrow> um_releases (snd r))"

lemma held_replicate: "dg_held (d\<lparr>dg_frags := (replicate n None)[i := Some (p, m)]\<rparr>) = um_releases m" if "i < n"
  using that by (induction n arbitrary: i) (auto simp: dg_held_def split: nat.splits)

lemma dg_Feed_conserves:
  assumes inv: "dg_inv d" and p: "p \<notin> dg_ptrs d"
  shows "\<exists>out rel d'. dg_Feed d (p, m) = Some (out, rel, d') \<and> dg_inv d' \<and> dg_ptrs d' \<subseteq> insert p (dg_ptrs d) \<and>
    mset rel + mset (out_releases out) + mset (dg_held d') = mset (dg_held d) + mset (um_releases m)"
proof -
  consider (closed) "dg_closed d" | (single) "\<not> dg_closed d" "FragCount m \<le> 1"
    | (bad) "\<not> dg_closed d" "\<not> FragCount m \<le> 1" "FragID m \<ge> FragCount m"
    | (new) "\<not> dg_closed d" "\<not> FragCount m \<le> 1" "\<not> FragID m \<ge> FragCount m"
        "PacketID m \<noteq> dg_pktID d \<or> FragCount m \<noteq> word_of_nat (length (dg_frags d))"
    | (same) "\<not> dg_closed d" "\<not> FragCount m \<le> 1" "\<not> FragID m \<ge> FragCount m"
        "PacketID m = dg_pktID d" "FragCount m = word_of_nat (length (dg_frags d))" by blast
  then show ?thesis
  proof cases
    case new
    then obtain d' where d': "dg_Feed d (p, m) = Some (None, dg_held d, d')" "dg_inv d'"
        "dg_frags d' = (replicate (unat (FragCount m)) None)[unat (FragID m) := Some (p, m)]"
      using dg_Feed_new [OF inv new] by blast
    have i: "unat (FragID m) < unat (FragCount m)" using new(3) by (simp add: word_le_nat_alt)
    have "dg_held d' = um_releases m" using held_replicate [OF i, where d = d' and p = p and m = m] d'(3) by (simp add: dg_held_def)
    moreover have "dg_ptrs d' \<subseteq> {p}"
      using set_update_subset_insert [of "replicate (unat (FragCount m)) None" "unat (FragID m)" "Some (p, m)"] d'(3)
      by (auto simp: dg_ptrs_def split: if_splits)
    ultimately show ?thesis using d' by (auto simp: out_releases_def)
  next
    case same
    have len: "unat (FragCount m) = length (dg_frags d)"
      using same(5) inv by (simp add: dg_inv_def unsigned_of_nat take_bit_nat_eq_self)
    then have i: "unat (FragID m) < length (dg_frags d)" using same(3) by (simp add: word_le_nat_alt)
    show ?thesis
    proof (cases "dg_frags d ! unat (FragID m)")
      case None
      let ?fs = "(dg_frags d)[unat (FragID m) := Some (p, m)]"
      obtain d' rel where d': "dg_Feed d (p, m) =
          Some (if slots_used ?fs = length ?fs then
              Some (p, m\<lparr>um_Data := concat (map frag_data ?fs), FragID := 0, FragCount := 1, um_Release := None\<rparr>)
            else None, rel, d')" "dg_inv d'"
          "mset rel + mset (dg_held d') = mset (dg_held d) + mset (um_releases m)"
          "dg_frags d' = (if slots_used ?fs = length ?fs then [] else ?fs)"
        using dg_Feed_more [OF inv same None, of p] by blast
      have "dg_ptrs d' \<subseteq> insert p (dg_ptrs d)"
        using set_update_subset_insert [of "dg_frags d" "unat (FragID m)" "Some (p, m)"] d'(4)
        by (auto simp: dg_ptrs_def split: if_splits)
      with d'(1-3) show ?thesis by (auto simp: out_releases_def um_releases_def)
    next
      case (Some f)
      then have "fst f \<noteq> p" using p i nth_mem [OF i] by (cases f) (auto simp: dg_ptrs_def)
      with same i Some inv show ?thesis by (simp add: dg_Feed_def out_releases_def subset_insertI)
    qed
  qed (use inv in \<open>simp_all add: dg_Feed_def out_releases_def subset_insertI\<close>)
qed

lemma dg_feed_all_conserves:
  assumes "dg_inv d" "distinct (map fst rs)" "set (map fst rs) \<inter> dg_ptrs d = {}"
  shows "\<exists>outs rels d'. dg_feed_all d rs = Some (outs, rels, d') \<and> dg_inv d' \<and>
    mset rels + mset (concat (map (\<lambda>r. um_releases (snd r)) outs)) + mset (dg_held d') =
    mset (dg_held d) + mset (concat (map (\<lambda>r. um_releases (snd r)) rs))"
  using assms
proof (induction rs arbitrary: d)
  case (Cons r rs)
  obtain p m where r: "r = (p, m)" by (cases r)
  obtain out rel d1 where s: "dg_Feed d (p, m) = Some (out, rel, d1)" "dg_inv d1" "dg_ptrs d1 \<subseteq> insert p (dg_ptrs d)"
      "mset rel + mset (out_releases out) + mset (dg_held d1) = mset (dg_held d) + mset (um_releases m)"
    using dg_Feed_conserves [OF Cons.prems(1), of p m] Cons.prems(3) r by auto
  have "set (map fst rs) \<inter> dg_ptrs d1 = {}" using s(3) Cons.prems(2,3) r by auto
  then obtain outs rels d2 where t: "dg_feed_all d1 rs = Some (outs, rels, d2)" "dg_inv d2"
      "mset rels + mset (concat (map (\<lambda>r. um_releases (snd r)) outs)) + mset (dg_held d2) =
       mset (dg_held d1) + mset (concat (map (\<lambda>r. um_releases (snd r)) rs))"
    using Cons.IH [OF s(2)] Cons.prems(2) by auto
  let ?outs = "case out of None \<Rightarrow> outs | Some x \<Rightarrow> x # outs"
  have "mset (concat (map (\<lambda>r. um_releases (snd r)) ?outs)) =
      mset (out_releases out) + mset (concat (map (\<lambda>r. um_releases (snd r)) outs))"
    by (simp add: out_releases_def split: option.splits)
  then have "mset (rel @ rels) + mset (concat (map (\<lambda>r. um_releases (snd r)) ?outs)) + mset (dg_held d2) =
      mset rel + mset (out_releases out) + (mset rels + mset (concat (map (\<lambda>r. um_releases (snd r)) outs)) + mset (dg_held d2))"
    by (simp add: ac_simps)
  also have "\<dots> = (mset rel + mset (out_releases out) + mset (dg_held d1)) + mset (concat (map (\<lambda>r. um_releases (snd r)) rs))"
    unfolding t(3) by (simp add: ac_simps)
  finally have "mset (rel @ rels) + mset (concat (map (\<lambda>r. um_releases (snd r)) ?outs)) + mset (dg_held d2) =
      mset (dg_held d) + mset (concat (map (\<lambda>r. um_releases (snd r)) (r # rs)))"
    unfolding s(4) by (simp add: r ac_simps)
  with s(1) t(1,2) r show ?case by (simp add: r)
qed simp

subsection \<open>What splitting produces\<close>

definition hy_frag_of :: "UDPMessage \<Rightarrow> nat \<Rightarrow> nat \<Rightarrow> nat \<Rightarrow> UDPMessage" where
  "hy_frag_of m k n i = m\<lparr>FragID := word_of_nat i, FragCount := word_of_nat n, um_Data := take k (drop (i * k) (um_Data m))\<rparr>"

lemma byte_of_nat: "n < 256 \<Longrightarrow> unat (word_of_nat n :: byte) = n"
  by (simp add: unsigned_of_nat take_bit_nat_eq_self)

lemma hy_frag_loop_step:
  assumes "pos < length (um_Data m)" "unat fid < length frags"
  shows "hy_frag_loop m k c pos fid frags = hy_frag_loop m k c (pos + min (length (um_Data m) - pos) k) (fid + 1)
    (frags[unat fid := m\<lparr>FragID := fid, FragCount := c, um_Data := take (min (length (um_Data m) - pos) k) (drop pos (um_Data m))\<rparr>])"
  by (subst hy_frag_loop.simps) (simp add: assms Let_def)

lemma hy_frag_loop_ok:
  fixes m :: UDPMessage and k i :: nat
  assumes k: "0 < k"
  defines "n \<equiv> length (um_Data m)"
  defines "N \<equiv> (n + k - 1) div k"
  assumes N: "N \<le> 255" and i: "i \<le> N"
  shows "hy_frag_loop m k (word_of_nat N) (min (i * k) n) (word_of_nat i)
      (map (hy_frag_of m k N) [0..<i] @ replicate (N - i) um_zero) = Some (map (hy_frag_of m k N) [0..<N])"
  using i
proof (induction "N - i" arbitrary: i)
  case 0
  then have "\<not> i * k < n" using frag_count_iff [OF k, of i n] by (simp add: N_def)
  with 0 show ?case by (subst hy_frag_loop.simps) (simp add: n_def)
next
  case (Suc j)
  then have i: "i * k < n" "i < N" using frag_count_iff [OF k, of i n] by (auto simp: N_def)
  let ?frags = "map (hy_frag_of m k N) [0..<i] @ replicate (N - i) um_zero"
  have fid: "unat (word_of_nat i :: byte) = i" "(word_of_nat i :: byte) + 1 = word_of_nat (Suc i)"
    using i(2) N by (simp_all add: byte_of_nat add.commute)
  have "m\<lparr>FragID := word_of_nat i, FragCount := word_of_nat N, um_Data := take (min (n - i * k) k) (drop (i * k) (um_Data m))\<rparr> =
      hy_frag_of m k N i"
    by (simp add: hy_frag_of_def n_def min_def)
  moreover have "?frags[i := hy_frag_of m k N i] = map (hy_frag_of m k N) [0..<Suc i] @ replicate (N - Suc i) um_zero"
    using i(2) by (simp add: list_update_append Suc_diff_Suc [symmetric])
  ultimately have step: "hy_frag_loop m k (word_of_nat N) (i * k) (word_of_nat i) ?frags =
      hy_frag_loop m k (word_of_nat N) (i * k + min (n - i * k) k) (word_of_nat (Suc i))
        (map (hy_frag_of m k N) [0..<Suc i] @ replicate (N - Suc i) um_zero)"
    using hy_frag_loop_step [OF i(1) [unfolded n_def], of "word_of_nat i" ?frags k "word_of_nat N"] i(2) fid
    by (simp only: n_def length_append length_map length_upt length_replicate)
  have pos: "i * k + min (n - i * k) k = min (Suc i * k) n" "min (i * k) n = i * k" using i(1) by simp_all
  show ?case unfolding pos(2) step pos(1) using Suc.hyps i(2) by (intro Suc.hyps(1)) simp_all
qed

lemma FragUDPMessage_split:
  fixes m :: UDPMessage and k :: nat
  assumes big: "um_Size qlen m > maxSize" and k: "maxSize - um_HeaderSize qlen m = int k" "0 < k"
  defines "N \<equiv> (length (um_Data m) + k - 1) div k"
  assumes N: "N \<le> 255"
  shows "FragUDPMessage qlen m maxSize = Some (Inr (map (hy_frag_of m k N) [0..<N])) \<and>
    concat (map um_Data (map (hy_frag_of m k N) [0..<N])) = um_Data m"
proof -
  have c: "(int (length (um_Data m)) + int k - 1) div int k = int N" using k(2) by (simp add: N_def zdiv_int)
  have "hy_frag_loop m k (word_of_nat N) 0 0 (replicate N um_zero) = Some (map (hy_frag_of m k N) [0..<N])"
    using hy_frag_loop_ok [OF k(2), of m 0] N by (simp add: N_def)
  moreover have "length (um_Data m) \<le> N * k" using frag_count_iff [OF k(2), of N "length (um_Data m)"] by (simp add: N_def)
  ultimately show ?thesis
    using big k c N by (simp add: FragUDPMessage_def Let_def comp_def hy_frag_of_def concat_chunks)
qed

subsection \<open>Reassembly in any order\<close>

definition hy_frag_set :: "UDPMessage list \<Rightarrow> bool" where
  "hy_frag_set fs \<longleftrightarrow> 2 \<le> length fs \<and> length fs \<le> 255 \<and>
     (\<forall>i < length fs. unat (FragCount (fs ! i)) = length fs \<and> unat (FragID (fs ! i)) = i \<and>
        PacketID (fs ! i) = PacketID (fs ! 0))"

definition hy_slots :: "(nat \<Rightarrow> nat) \<Rightarrow> UDPMessage list \<Rightarrow> nat set \<Rightarrow> um_ref option list" where
  "hy_slots r fs S = map (\<lambda>i. if i \<in> S then Some (r i, fs ! i) else None) [0..<length fs]"

lemma hy_slots_insert:
  "i < length fs \<Longrightarrow> (hy_slots r fs S)[i := Some (r i, fs ! i)] = hy_slots r fs (insert i S)"
  by (rule nth_equalityI) (auto simp: hy_slots_def nth_list_update)

lemma hy_slots_empty: "hy_slots r fs {} = replicate (length fs) None"
  by (simp add: hy_slots_def map_replicate_const)

lemma slots_used_hy:
  assumes "S \<subseteq> {..<length fs}"
  shows "slots_used (hy_slots r fs S) = card S"
proof -
  have "slots_used (hy_slots r fs S) = length (filter (\<lambda>i. i \<in> S) [0..<length fs])"
    by (simp add: slots_used_def hy_slots_def filter_map comp_def)
  also have "\<dots> = card (set (filter (\<lambda>i. i \<in> S) [0..<length fs]))" by (rule distinct_card [symmetric]) simp
  also have "set (filter (\<lambda>i. i \<in> S) [0..<length fs]) = S" using assms by auto
  finally show ?thesis .
qed

definition dg_holds :: "(nat \<Rightarrow> nat) \<Rightarrow> UDPMessage list \<Rightarrow> Defragger \<Rightarrow> nat set \<Rightarrow> bool" where
  "dg_holds r fs d S \<longleftrightarrow> dg_inv d \<and> \<not> dg_closed d \<and>
     (if S = {} then PacketID (fs ! 0) \<noteq> dg_pktID d \<or> length fs \<noteq> length (dg_frags d)
      else dg_pktID d = PacketID (fs ! 0) \<and> dg_frags d = hy_slots r fs S)"

lemma hy_frag_data_all: "concat (map frag_data (hy_slots r fs {..<length fs})) = concat (map um_Data fs)"
proof -
  have "map frag_data (hy_slots r fs {..<length fs}) = map (\<lambda>i. um_Data (fs ! i)) [0..<length fs]"
    by (simp add: hy_slots_def frag_data_def)
  then show ?thesis by (simp only: map_upt_nth)
qed

lemma hy_step:
  assumes fs: "hy_frag_set fs" and d: "dg_holds r fs d S" and S: "S \<subset> {..<length fs}" "i < length fs" "i \<notin> S"
  shows "\<exists>rel d'. if insert i S = {..<length fs}
    then dg_Feed d (r i, fs ! i) = Some (Some (r i, (fs ! i)\<lparr>um_Data := concat (map um_Data fs), FragID := 0,
        FragCount := 1, um_Release := None\<rparr>), rel, d')
    else dg_Feed d (r i, fs ! i) = Some (None, rel, d') \<and> dg_holds r fs d' (insert i S)"
proof -
  let ?m = "fs ! i"
  have m: "unat (FragCount ?m) = length fs" "unat (FragID ?m) = i" "PacketID ?m = PacketID (fs ! 0)" "2 \<le> length fs" "length fs \<le> 255"
    using fs S(2) by (auto simp: hy_frag_set_def)
  have inv: "dg_inv d" "\<not> dg_closed d" using d by (simp_all add: dg_holds_def)
  have f: "\<not> FragCount ?m \<le> 1" "\<not> FragID ?m \<ge> FragCount ?m" using m S(2) by (simp_all add: word_le_nat_alt)
  have cnt: "FragCount ?m = word_of_nat l \<longleftrightarrow> length fs = l" if "l \<le> 255" for l
    using m(1) that by (auto simp: word_unat_eq_iff byte_of_nat)
  show ?thesis
  proof (cases "S = {}")
    case True
    have "length (dg_frags d) \<le> 255" using inv(1) by (simp add: dg_inv_def)
    with d True m(3) cnt have new: "PacketID ?m \<noteq> dg_pktID d \<or> FragCount ?m \<noteq> word_of_nat (length (dg_frags d))"
      by (auto simp: dg_holds_def)
    have "card (insert i S) \<noteq> card {..<length fs}" using True m(4) by simp
    then have "insert i S \<noteq> {..<length fs}" by metis
    moreover have "(replicate (length fs) None)[i := Some (r i, ?m)] = hy_slots r fs (insert i S)"
      using hy_slots_insert [OF S(2), of r "{}"] True by (simp add: hy_slots_empty)
    ultimately show ?thesis
      using dg_Feed_new [OF inv f new, of "r i"] m by (auto simp: dg_holds_def)
  next
    case False
    with d have h: "dg_pktID d = PacketID (fs ! 0)" "dg_frags d = hy_slots r fs S" by (simp_all add: dg_holds_def)
    have l: "length (dg_frags d) = length fs" by (simp add: h hy_slots_def)
    have free: "dg_frags d ! unat (FragID ?m) = None" using S m(2) by (simp add: h hy_slots_def)
    have upd: "(dg_frags d)[unat (FragID ?m) := Some (r i, ?m)] = hy_slots r fs (insert i S)"
      using hy_slots_insert [OF S(2), of r S] m(2) by (simp add: h)
    have sub: "insert i S \<subseteq> {..<length fs}" using S by auto
    have full: "slots_used (hy_slots r fs (insert i S)) = length (hy_slots r fs (insert i S)) \<longleftrightarrow> insert i S = {..<length fs}"
    proof -
      have "length (hy_slots r fs (insert i S)) = length fs" by (simp add: hy_slots_def)
      then show ?thesis unfolding slots_used_hy [OF sub] by (metis card_lessThan card_subset_eq finite_lessThan sub)
    qed
    have "FragCount ?m = word_of_nat (length (dg_frags d))" using cnt [of "length fs"] l m(5) by simp
    from dg_Feed_more [OF inv f _ this free, of "r i", unfolded upd full] m(3) h(1)
    obtain d' rel where "dg_Feed d (r i, ?m) = Some (if insert i S = {..<length fs} then
          Some (r i, ?m\<lparr>um_Data := concat (map frag_data (hy_slots r fs (insert i S))), FragID := 0, FragCount := 1, um_Release := None\<rparr>)
        else None, rel, d')" "dg_inv d'" "\<not> dg_closed d'" "dg_pktID d' = dg_pktID d"
      "dg_frags d' = (if insert i S = {..<length fs} then [] else hy_slots r fs (insert i S))" by auto
    then show ?thesis using h(1) hy_frag_data_all [of r fs] by (intro exI [of _ rel] exI [of _ d']) (simp add: dg_holds_def)
  qed
qed

lemma hy_reassembles:
  assumes fs: "hy_frag_set fs"
  shows "dg_holds r fs d S \<Longrightarrow> distinct ord \<Longrightarrow> ord \<noteq> [] \<Longrightarrow> set ord \<inter> S = {} \<Longrightarrow> set ord \<union> S = {..<length fs} \<Longrightarrow>
    \<exists>rels d'. dg_feed_all d (map (\<lambda>i. (r i, fs ! i)) ord) = Some ([(r (last ord), (fs ! last ord)\<lparr>um_Data := concat (map um_Data fs),
      FragID := 0, FragCount := 1, um_Release := None\<rparr>)], rels, d')"
proof (induction ord arbitrary: d S)
  case (Cons i ord)
  then have S: "S \<subset> {..<length fs}" "i < length fs" "i \<notin> S" by auto
  obtain rel d' where step: "if insert i S = {..<length fs}
      then dg_Feed d (r i, fs ! i) = Some (Some (r i, (fs ! i)\<lparr>um_Data := concat (map um_Data fs), FragID := 0,
          FragCount := 1, um_Release := None\<rparr>), rel, d')
      else dg_Feed d (r i, fs ! i) = Some (None, rel, d') \<and> dg_holds r fs d' (insert i S)"
    using hy_step [OF fs Cons.prems(1) S] by (elim exE) (rule that)
  show ?case
  proof (cases "ord = []")
    case True
    then have "insert i S = {..<length fs}" using Cons.prems(5) by simp
    with step True show ?thesis by simp
  next
    case False
    then obtain j where j: "j \<in> set ord" using hd_in_set by blast
    then have "j \<notin> insert i S" "j < length fs" using Cons.prems(2,4,5) by auto
    then have "insert i S \<noteq> {..<length fs}" by blast
    with step have d': "dg_Feed d (r i, fs ! i) = Some (None, rel, d')" "dg_holds r fs d' (insert i S)" by simp_all
    have "\<exists>rels d''. dg_feed_all d' (map (\<lambda>i. (r i, fs ! i)) ord) = Some ([(r (last ord), (fs ! last ord)\<lparr>um_Data := concat (map um_Data fs),
        FragID := 0, FragCount := 1, um_Release := None\<rparr>)], rels, d'')"
    proof (rule Cons.IH [OF d'(2)])
      show "set ord \<inter> insert i S = {}" using Cons.prems(2,4) by auto
      show "set ord \<union> insert i S = {..<length fs}" using Cons.prems(5) by simp
    qed (use Cons.prems(2) False in simp_all)
    with d'(1) False show ?thesis by (elim exE) simp
  qed
qed simp

subsection \<open>Properties\<close>

text \<open>
  C3: A message too large for one datagram is split by \<open>FragUDPMessage\<close> into fragments that
  each fit it. Whatever order they arrive in, and whatever message of another packet ID or
  fragment count a live defragger was collecting before, it hands up one message only, at the last fragment, and this is the original one.
\<close>

theorem hy_frag_reassembles:
  assumes big: "um_Size qlen m > maxSize" and k: "maxSize - um_HeaderSize qlen m = int k" "0 < k"
    and N: "(length (um_Data m) + k - 1) div k = N" "N \<le> 255"
    and d: "dg_inv d" "\<not> dg_closed d" "PacketID m \<noteq> dg_pktID d \<or> N \<noteq> length (dg_frags d)"
    and ord: "mset ord = mset [0..<N]"
  shows "\<exists>fs rels d'. FragUDPMessage qlen m maxSize = Some (Inr fs) \<and> length fs = N \<and>
    list_all (\<lambda>f. um_Size qlen f \<le> maxSize) fs \<and>
    dg_feed_all d (map (\<lambda>i. (r i, fs ! i)) ord) =
      Some ([(r (last ord), m\<lparr>FragID := 0, FragCount := 1, um_Release := None\<rparr>)], rels, d')"
proof -
  let ?fs = "map (hy_frag_of m k N) [0..<N]"
  note ord' = mset_upt_perm [OF ord]
  have "k < length (um_Data m)" using big k(1) by (simp add: um_Size_def)
  then have "1 < N" using frag_count_iff [OF k(2), of 1 "length (um_Data m)"] N(1) by simp
  moreover then have fs: "hy_frag_set ?fs" using N(2) by (simp add: hy_frag_set_def hy_frag_of_def byte_of_nat)
  moreover have "dg_holds r ?fs d {}" using d \<open>1 < N\<close> by (simp add: dg_holds_def hy_frag_of_def)
  ultimately obtain rels d' where f: "dg_feed_all d (map (\<lambda>i. (r i, ?fs ! i)) ord) =
      Some ([(r (last ord), (?fs ! last ord)\<lparr>um_Data := concat (map um_Data ?fs), FragID := 0, FragCount := 1, um_Release := None\<rparr>)], rels, d')"
    using hy_reassembles [OF fs, of r d "{}" ord] ord' by fastforce
  have split: "FragUDPMessage qlen m maxSize = Some (Inr ?fs)" "concat (map um_Data ?fs) = um_Data m"
    using FragUDPMessage_split [OF big k] N by simp_all
  have "ord \<noteq> []" using ord' \<open>1 < N\<close> by fastforce
  then have "last ord < N" using ord' last_in_set by blast
  then have "(?fs ! last ord)\<lparr>um_Data := um_Data m, FragID := 0, FragCount := 1, um_Release := None\<rparr> =
      m\<lparr>FragID := 0, FragCount := 1, um_Release := None\<rparr>" by (simp add: hy_frag_of_def)
  moreover have "list_all (\<lambda>f. um_Size qlen f \<le> maxSize) ?fs"
    using k(1) by (auto simp: list_all_iff hy_frag_of_def um_Size_def um_HeaderSize_def Let_def)
  ultimately show ?thesis using f split by (intro exI [of _ ?fs]) simp
qed

theorem hy_frag_reassembles_witness:
  "\<exists>fs rels d'. FragUDPMessage rfc_len \<lparr>SessionID = 1, PacketID = 2, FragID = 0, FragCount = 1,
      um_Addr = [97, 58, 49], um_Data = [9, 8, 7], um_Release = None\<rparr> 14 = Some (Inr fs) \<and> length fs = 2 \<and>
    list_all (\<lambda>f. um_Size rfc_len f \<le> 14) fs \<and>
    dg_feed_all newDefragger (map (\<lambda>i. (i, fs ! i)) [1, 0]) =
      Some ([(0, \<lparr>SessionID = 1, PacketID = 2, FragID = 0, FragCount = 1,
      um_Addr = [97, 58, 49], um_Data = [9, 8, 7], um_Release = None\<rparr>)], rels, d')"
  using hy_frag_reassembles [of 14 rfc_len "\<lparr>SessionID = 1, PacketID = 2, FragID = 0, FragCount = 1,
      um_Addr = [97, 58, 49], um_Data = [9, 8, 7], um_Release = None\<rparr>" 2 2 newDefragger "[1, 0]" id]
  by (simp add: um_Size_def um_HeaderSize_def rfc_len_def word_le_nat_alt newDefragger_def dg_inv_def slots_used_def upt_rec
      add_mset_commute)

text \<open>
  C9: The defragger neither leaks a datagram buffer nor gives one back twice. Over any stream
  of datagrams, closing included, the release callbacks it runs and those it passes on with the
  messages it hands up are together exactly those of the datagrams that came in, and a closed
  defragger releases whatever still arrives at once and holds nothing more: closing it again does nothing.
\<close>

theorem hy_defrag_conserves:
  assumes "distinct (map fst rs)"
  shows "\<exists>outs rels d'. dg_feed_all newDefragger rs = Some (outs, rels, d') \<and>
    mset rels + mset (snd (dg_Close d')) + mset (concat (map (\<lambda>r. um_releases (snd r)) outs)) =
      mset (concat (map (\<lambda>r. um_releases (snd r)) rs)) \<and>
    dg_Feed (fst (dg_Close d')) (p, m) = Some (None, um_releases m, fst (dg_Close d')) \<and>
    dg_Close (fst (dg_Close d')) = (fst (dg_Close d'), [])"
proof -
  have "dg_inv newDefragger" "dg_ptrs newDefragger = {}" "dg_held newDefragger = []"
    by (simp_all add: newDefragger_def dg_inv_def dg_ptrs_def dg_held_def slots_used_def)
  with dg_feed_all_conserves [of newDefragger rs] assms obtain outs rels d' where
    "dg_feed_all newDefragger rs = Some (outs, rels, d')"
    "mset rels + mset (concat (map (\<lambda>r. um_releases (snd r)) outs)) + mset (dg_held d') =
      mset (concat (map (\<lambda>r. um_releases (snd r)) rs))" by auto
  then show ?thesis
    by (simp add: dg_Close_def dg_releaseHeld_def dg_Feed_def dg_held_def ac_simps)
qed

theorem hy_defrag_conserves_witness:
  "\<exists>outs rels d'. dg_feed_all newDefragger [(0, \<lparr>SessionID = 1, PacketID = 2, FragID = 1, FragCount = 2,
      um_Addr = [97], um_Data = [9], um_Release = Some 7\<rparr>)] = Some (outs, rels, d') \<and>
    mset rels + mset (snd (dg_Close d')) + mset (concat (map (\<lambda>r. um_releases (snd r)) outs)) = {#7#}"
proof -
  let ?rs = "[(0, \<lparr>SessionID = 1, PacketID = 2, FragID = 1, FragCount = 2, um_Addr = [97], um_Data = [9], um_Release = Some 7\<rparr>)]"
  have "mset (concat (map (\<lambda>r. um_releases (snd r)) ?rs)) = {#7#}" by (simp add: um_releases_def)
  moreover have "distinct (map fst ?rs)" by simp
  ultimately show ?thesis using hy_defrag_conserves [of ?rs 0 um_zero] by metis
qed

end
