(* ===== verification/UrlEscape.thy ===== *)
theory UrlEscape
  imports GoStrings
begin

section \<open>URL escaping\<close>

text \<open>
  The first part of \<open>common/url/url.go\<close>: which bytes a section of a URL must escape, \<open>escape\<close>
  with its counting pass and its buffer, and \<open>unescape\<close> with its checking pass and its writing
  pass. An index out of range is the error \<open>IndexPanic\<close>, which no call returns.
\<close>

datatype url_error = EscapeError string | InvalidHostError string | UrlErr string
  | UrlError (url_Op: string) (url_URL: string) (url_Err: url_error) | IndexPanic

definition upperhex :: string where
  "upperhex = ''0123456789ABCDEF''"

definition ishex :: "char \<Rightarrow> bool" where
  "ishex c \<longleftrightarrow> between (CHR ''0'') c (CHR ''9'') \<or> between (CHR ''a'') c (CHR ''f'') \<or> between (CHR ''A'') c (CHR ''F'')"

definition unhex :: "char \<Rightarrow> byte" where
  "unhex c =
     (if between (CHR ''0'') c (CHR ''9'') then byte_of c - byte_of (CHR ''0'')
      else if between (CHR ''a'') c (CHR ''f'') then byte_of c - byte_of (CHR ''a'') + 10
      else if between (CHR ''A'') c (CHR ''F'') then byte_of c - byte_of (CHR ''A'') + 10
      else 0)"

datatype encoding = encodePath | encodePathSegment | encodeHost | encodeZone | encodeUserPassword
  | encodeQueryComponent | encodeFragment

definition shouldEscape :: "char \<Rightarrow> encoding \<Rightarrow> bool" where
  "shouldEscape c mode =
     (if between (CHR ''a'') c (CHR ''z'') \<or> between (CHR ''A'') c (CHR ''Z'') \<or> between (CHR ''0'') c (CHR ''9'') then False
      else if (mode = encodeHost \<or> mode = encodeZone) \<and>
          c \<in> set ''!$&'()*+,;=:[]<>\"'' then False
      else if c \<in> set ''-_.~'' then False
      else if c \<in> set ''$&+,/:;=?@'' then
        (case mode of
           encodePath \<Rightarrow> c = CHR ''?''
         | encodePathSegment \<Rightarrow> c = CHR ''/'' \<or> c = CHR '';'' \<or> c = CHR '','' \<or> c = CHR ''?''
         | encodeUserPassword \<Rightarrow> c = CHR ''@'' \<or> c = CHR ''/'' \<or> c = CHR ''?'' \<or> c = CHR '':''
         | encodeQueryComponent \<Rightarrow> True
         | encodeFragment \<Rightarrow> False
         | encodeHost \<Rightarrow> True | encodeZone \<Rightarrow> True)
      else if mode = encodeFragment \<and> c \<in> set ''!()*'' then False
      else True)"

text \<open>The two passes of \<open>unescape\<close>. The byte that \<open>%ab\<close> stands for is \<open>hexbyte a b\<close>.\<close>

definition hexbyte :: "char \<Rightarrow> char \<Rightarrow> char" where
  "hexbyte a b = str_of_byte (push_bit 4 (unhex a) OR unhex b)"

fun unescape_check :: "encoding \<Rightarrow> string \<Rightarrow> nat \<Rightarrow> bool \<Rightarrow> url_error + nat \<times> bool" where
  "unescape_check mode [] n hasPlus = Inr (n, hasPlus)"
| "unescape_check mode (c # s) n hasPlus =
     (if c = CHR ''%'' then
        (case s of
           a # b # rest \<Rightarrow>
             if \<not> ishex a \<or> \<not> ishex b then Inl (EscapeError (take 3 (c # s)))
             else if mode = encodeHost \<and> unhex a < 8 \<and> [c, a, b] \<noteq> ''%25'' then Inl (EscapeError [c, a, b])
             else if mode = encodeZone \<and> [c, a, b] \<noteq> ''%25'' \<and> hexbyte a b \<noteq> CHR '' '' \<and> shouldEscape (hexbyte a b) encodeHost
               then Inl (EscapeError [c, a, b])
             else unescape_check mode rest (n + 1) hasPlus
         | _ \<Rightarrow> Inl (EscapeError (take 3 (c # s))))
      else if c = CHR ''+'' then unescape_check mode s n (mode = encodeQueryComponent)
      else if (mode = encodeHost \<or> mode = encodeZone) \<and> byte_of c < 0x80 \<and> shouldEscape c mode then Inl (InvalidHostError [c])
      else unescape_check mode s n hasPlus)"

fun unescape_write :: "encoding \<Rightarrow> string \<Rightarrow> url_error + string" where
  "unescape_write mode [] = Inr []"
| "unescape_write mode (c # s) =
     (if c = CHR ''%'' then
        (case s of
           a # b # rest \<Rightarrow> sum_bind (unescape_write mode rest) (\<lambda>t. Inr (hexbyte a b # t))
         | _ \<Rightarrow> Inl IndexPanic)
      else if c = CHR ''+'' then
        sum_bind (unescape_write mode s) (\<lambda>t. Inr ((if mode = encodeQueryComponent then CHR '' '' else CHR ''+'') # t))
      else sum_bind (unescape_write mode s) (\<lambda>t. Inr (c # t)))"

definition unescape :: "string \<Rightarrow> encoding \<Rightarrow> url_error + string" where
  "unescape s mode = sum_bind (unescape_check mode s 0 False) (\<lambda>(n, hasPlus).
     if n = 0 \<and> \<not> hasPlus then Inr s
     else if length s < 2 * n then Inl IndexPanic
     else unescape_write mode s)"

definition QueryUnescape :: "string \<Rightarrow> url_error + string" where
  "QueryUnescape s = unescape s encodeQueryComponent"

definition PathUnescape :: "string \<Rightarrow> url_error + string" where
  "PathUnescape s = unescape s encodePathSegment"

text \<open>\<open>escape\<close>: the counts of spaces and of bytes to escape, then the result in a buffer of the length required.\<close>

primrec escape_count :: "encoding \<Rightarrow> string \<Rightarrow> nat \<times> nat \<Rightarrow> nat \<times> nat" where
  "escape_count mode [] k = k"
| "escape_count mode (c # s) k = escape_count mode s
     (if shouldEscape c mode then
        (if c = CHR '' '' \<and> mode = encodeQueryComponent then (fst k + 1, snd k) else (fst k, snd k + 1))
      else k)"

definition str_put :: "string \<Rightarrow> nat \<Rightarrow> string \<Rightarrow> url_error + string" where
  "str_put t j xs = (if j + length xs \<le> length t then Inr (take j t @ xs @ drop (j + length xs) t) else Inl IndexPanic)"

primrec escape_loop :: "encoding \<Rightarrow> string \<Rightarrow> nat \<Rightarrow> string \<Rightarrow> url_error + string" where
  "escape_loop mode [] j t = Inr t"
| "escape_loop mode (c # s) j t =
     (if c = CHR '' '' \<and> mode = encodeQueryComponent then
        sum_bind (str_put t j ''+'') (\<lambda>t. escape_loop mode s (j + 1) t)
      else if shouldEscape c mode then
        sum_bind (str_put t j [CHR ''%'', upperhex ! unat (drop_bit 4 (byte_of c)), upperhex ! unat (byte_of c AND 15)])
          (\<lambda>t. escape_loop mode s (j + 3) t)
      else sum_bind (str_put t j [c]) (\<lambda>t. escape_loop mode s (j + 1) t))"

definition escape :: "string \<Rightarrow> encoding \<Rightarrow> url_error + string" where
  "escape s mode =
     (let (spaceCount, hexCount) = escape_count mode s (0, 0) in
      if spaceCount = 0 \<and> hexCount = 0 then Inr s
      else
        let required = length s + 2 * hexCount; t = replicate required (CHR 0x00) in
        if hexCount = 0 then
          Inr (map (\<lambda>c. if c = CHR '' '' then CHR ''+'' else c) (go_copy t s))
        else escape_loop mode s 0 t)"

definition QueryEscape :: "string \<Rightarrow> url_error + string" where
  "QueryEscape s = escape s encodeQueryComponent"

definition PathEscape :: "string \<Rightarrow> url_error + string" where
  "PathEscape s = escape s encodePathSegment"

subsection \<open>What escaping computes\<close>

definition esc1 :: "encoding \<Rightarrow> char \<Rightarrow> string" where
  "esc1 mode c =
     (if c = CHR '' '' \<and> mode = encodeQueryComponent then ''+''
      else if shouldEscape c mode then [CHR ''%'', upperhex ! unat (drop_bit 4 (byte_of c)), upperhex ! unat (byte_of c AND 15)]
      else [c])"

definition esc :: "encoding \<Rightarrow> string \<Rightarrow> string" where
  "esc mode s = concat (map (esc1 mode) s)"

lemma esc_simps [simp]: "esc mode [] = []" "esc mode (c # s) = esc1 mode c @ esc mode s" "esc mode (s @ t) = esc mode s @ esc mode t"
  by (simp_all add: esc_def)

lemma shouldEscape_marks [simp]:
  "shouldEscape (CHR '' '') mode" "shouldEscape (CHR ''%'') mode" "shouldEscape (CHR ''#'') mode"
  "mode \<noteq> encodeFragment \<Longrightarrow> shouldEscape (CHR ''?'') mode"
  by (cases mode; simp add: shouldEscape_def less_eq_char_def)+

lemma escape_count_acc: "escape_count mode s (a, b) = (a + fst (escape_count mode s (0, 0)), b + snd (escape_count mode s (0, 0)))"
proof (induction s arbitrary: a b)
  case (Cons c s)
  show ?case
    using Cons.IH [of "Suc a" b] Cons.IH [of a "Suc b"] Cons.IH [of a b] Cons.IH [of "Suc 0" 0] Cons.IH [of 0 "Suc 0"]
    by (cases "c = CHR '' ''"; cases "mode = encodeQueryComponent") simp_all
qed simp

lemma length_esc: "length (esc mode s) = length s + 2 * snd (escape_count mode s (0, 0))"
proof (induction s)
  case (Cons c s)
  then show ?case
    using escape_count_acc [of mode s "Suc 0" 0] escape_count_acc [of mode s 0 "Suc 0"]
    by (cases "c = CHR '' ''"; cases "mode = encodeQueryComponent") (simp_all add: esc1_def)
qed simp

lemma escape_count_none: "escape_count mode s (0, 0) = (k, 0) \<Longrightarrow>
    esc mode s = map (\<lambda>c. if c = CHR '' '' then CHR ''+'' else c) s \<and> (k = 0 \<longrightarrow> esc mode s = s)"
proof (induction s arbitrary: k)
  case (Cons c s)
  then show ?case
    using escape_count_acc [of mode s "Suc 0" 0] escape_count_acc [of mode s 0 "Suc 0"]
    by (cases "escape_count mode s (0, 0)") (auto simp: esc1_def split: if_splits)
qed simp

lemma str_put_app: "length t = j \<Longrightarrow> length xs \<le> length u \<Longrightarrow> str_put (t @ u) j xs = Inr ((t @ xs) @ drop (length xs) u)"
  by (simp add: str_put_def)

lemma escape_loop_ok:
  "length t = j \<Longrightarrow> length u = length (esc mode s) \<Longrightarrow> escape_loop mode s j (t @ u) = Inr (t @ esc mode s)"
proof (induction s arbitrary: j t u)
  case (Cons c s)
  let ?x = "esc1 mode c"
  have l: "length ?x \<le> length u" using Cons.prems(2) by simp
  have "escape_loop mode s (j + length ?x) ((t @ ?x) @ drop (length ?x) u) = Inr ((t @ ?x) @ esc mode s)"
    using Cons.prems by (intro Cons.IH) simp_all
  moreover have "escape_loop mode (c # s) j (t @ u) = sum_bind (str_put (t @ u) j ?x) (\<lambda>t. escape_loop mode s (j + length ?x) t)"
    by (simp add: esc1_def numeral_eq_Suc)
  ultimately show ?case using str_put_app [OF Cons.prems(1) l] by simp
qed simp

lemma escape_esc [simp]: "escape s mode = Inr (esc mode s)"
proof -
  obtain sp hx where k: "escape_count mode s (0, 0) = (sp, hx)" by fastforce
  show ?thesis
  proof (cases hx)
    case 0
    then have e: "esc mode s = map (\<lambda>c. if c = CHR '' '' then CHR ''+'' else c) s" "sp = 0 \<Longrightarrow> esc mode s = s"
      using escape_count_none [of mode s sp] k by blast+
    show ?thesis by (cases "sp = 0") (simp_all add: escape_def k 0 e(2), simp add: e(1) go_copy_fits)
  next
    case (Suc n)
    then show ?thesis
      using escape_loop_ok [of "[]" 0 "replicate (length s + 2 * hx) (CHR 0x00)" mode s] length_esc [of mode s] k
      by (simp add: escape_def)
  qed
qed

subsection \<open>What unescaping computes\<close>

text \<open>The bytes that unescaping admits in the host modes, as a value and behind \<open>%\<close>.\<close>

definition may_appear :: "encoding \<Rightarrow> char \<Rightarrow> bool" where
  "may_appear mode c \<longleftrightarrow> mode \<noteq> encodeHost \<and> mode \<noteq> encodeZone \<or> \<not> shouldEscape c encodeHost \<or>
     c = CHR ''%'' \<or> (if mode = encodeHost then 0x80 \<le> byte_of c else c = CHR '' '' \<or> 0x80 \<le> byte_of c)"

fun unesc :: "encoding \<Rightarrow> string \<Rightarrow> string" where
  "unesc mode [] = []"
| "unesc mode (c # s) =
     (if c = CHR ''%'' then
        (case s of
           a # b # rest \<Rightarrow> hexbyte a b # unesc mode rest
         | _ \<Rightarrow> c # s)
      else (if c = CHR ''+'' \<and> mode = encodeQueryComponent then CHR '' '' else c) # unesc mode s)"

lemma hex_digit:
  assumes "k < 16"
  shows "ishex (upperhex ! k) \<and> unhex (upperhex ! k) = word_of_nat k"
proof -
  have "list_all (\<lambda>k. ishex (upperhex ! k) \<and> unhex (upperhex ! k) = word_of_nat k) [0..<16]" by code_simp
  with assms show ?thesis by (simp add: list_all_iff)
qed

lemma unat_high_nibble: "unat (drop_bit 4 w :: byte) = unat w div 16"
  using byte_bound [of w] unfolding unsigned_drop_bit_eq by (simp add: take_bit_nat_eq_self drop_bit_eq_div)

lemma nibbles: "push_bit 4 (drop_bit 4 w) OR (w AND 15) = (w :: byte)" "unat (drop_bit 4 w) < 16" "unat (w AND 15) < 16"
proof -
  have m: "w AND 15 = take_bit 4 w" by (simp add: take_bit_eq_mask mask_eq_exp_minus_1)
  show "push_bit 4 (drop_bit 4 w) OR (w AND 15) = w" unfolding m by (rule bit_eqI) (auto simp: bit_simps)
  show "unat (w AND 15) < 16" unfolding m by (simp add: unsigned_take_bit_eq take_bit_eq_mod [where 'a = nat] del: take_bit_of_nat)
  show "unat (drop_bit 4 w) < 16"
    using byte_bound [of w] by (simp add: unat_high_nibble less_mult_imp_div_less)
qed

lemma hexdigits:
  "ishex (upperhex ! unat (drop_bit 4 (byte_of c)))" "ishex (upperhex ! unat (byte_of c AND 15))"
  "hexbyte (upperhex ! unat (drop_bit 4 (byte_of c))) (upperhex ! unat (byte_of c AND 15)) = c"
  "unhex (upperhex ! unat (drop_bit 4 (byte_of c))) = drop_bit 4 (byte_of c)"
  using hex_digit [OF nibbles(2)] hex_digit [OF nibbles(3)] by (simp_all add: hexbyte_def nibbles(1))

lemma byte_range:
  assumes "l \<le> c" "c \<le> h" "of_char h - of_char l + k < (16 :: nat)"
  shows "unat (byte_of c - byte_of l + word_of_nat k) < 16"
proof -
  have "(of_char l :: nat) \<le> of_char c" "(of_char c :: nat) \<le> of_char h" using assms(1,2) by (simp_all add: less_eq_char_def)
  moreover have "unat (byte_of c - byte_of l) = of_char c - of_char l"
    using calculation(1) by (subst unat_sub) (simp_all add: word_le_nat_alt unat_byte_of)
  ultimately have "unat (byte_of c - byte_of l) + k < 16" using assms(3) by linarith
  moreover then have "unat (word_of_nat k :: byte) = k" by (simp add: unsigned_of_nat take_bit_nat_eq_self)
  ultimately show ?thesis by (subst unat_add_lem [THEN iffD1]) simp_all
qed

lemma unhex_bound: "ishex a \<Longrightarrow> unat (unhex a) < 16"
  using byte_range [of "CHR ''0''" a "CHR ''9''" 0] byte_range [of "CHR ''a''" a "CHR ''f''" 10]
    byte_range [of "CHR ''A''" a "CHR ''F''" 10]
  by (auto simp: ishex_def unhex_def)

lemma unhex_high: "ishex a \<Longrightarrow> 8 \<le> unhex a \<Longrightarrow> 0x80 \<le> push_bit 4 (unhex a)"
  using unhex_bound [of a] unfolding word_le_nat_alt unsigned_push_bit_eq
  by (simp add: take_bit_nat_eq_self push_bit_eq_mult [where 'a = nat])

lemma zone_host: "shouldEscape c encodeZone = shouldEscape c encodeHost"
  by (simp add: shouldEscape_def)

lemma hexbyte_appears:
  assumes "ishex a" "ishex b"
    and "\<not> (mode = encodeHost \<and> unhex a < 8 \<and> [c, a, b] \<noteq> ''%25'')"
    and "\<not> (mode = encodeZone \<and> [c, a, b] \<noteq> ''%25'' \<and> hexbyte a b \<noteq> CHR '' '' \<and> shouldEscape (hexbyte a b) encodeHost)"
  shows "may_appear mode (hexbyte a b)"
proof (cases "[c, a, b] = ''%25''")
  case True
  moreover have "hexbyte (CHR ''2'') (CHR ''5'') = CHR ''%''" by code_simp
  ultimately show ?thesis by (simp add: may_appear_def)
next
  case False
  have "0x80 \<le> byte_of (hexbyte a b)" if "8 \<le> unhex a"
    using or_ge [OF unhex_high [OF assms(1) that]] by (simp add: hexbyte_def)
  with False assms(3,4) show ?thesis by (auto simp: may_appear_def not_less)
qed

lemma unescape_check_ok:
  "unescape_check mode s n hp = Inr (n', hp') \<Longrightarrow> unescape_write mode s = Inr (unesc mode s) \<and>
    list_all (may_appear mode) (unesc mode s) \<and> n \<le> n' \<and> 3 * (n' - n) \<le> length s \<and>
    (n' = n \<and> \<not> hp' \<longrightarrow> unesc mode s = s \<and> (mode = encodeQueryComponent \<longrightarrow> \<not> hp))"
proof (induction mode s n hp rule: unescape_check.induct)
  case (2 mode c s n hp)
  consider (percent) "c = CHR ''%''" | (plus) "c = CHR ''+''" | (other) "c \<noteq> CHR ''%''" "c \<noteq> CHR ''+''" by blast
  then show ?case
  proof cases
    case percent
    then obtain a b rest where s: "s = a # b # rest" using "2.prems" by (auto split: list.splits)
    from "2.prems" percent have hex: "ishex a" "ishex b"
      "\<not> (mode = encodeHost \<and> unhex a < 8 \<and> [c, a, b] \<noteq> ''%25'')"
      "\<not> (mode = encodeZone \<and> [c, a, b] \<noteq> ''%25'' \<and> hexbyte a b \<noteq> CHR '' '' \<and> shouldEscape (hexbyte a b) encodeHost)"
      "unescape_check mode rest (n + 1) hp = Inr (n', hp')"
      by (simp_all add: s split: if_splits)
    note IH = "2.IH"(1) [OF percent s refl _ hex(3) hex(4) hex(5)]
    show ?thesis using IH hex(1,2) hexbyte_appears [OF hex(1-4)] percent by (auto simp: s)
  next
    case plus
    have "may_appear mode c" using plus by (simp add: may_appear_def shouldEscape_def less_eq_char_def)
    moreover have "unescape_check mode s n (mode = encodeQueryComponent) = Inr (n', hp')" using "2.prems" plus by simp
    ultimately show ?thesis using "2.IH"(2) plus by (auto simp: may_appear_def)
  next
    case other
    then have "\<not> ((mode = encodeHost \<or> mode = encodeZone) \<and> byte_of c < 0x80 \<and> shouldEscape c mode)"
      using "2.prems" by (auto split: if_splits)
    note ok = this
    have "may_appear mode c" using ok by (auto simp: may_appear_def zone_host not_less)
    moreover have "unescape_check mode s n hp = Inr (n', hp')" using "2.prems" other ok by simp
    ultimately show ?thesis using "2.IH"(3) [OF other ok] other by simp
  qed
qed simp

lemma unescape_Inr:
  assumes "unescape s mode = Inr t"
  shows "t = unesc mode s \<and> list_all (may_appear mode) t"
proof -
  obtain n hp where c: "unescape_check mode s 0 False = Inr (n, hp)" using assms by (auto simp: unescape_def sum_bind_Inr)
  then show ?thesis using unescape_check_ok [OF c] assms by (cases "n = 0 \<and> \<not> hp") (auto simp: unescape_def split: if_splits)
qed

lemma unescape_total:
  assumes "unescape_check mode s 0 False = Inr (n, hp)"
  shows "unescape s mode = Inr (unesc mode s)"
  using unescape_check_ok [OF assms] by (cases n; cases hp) (simp_all add: unescape_def assms)

lemma unescape_no_panic: "unescape s mode \<noteq> Inl IndexPanic"
proof -
  have "unescape_check mode s n hp \<noteq> Inl IndexPanic" for n hp
    by (induction mode s n hp rule: unescape_check.induct) (auto split: list.splits)
  then show ?thesis
    using unescape_total [of mode s] by (cases "unescape_check mode s 0 False") (auto simp: unescape_def)
qed

text \<open>
  The bytes whose escaped form the host modes accept. A zone may have non-ASCII bytes as they are,
  but not behind \<open>%\<close>.
\<close>

definition escapable :: "encoding \<Rightarrow> char \<Rightarrow> bool" where
  "escapable mode c \<longleftrightarrow> mode \<noteq> encodeHost \<and> mode \<noteq> encodeZone \<or> \<not> shouldEscape c encodeHost \<or> c = CHR ''%'' \<or>
     (if mode = encodeHost then 0x80 \<le> byte_of c else c = CHR '' '')"

lemma drop_bit_high: "0x80 \<le> w \<Longrightarrow> 8 \<le> drop_bit 4 w" for w :: byte
proof -
  assume "0x80 \<le> w"
  then have "8 \<le> unat w div 16" using div_le_mono [of 128 "unat w" 16] by (simp add: word_le_nat_alt)
  then show ?thesis by (simp add: word_le_nat_alt unat_high_nibble)
qed

lemma escaped_char:
  fixes c :: char
  assumes "shouldEscape c mode" "escapable mode c"
  defines "a \<equiv> upperhex ! unat (drop_bit 4 (byte_of c))" and "b \<equiv> upperhex ! unat (byte_of c AND 15)"
  shows "unescape_check mode ([CHR ''%'', a, b] @ s) n hp = unescape_check mode s (n + 1) hp"
proof -
  have d: "ishex a" "ishex b" "hexbyte a b = c" "unhex a = drop_bit 4 (byte_of c)"
    unfolding a_def b_def by (rule hexdigits)+
  have p: "[CHR ''%'', a, b] = ''%25''" if "c = CHR ''%''" unfolding a_def b_def that by code_simp
  have h: "\<not> unhex a < 8" if "mode = encodeHost" "c \<noteq> CHR ''%''"
    using that assms(1,2) drop_bit_high [of "byte_of c"] unfolding d(4) by (simp add: escapable_def not_less)
  have z: "c = CHR '' ''" if "mode = encodeZone" "c \<noteq> CHR ''%''"
    using that assms(1,2) by (simp add: escapable_def zone_host)
  from d p h z show ?thesis by auto
qed

lemma unescape_check_esc: "list_all (escapable mode) s \<Longrightarrow> \<exists>r. unescape_check mode (esc mode s) n hp = Inr r"
proof (induction s arbitrary: n hp)
  case (Cons c s)
  then have c: "escapable mode c" and IH: "\<exists>r. unescape_check mode (esc mode s) n hp = Inr r" for n hp by simp_all
  consider (space) "c = CHR '' ''" "mode = encodeQueryComponent" | (hex) "shouldEscape c mode" "c \<noteq> CHR '' '' \<or> mode \<noteq> encodeQueryComponent"
    | (plain) "\<not> shouldEscape c mode" by blast
  then show ?case
  proof cases
    case hex
    then have "esc1 mode c = [CHR ''%'', upperhex ! unat (drop_bit 4 (byte_of c)), upperhex ! unat (byte_of c AND 15)]"
      by (auto simp: esc1_def)
    then show ?thesis using IH escaped_char [OF hex(1) c, of "esc mode s" n hp] by (simp only: esc_simps)
  next
    case plain
    then have "c \<noteq> CHR ''%''" "c \<noteq> CHR '' ''" by auto
    then show ?thesis using plain IH by (simp add: esc1_def)
  qed (use IH in \<open>simp add: esc1_def\<close>)
qed simp

lemma unesc_esc: "unesc mode (esc mode s) = s"
proof (induction s)
  case (Cons c s)
  consider (space) "c = CHR '' ''" "mode = encodeQueryComponent" | (hex) "shouldEscape c mode" "c \<noteq> CHR '' '' \<or> mode \<noteq> encodeQueryComponent"
    | (plain) "\<not> shouldEscape c mode" by blast
  then show ?case
  proof cases
    case plain
    then have "c \<noteq> CHR ''%''" "c \<noteq> CHR '' ''" by auto
    moreover have "c = CHR ''+'' \<longrightarrow> mode \<noteq> encodeQueryComponent" using plain by (auto simp: shouldEscape_def)
    ultimately
    show ?thesis using plain Cons by (simp add: esc1_def)
  qed (use Cons hexdigits(3) [of c] in \<open>auto simp: esc1_def\<close>)
qed simp

lemma unescape_esc: "list_all (escapable mode) s \<Longrightarrow> unescape (esc mode s) mode = Inr s"
  using unescape_check_esc [of mode s 0 False] unescape_total [of mode "esc mode s"] by (auto simp: unesc_esc)

text \<open>The bytes of an escaped string.\<close>

definition alnum :: "char \<Rightarrow> bool" where
  "alnum c \<longleftrightarrow> between (CHR ''a'') c (CHR ''z'') \<or> between (CHR ''A'') c (CHR ''Z'') \<or> between (CHR ''0'') c (CHR ''9'')"

lemma alnum_plain: "alnum c \<Longrightarrow> \<not> shouldEscape c mode"
  by (simp only: alnum_def shouldEscape_def if_True simp_thms)

lemma upperhex_alnum: "c \<in> set upperhex \<Longrightarrow> alnum c"
proof -
  have "list_all alnum upperhex" by code_simp
  then show "c \<in> set upperhex \<Longrightarrow> alnum c" unfolding list_all_iff by blast
qed

lemma upperhex_safe: "c \<in> set upperhex \<Longrightarrow> \<not> shouldEscape c mode"
  by (intro alnum_plain upperhex_alnum)

lemma upperhex_nth: "k < 16 \<Longrightarrow> upperhex ! k \<in> set upperhex"
  by (rule nth_mem) (simp add: upperhex_def)

lemma esc_set: "c \<in> set (esc mode s) \<Longrightarrow> c = CHR ''%'' \<or> (c = CHR ''+'' \<and> mode = encodeQueryComponent) \<or> c \<in> set upperhex \<or>
    \<not> shouldEscape c mode \<and> c \<in> set s"
  using upperhex_nth [OF nibbles(2)] upperhex_nth [OF nibbles(3)] by (auto simp: esc_def esc1_def split: if_splits)

subsection \<open>Properties\<close>

text \<open>
  C14: \<open>escape\<close> fills its buffer without running past it, and \<open>unescape\<close> of the same section of a URL
  reads the string back; in a host, bytes whose escaped form RFC 3986 forbids are the exception. The escaped string
  has no byte that would have to be escaped, \<open>%\<close> and the \<open>+\<close> of a query apart. \<open>unescape\<close> never
  indexes out of range.
\<close>

theorem url_escape_round_trip:
  assumes "list_all (escapable mode) s"
  shows "\<exists>e. escape s mode = Inr e \<and> unescape e mode = Inr s \<and>
    list_all (\<lambda>c. c = CHR ''%'' \<or> (c = CHR ''+'' \<and> mode = encodeQueryComponent) \<or> \<not> shouldEscape c mode) e \<and>
    unescape t mode \<noteq> Inl IndexPanic"
proof -
  have "list_all (\<lambda>c. c = CHR ''%'' \<or> (c = CHR ''+'' \<and> mode = encodeQueryComponent) \<or> \<not> shouldEscape c mode) (esc mode s)"
    unfolding list_all_iff using esc_set upperhex_safe by blast
  then show ?thesis using unescape_esc [OF assms] unescape_no_panic by simp
qed

theorem url_escape_round_trip_witness:
  "\<exists>e. escape ''a b%/'' encodeQueryComponent = Inr e \<and> unescape e encodeQueryComponent = Inr ''a b%/''"
  using url_escape_round_trip [of encodeQueryComponent "''a b%/''" "[]"] by (auto simp: escapable_def)

end
