(* ===== verification/UrlParse.thy ===== *)
theory UrlParse
  imports UrlEscape
begin

section \<open>Parsing and printing URLs\<close>

text \<open>
  The second part of \<open>common/url/url.go\<close>: the \<open>URL\<close> structure, \<open>Parse\<close> and its helpers, and \<open>String\<close>.
  The port of a host may be a list of ports and ranges, as port hopping needs it. A pointer that
  may be \<open>nil\<close> is an \<open>option\<close>; a method that writes to its receiver returns the new value.
\<close>

record Userinfo =
  username :: string
  password :: string
  passwordSet :: bool

record URL =
  Scheme :: string
  Opaque :: string
  url_User :: "Userinfo option"
  Host :: string
  Path :: string
  RawPath :: string
  OmitHost :: bool
  ForceQuery :: bool
  RawQuery :: string
  Fragment :: string
  RawFragment :: string

definition new_URL :: URL where
  "new_URL = \<lparr>Scheme = [], Opaque = [], url_User = None, Host = [], Path = [], RawPath = [],
     OmitHost = False, ForceQuery = False, RawQuery = [], Fragment = [], RawFragment = []\<rparr>"

definition User :: "string \<Rightarrow> Userinfo" where
  "User name = \<lparr>username = name, password = [], passwordSet = False\<rparr>"

definition UserPassword :: "string \<Rightarrow> string \<Rightarrow> Userinfo" where
  "UserPassword name pw = \<lparr>username = name, password = pw, passwordSet = True\<rparr>"

definition ui_Username :: "Userinfo option \<Rightarrow> string" where
  "ui_Username u = (case u of None \<Rightarrow> [] | Some u \<Rightarrow> username u)"

definition ui_Password :: "Userinfo option \<Rightarrow> string \<times> bool" where
  "ui_Password u = (case u of None \<Rightarrow> ([], False) | Some u \<Rightarrow> (password u, passwordSet u))"

definition ui_String :: "Userinfo option \<Rightarrow> url_error + string" where
  "ui_String u =
     (case u of
        None \<Rightarrow> Inr []
      | Some u \<Rightarrow> sum_bind (escape (username u) encodeUserPassword) (\<lambda>s.
          if passwordSet u then sum_bind (escape (password u) encodeUserPassword) (\<lambda>p. Inr (s @ '':'' @ p))
          else Inr s))"

primrec getScheme_loop :: "string \<Rightarrow> nat \<Rightarrow> string \<Rightarrow> url_error + string \<times> string" where
  "getScheme_loop rawURL i [] = Inr ([], rawURL)"
| "getScheme_loop rawURL i (c # cs) =
     (if between (CHR ''a'') c (CHR ''z'') \<or> between (CHR ''A'') c (CHR ''Z'') then getScheme_loop rawURL (i + 1) cs
      else if between (CHR ''0'') c (CHR ''9'') \<or> c = CHR ''+'' \<or> c = CHR ''-'' \<or> c = CHR ''.'' then
        (if i = 0 then Inr ([], rawURL) else getScheme_loop rawURL (i + 1) cs)
      else if c = CHR '':'' then
        (if i = 0 then Inl (UrlErr ''missing protocol scheme'') else Inr (take i rawURL, drop (i + 1) rawURL))
      else Inr ([], rawURL))"

definition getScheme :: "string \<Rightarrow> url_error + string \<times> string" where
  "getScheme rawURL = getScheme_loop rawURL 0 rawURL"

definition rune_of :: "char \<Rightarrow> 32 word" where
  "rune_of c = ucast (byte_of c)"

definition validOptionalPort :: "string \<Rightarrow> bool" where
  "validOptionalPort port =
     (if port = [] then True
      else if port ! 0 \<noteq> CHR '':'' then False
      else list_all (\<lambda>b. \<not> ((b < rune_of (CHR ''0'') \<or> b > rune_of (CHR ''9'')) \<and> (b \<noteq> rune_of (CHR ''-'') \<and> b \<noteq> rune_of (CHR '',''))))
        (str_runes (drop 1 port)))"

definition validUserinfo :: "string \<Rightarrow> bool" where
  "validUserinfo s = list_all (\<lambda>r.
     rune_of (CHR ''A'') \<le> r \<and> r \<le> rune_of (CHR ''Z'') \<or> rune_of (CHR ''a'') \<le> r \<and> r \<le> rune_of (CHR ''z'') \<or>
     rune_of (CHR ''0'') \<le> r \<and> r \<le> rune_of (CHR ''9'') \<or>
     r \<in> set (map rune_of ''-._:~!$&'()*+,;=%@'')) (str_runes s)"

definition stringContainsCTLByte :: "string \<Rightarrow> bool" where
  "stringContainsCTLByte s = list_ex (\<lambda>b. byte_of b < byte_of (CHR '' '') \<or> byte_of b = 0x7f) s"

definition parseHost :: "string \<Rightarrow> url_error + string" where
  "parseHost host =
     (if str_HasPrefix host ''['' then
        (case str_LastIndex host (CHR '']'') of
           None \<Rightarrow> Inl (UrlErr ''missing ']' in host'')
         | Some i \<Rightarrow>
             if \<not> validOptionalPort (drop (i + 1) host) then Inl (UrlErr ''invalid port %q after host'')
             else
               (case str_Index (take i host) ''%25'' of
                  Some zone \<Rightarrow>
                    sum_bind (unescape (take zone host) encodeHost) (\<lambda>host1.
                    sum_bind (unescape (drop zone (take i host)) encodeZone) (\<lambda>host2.
                    sum_bind (unescape (drop i host) encodeHost) (\<lambda>host3. Inr (host1 @ host2 @ host3))))
                | None \<Rightarrow> unescape host encodeHost))
      else
        (case str_LastIndex host (CHR '':'') of
           Some i \<Rightarrow>
             if \<not> validOptionalPort (drop i host) then Inl (UrlErr ''invalid port %q after host'')
             else unescape host encodeHost
         | None \<Rightarrow> unescape host encodeHost))"

definition parseAuthority :: "string \<Rightarrow> url_error + Userinfo option \<times> string" where
  "parseAuthority authority =
     (case str_LastIndex authority (CHR ''@'') of
        None \<Rightarrow> sum_bind (parseHost authority) (\<lambda>host. Inr (None, host))
      | Some i \<Rightarrow>
          sum_bind (parseHost (drop (i + 1) authority)) (\<lambda>host.
            let userinfo = take i authority in
            if \<not> validUserinfo userinfo then Inl (UrlErr ''net/url: invalid userinfo'')
            else if \<not> str_Contains userinfo (CHR '':'') then
              sum_bind (unescape userinfo encodeUserPassword) (\<lambda>u. Inr (Some (User u), host))
            else
              let (name, pw, _) = str_Cut userinfo (CHR '':'') in
              sum_bind (unescape name encodeUserPassword) (\<lambda>name.
              sum_bind (unescape pw encodeUserPassword) (\<lambda>pw. Inr (Some (UserPassword name pw), host)))))"

definition setPath :: "URL \<Rightarrow> string \<Rightarrow> url_error + URL" where
  "setPath u p = sum_bind (unescape p encodePath) (\<lambda>path.
     sum_bind (escape path encodePath) (\<lambda>escp.
     Inr (u\<lparr>Path := path, RawPath := if p = escp then [] else p\<rparr>)))"

definition setFragment :: "URL \<Rightarrow> string \<Rightarrow> url_error + URL" where
  "setFragment u f = sum_bind (unescape f encodeFragment) (\<lambda>frag.
     sum_bind (escape frag encodeFragment) (\<lambda>escf.
     Inr (u\<lparr>Fragment := frag, RawFragment := if f = escf then [] else f\<rparr>)))"

text \<open>\<open>parse\<close>: the authority, then the path, once scheme and query are cut off.\<close>

definition parse_path :: "URL \<Rightarrow> string \<Rightarrow> bool \<Rightarrow> url_error + URL" where
  "parse_path url rest viaRequest =
     (if (Scheme url \<noteq> [] \<or> \<not> viaRequest \<and> \<not> str_HasPrefix rest ''///'') \<and> str_HasPrefix rest ''//'' then
        let authority = drop 2 rest;
            (authority, rest) = (case str_Index authority ''/'' of
              Some i \<Rightarrow> (take i authority, drop i authority) | None \<Rightarrow> (authority, [])) in
        sum_bind (parseAuthority authority) (\<lambda>(user, host). setPath (url\<lparr>url_User := user, Host := host\<rparr>) rest)
      else if Scheme url \<noteq> [] \<and> str_HasPrefix rest ''/'' then setPath (url\<lparr>OmitHost := True\<rparr>) rest
      else setPath url rest)"

definition parse_rest :: "URL \<Rightarrow> string \<Rightarrow> bool \<Rightarrow> url_error + URL" where
  "parse_rest url rest viaRequest =
     (if \<not> str_HasPrefix rest ''/'' then
        if Scheme url \<noteq> [] then Inr (url\<lparr>Opaque := rest\<rparr>)
        else if viaRequest then Inl (UrlErr ''invalid URI for request'')
        else
          let (segment, _, _) = str_Cut rest (CHR ''/'') in
          if str_Contains segment (CHR '':'') then Inl (UrlErr ''first path segment in URL cannot contain colon'')
          else parse_path url rest viaRequest
      else parse_path url rest viaRequest)"

definition url_parse :: "string \<Rightarrow> bool \<Rightarrow> url_error + URL" where
  "url_parse rawURL viaRequest =
     (if stringContainsCTLByte rawURL then Inl (UrlErr ''net/url: invalid control character in URL'')
      else if rawURL = [] \<and> viaRequest then Inl (UrlErr ''empty url'')
      else
        let url = new_URL in
        if rawURL = ''*'' then Inr (url\<lparr>Path := ''*''\<rparr>)
        else sum_bind (getScheme rawURL) (\<lambda>(scheme, rest).
          let url = url\<lparr>Scheme := str_ToLower scheme\<rparr> in
          if str_HasSuffix rest ''?'' \<and> str_Count rest (CHR ''?'') = 1 then
            parse_rest (url\<lparr>ForceQuery := True\<rparr>) (take (length rest - 1) rest) viaRequest
          else
            let (rest, query, _) = str_Cut rest (CHR ''?'') in
            parse_rest (url\<lparr>RawQuery := query\<rparr>) rest viaRequest))"

definition Parse :: "string \<Rightarrow> url_error + URL" where
  "Parse rawURL =
     (let (u, frag, _) = str_Cut rawURL (CHR ''#'') in
      sum_bind (sum_map_error (\<lambda>err. UrlError ''parse'' u err) (url_parse u False)) (\<lambda>url.
        if frag = [] then Inr url
        else sum_map_error (\<lambda>err. UrlError ''parse'' rawURL err) (setFragment url frag)))"

definition ParseRequestURI :: "string \<Rightarrow> url_error + URL" where
  "ParseRequestURI rawURL = sum_map_error (\<lambda>err. UrlError ''parse'' rawURL err) (url_parse rawURL True)"

definition validEncoded :: "string \<Rightarrow> encoding \<Rightarrow> bool" where
  "validEncoded s mode = list_all (\<lambda>c.
     if c \<in> set ''!$&'()*+,;=:@'' then True
     else if c = CHR ''['' \<or> c = CHR '']'' then True
     else if c = CHR ''%'' then True
     else \<not> shouldEscape c mode) s"

text \<open>The raw form when it is a valid encoding of the value, else \<open>dflt\<close>.\<close>

definition raw_or :: "string \<Rightarrow> encoding \<Rightarrow> string \<Rightarrow> url_error + string \<Rightarrow> url_error + string" where
  "raw_or raw mode val dflt =
     (if raw \<noteq> [] \<and> validEncoded raw mode then
        (case unescape raw mode of
           Inr p \<Rightarrow> if p = val then Inr raw else dflt
         | Inl IndexPanic \<Rightarrow> Inl IndexPanic
         | Inl _ \<Rightarrow> dflt)
      else dflt)"

definition EscapedPath :: "URL \<Rightarrow> url_error + string" where
  "EscapedPath u = raw_or (RawPath u) encodePath (Path u)
     (if Path u = ''*'' then Inr ''*'' else escape (Path u) encodePath)"

definition EscapedFragment :: "URL \<Rightarrow> url_error + string" where
  "EscapedFragment u = raw_or (RawFragment u) encodeFragment (Fragment u) (escape (Fragment u) encodeFragment)"

text \<open>\<open>String\<close>: what it writes for the authority, then the path after what is in the builder so far.\<close>

definition string_authority :: "URL \<Rightarrow> url_error + string" where
  "string_authority u =
     (if Scheme u \<noteq> [] \<or> Host u \<noteq> [] \<or> url_User u \<noteq> None then
        if OmitHost u \<and> Host u = [] \<and> url_User u = None then Inr []
        else
          let slashes = (if Host u \<noteq> [] \<or> Path u \<noteq> [] \<or> url_User u \<noteq> None then ''//'' else []) in
          sum_bind (if url_User u \<noteq> None then sum_bind (ui_String (url_User u)) (\<lambda>s. Inr (s @ ''@'')) else Inr []) (\<lambda>user.
          sum_bind (if Host u \<noteq> [] then escape (Host u) encodeHost else Inr []) (\<lambda>host.
          Inr (slashes @ user @ host)))
      else Inr [])"

definition string_path :: "URL \<Rightarrow> string \<Rightarrow> url_error + string" where
  "string_path u buf = sum_bind (EscapedPath u) (\<lambda>path.
     let buf = (if path \<noteq> [] \<and> path ! 0 \<noteq> CHR ''/'' \<and> Host u \<noteq> [] then buf @ ''/'' else buf);
         (segment, _, _) = str_Cut path (CHR ''/'');
         buf = (if buf = [] \<and> str_Contains segment (CHR '':'') then buf @ ''./'' else buf) in
     Inr (buf @ path))"

definition url_String :: "URL \<Rightarrow> url_error + string" where
  "url_String u =
     (let buf = (if Scheme u \<noteq> [] then Scheme u @ '':'' else []) in
      sum_bind
        (if Opaque u \<noteq> [] then Inr (buf @ Opaque u)
         else sum_bind (string_authority u) (\<lambda>a. string_path u (buf @ a))) (\<lambda>buf.
      let buf = (if ForceQuery u \<or> RawQuery u \<noteq> [] then buf @ ''?'' @ RawQuery u else buf) in
      if Fragment u \<noteq> [] then sum_bind (EscapedFragment u) (\<lambda>f. Inr (buf @ ''#'' @ f))
      else Inr buf))"

definition url_Redacted :: "URL option \<Rightarrow> url_error + string" where
  "url_Redacted u =
     (case u of
        None \<Rightarrow> Inr []
      | Some ru \<Rightarrow>
          url_String (if snd (ui_Password (url_User ru))
            then ru\<lparr>url_User := Some (UserPassword (ui_Username (url_User ru)) ''xxxxx'')\<rparr> else ru))"

definition MarshalBinary :: "URL \<Rightarrow> url_error + string" where
  "MarshalBinary u = url_String u"

definition UnmarshalBinary :: "URL \<Rightarrow> string \<Rightarrow> url_error + URL" where
  "UnmarshalBinary u txt = Parse txt"

definition IsAbs :: "URL \<Rightarrow> bool" where
  "IsAbs u \<longleftrightarrow> Scheme u \<noteq> []"

definition RequestURI :: "URL \<Rightarrow> url_error + string" where
  "RequestURI u =
     sum_bind
       (if Opaque u = [] then sum_bind (EscapedPath u) (\<lambda>p. Inr (if p = [] then ''/'' else p))
        else Inr (if str_HasPrefix (Opaque u) ''//'' then Scheme u @ '':'' @ Opaque u else Opaque u)) (\<lambda>result.
     Inr (if ForceQuery u \<or> RawQuery u \<noteq> [] then result @ ''?'' @ RawQuery u else result))"

definition splitHostPort :: "string \<Rightarrow> string \<times> string" where
  "splitHostPort hostPort =
     (let (host, port) =
        (case str_LastIndex hostPort (CHR '':'') of
           Some colon \<Rightarrow>
             if validOptionalPort (drop colon hostPort) then (take colon hostPort, drop (colon + 1) hostPort) else (hostPort, [])
         | None \<Rightarrow> (hostPort, [])) in
      (if str_HasPrefix host ''['' \<and> str_HasSuffix host '']'' then take (length host - 2) (drop 1 host) else host, port))"

definition Hostname :: "URL \<Rightarrow> string" where
  "Hostname u = fst (splitHostPort (Host u))"

definition Port :: "URL \<Rightarrow> string" where
  "Port u = snd (splitHostPort (Host u))"

subsection \<open>Ports and user information, byte by byte\<close>

definition port_char :: "char \<Rightarrow> bool" where
  "port_char c \<longleftrightarrow> between (CHR ''0'') c (CHR ''9'') \<or> c = CHR ''-'' \<or> c = CHR '',''"

definition userinfo_char :: "char \<Rightarrow> bool" where
  "userinfo_char c \<longleftrightarrow> between (CHR ''A'') c (CHR ''Z'') \<or> between (CHR ''a'') c (CHR ''z'') \<or> between (CHR ''0'') c (CHR ''9'') \<or>
     c \<in> set ''-._:~!$&'()*+,;=%@''"

lemma unat_rune_of: "unat (rune_of c) = of_char c"
  using less_trans [OF of_char_bound [of c], of "2 ^ 32"] by (simp add: rune_of_def unsigned_ucast_eq unat_byte_of take_bit_nat_eq_self)

lemma rune_of_le: "rune_of c \<le> rune_of d \<longleftrightarrow> c \<le> d"
  by (simp add: word_le_nat_alt unat_rune_of less_eq_char_def)

lemma rune_of_less: "rune_of c < rune_of d \<longleftrightarrow> c < d"
  by (simp add: word_less_nat_alt unat_rune_of less_char_def)

lemma rune_of_eq: "rune_of c = rune_of d \<longleftrightarrow> c = d"
  by (metis rune_of_le order.antisym order.refl)

lemma inj_rune_of: "inj rune_of"
  by (rule injI) (simp add: rune_of_eq)

lemma validOptionalPort_bytes: "validOptionalPort port \<longleftrightarrow> port = [] \<or> (\<exists>p. port = CHR '':'' # p \<and> list_all port_char p)"
proof (cases port)
  case (Cons c p)
  let ?Q = "\<lambda>b. \<not> ((b < rune_of (CHR ''0'') \<or> b > rune_of (CHR ''9'')) \<and> (b \<noteq> rune_of (CHR ''-'') \<and> b \<noteq> rune_of (CHR '','')))"
  have "r < 0x80" if "?Q r" for r
    using that by (auto simp: word_less_nat_alt unat_rune_of)
  then have "list_all ?Q (str_runes p) \<longleftrightarrow> list_all (\<lambda>c. ?Q (ucast (byte_of c))) p" by (rule list_all_runes)
  moreover have "?Q (ucast (byte_of c)) \<longleftrightarrow> port_char c" for c
    by (auto simp: rune_of_less rune_of_eq port_char_def simp flip: rune_of_def)
  ultimately show ?thesis using Cons by (auto simp: validOptionalPort_def)
qed (simp add: validOptionalPort_def)

lemma validUserinfo_bytes: "validUserinfo s \<longleftrightarrow> list_all userinfo_char s"
proof -
  let ?cs = "''-._:~!$&'()*+,;=%@''"
  let ?Q = "\<lambda>r. rune_of (CHR ''A'') \<le> r \<and> r \<le> rune_of (CHR ''Z'') \<or> rune_of (CHR ''a'') \<le> r \<and> r \<le> rune_of (CHR ''z'') \<or>
     rune_of (CHR ''0'') \<le> r \<and> r \<le> rune_of (CHR ''9'') \<or> r \<in> set (map rune_of ?cs)"
  have "list_all (\<lambda>c. rune_of c < 0x80) ([CHR ''Z'', CHR ''z'', CHR ''9''] @ ?cs)" by code_simp
  then have "r < 0x80" if "?Q r" for r
    using that unfolding list_all_iff set_append set_map by (auto intro: le_less_trans)
  then have "list_all ?Q (str_runes s) \<longleftrightarrow> list_all (\<lambda>c. ?Q (ucast (byte_of c))) s" by (rule list_all_runes)
  moreover have "?Q (ucast (byte_of c)) \<longleftrightarrow> userinfo_char c" for c
  proof -
    have "rune_of c \<in> set (map rune_of ?cs) \<longleftrightarrow> c \<in> set ?cs" by (simp only: set_map inj_image_mem_iff [OF inj_rune_of])
    then show ?thesis by (simp only: rune_of_le userinfo_char_def flip: rune_of_def)
  qed
  ultimately show ?thesis by (simp only: validUserinfo_def)
qed

text \<open>Bytes that must not appear in what is printed before a fragment.\<close>

definition url_safe :: "char \<Rightarrow> bool" where
  "url_safe c \<longleftrightarrow> c \<noteq> CHR ''#'' \<and> \<not> (byte_of c < byte_of (CHR '' '') \<or> byte_of c = 0x7f)"

lemma not_ctl: "stringContainsCTLByte s = (\<not> list_all (\<lambda>b. \<not> (byte_of b < byte_of (CHR '' '') \<or> byte_of b = 0x7f)) s)"
  unfolding stringContainsCTLByte_def list_ex_iff list_all_iff by blast

definition url_marks :: string where
  "url_marks = ''!$&'()*+,;=:[]<>\"-_.~/?@''"

lemma unescaped_cases:
  assumes "\<not> shouldEscape c mode"
  shows "alnum c \<or> c \<in> set url_marks"
proof (rule ccontr)
  assume n: "\<not> (alnum c \<or> c \<in> set url_marks)"
  have "set ''-_.~'' \<subseteq> set url_marks" "set ''$&+,/:;=?@'' \<subseteq> set url_marks" "set ''!()*'' \<subseteq> set url_marks"
    "set ''!$&'()*+,;=:[]<>\"'' \<subseteq> set url_marks"
    by (simp_all add: url_marks_def)
  with n have m: "(c \<in> set ''-_.~'') = False" "(c \<in> set ''$&+,/:;=?@'') = False" "(c \<in> set ''!()*'') = False"
    "(c \<in> set ''!$&'()*+,;=:[]<>\"'') = False"
    by blast+
  have "(between (CHR ''a'') c (CHR ''z'') \<or> between (CHR ''A'') c (CHR ''Z'') \<or> between (CHR ''0'') c (CHR ''9'')) = False"
    using n unfolding alnum_def by blast
  then show False using assms unfolding shouldEscape_def m by (simp only: simp_thms if_False)
qed

lemma alnum_safe: "alnum c \<Longrightarrow> url_safe c" "alnum c \<Longrightarrow> c \<notin> set url_marks" "alnum c \<Longrightarrow> userinfo_char c" "alnum c \<Longrightarrow> c \<noteq> CHR ''%''"
proof -
  assume a: "alnum c"
  then have "\<not> shouldEscape c encodePath" by (rule alnum_plain)
  then show "c \<noteq> CHR ''%''" by auto
  show "userinfo_char c" using a unfolding alnum_def userinfo_char_def by blast
  have "list_all (\<lambda>m. \<not> alnum m) url_marks" by code_simp
  with a show "c \<notin> set url_marks" by (auto simp: list_all_iff)
  have "48 \<le> unat (byte_of c)" "unat (byte_of c) \<le> 122" using a by (auto simp: alnum_def less_eq_char_def unat_byte_of)
  moreover have "c \<noteq> CHR ''#''" using a by (auto simp: alnum_def less_eq_char_def)
  ultimately show "url_safe c" by (auto simp: url_safe_def word_less_nat_alt unat_byte_of word_unat_eq_iff)
qed

lemma unescaped_safe: "\<not> shouldEscape c mode \<Longrightarrow> url_safe c"
proof -
  have "list_all url_safe url_marks" by code_simp
  then show "\<not> shouldEscape c mode \<Longrightarrow> url_safe c" using unescaped_cases [of c mode] alnum_safe [of c] by (auto simp: list_all_iff)
qed

lemma esc_safe: "list_all url_safe (esc mode s)"
proof -
  have "url_safe (CHR ''%'')" "url_safe (CHR ''+'')" by code_simp+
  then show ?thesis unfolding list_all_iff using esc_set upperhex_alnum alnum_safe(1) unescaped_safe by blast
qed

lemma esc_avoids: "shouldEscape d mode \<Longrightarrow> d \<noteq> CHR ''%'' \<Longrightarrow> d \<noteq> CHR ''+'' \<Longrightarrow> d \<notin> set (esc mode s)"
  using esc_set [of d mode s] upperhex_safe [of d mode] by blast

lemma esc_userinfo: "list_all userinfo_char (esc encodeUserPassword s)"
proof -
  have "list_all (\<lambda>m. shouldEscape m encodeUserPassword \<or> userinfo_char m) url_marks" by code_simp
  moreover have "userinfo_char (CHR ''%'')" "userinfo_char (CHR ''+'')" by code_simp+
  ultimately show ?thesis
    unfolding list_all_iff using esc_set upperhex_alnum alnum_safe(3) unescaped_cases by blast
qed

subsection \<open>Authorities read back\<close>

definition wf_user :: "Userinfo \<Rightarrow> bool" where
  "wf_user u \<longleftrightarrow> passwordSet u \<or> password u = []"

definition user_text :: "Userinfo \<Rightarrow> string" where
  "user_text u = esc encodeUserPassword (username u) @ (if passwordSet u then CHR '':'' # esc encodeUserPassword (password u) else [])"

lemma ui_String_text: "ui_String (Some u) = Inr (user_text u)"
  by (simp add: ui_String_def user_text_def)

lemma unescape_user [simp]: "unescape (esc encodeUserPassword s) encodeUserPassword = Inr s"
  by (rule unescape_esc) (simp add: escapable_def list_all_iff)

lemma user_text_set: "d \<in> {CHR ''@'', CHR ''/'', CHR ''?''} \<Longrightarrow> d \<notin> set (user_text u)"
proof -
  assume d: "d \<in> {CHR ''@'', CHR ''/'', CHR ''?''}"
  have "shouldEscape (CHR ''@'') encodeUserPassword" "shouldEscape (CHR ''/'') encodeUserPassword"
    "shouldEscape (CHR ''?'') encodeUserPassword" by code_simp+
  then show ?thesis using d esc_avoids [of d encodeUserPassword] by (auto simp: user_text_def)
qed

lemma parseAuthority_user:
  assumes u: "wf_user u" and h: "parseHost h = Inr host" "CHR ''@'' \<notin> set h"
  shows "parseAuthority (user_text u @ CHR ''@'' # h) = Inr (Some u, host)"
proof -
  have colon: "CHR '':'' \<notin> set (esc encodeUserPassword s)" for s
    by (rule esc_avoids) (code_simp+)
  have "userinfo_char (CHR '':'')" by code_simp
  then have v: "validUserinfo (user_text u)" using esc_userinfo by (auto simp: validUserinfo_bytes user_text_def)
  show ?thesis
  proof (cases "passwordSet u")
    case True
    have cut: "str_Cut (user_text u) (CHR '':'') = (esc encodeUserPassword (username u), esc encodeUserPassword (password u), True)"
      using True str_Cut_append [OF colon] by (simp add: user_text_def)
    have has: "str_Contains (user_text u) (CHR '':'')" using True by (simp add: user_text_def str_Contains_def)
    have "UserPassword (username u) (password u) = u" using True by (simp add: UserPassword_def)
    then show ?thesis using h v cut has by (simp add: parseAuthority_def str_LastIndex_append Let_def)
  next
    case False
    then have t: "user_text u = esc encodeUserPassword (username u)" by (simp add: user_text_def)
    have "User (username u) = u" using False u by (simp add: User_def wf_user_def)
    then show ?thesis using h v colon by (simp add: parseAuthority_def str_LastIndex_append Let_def t str_Contains_def)
  qed
qed

lemma parseAuthority_none: "parseHost h = Inr host \<Longrightarrow> CHR ''@'' \<notin> set h \<Longrightarrow> parseAuthority h = Inr (None, host)"
  by (simp add: parseAuthority_def str_LastIndex_def)

text \<open>What a parsed authority looks like.\<close>

lemma parseAuthority_result:
  assumes "parseAuthority a = Inr (user, host)"
  shows "(\<exists>h. parseHost h = Inr host \<and> (user = None \<longrightarrow> h = a)) \<and> (case user of None \<Rightarrow> True | Some u \<Rightarrow> wf_user u)"
  using assms
  by (auto simp: parseAuthority_def sum_bind_Inr Let_def wf_user_def User_def UserPassword_def
      split: option.splits if_splits prod.splits)

subsection \<open>Hosts read back\<close>

lemma unesc_split:
  assumes "\<not> ishex c"
  shows "unescape_check mode (a @ c # b) n hp = Inr r \<Longrightarrow> unesc mode (a @ c # b) = unesc mode a @ unesc mode (c # b) \<and>
    (\<exists>r. unescape_check mode a n hp = Inr r)"
proof (induction mode a arbitrary: n hp rule: unesc.induct)
  case (2 mode d s)
  show ?case
  proof (cases "d = CHR ''%''")
    case True
    with "2.prems" obtain x y t where s: "s @ c # b = x # y # t" and xy: "ishex x" "ishex y"
      by (auto split: list.splits if_splits)
    obtain s' where s': "s = x # y # s'"
    proof (cases s)
      case (Cons x' s1)
      with s xy(2) assms that show ?thesis by (cases s1) auto
    qed (use s xy(1) assms in simp)
    then have t: "t = s' @ c # b" using s by simp
    define g where "g r = (if mode = encodeHost \<and> unhex x < 8 \<and> [d, x, y] \<noteq> ''%25'' then Inl (EscapeError [d, x, y])
        else if mode = encodeZone \<and> [d, x, y] \<noteq> ''%25'' \<and> hexbyte x y \<noteq> CHR '' '' \<and> shouldEscape (hexbyte x y) encodeHost
          then Inl (EscapeError [d, x, y]) else r)" for r :: "url_error + nat \<times> bool"
    have step: "unescape_check mode ((d # s) @ c # b) n hp = g (unescape_check mode (s' @ c # b) (n + 1) hp)"
      "unescape_check mode (d # s) n hp = g (unescape_check mode s' (n + 1) hp)"
      using True xy by (simp_all only: s' g_def append_Cons unescape_check.simps list.case if_True if_False simp_thms)
    have g: "g r = r" if "g z = Inr w" for r z w using that unfolding g_def by (metis Inl_Inr_False)
    have "unescape_check mode (s' @ c # b) (n + 1) hp = Inr r" using "2.prems" g unfolding step(1) by metis
    note IH = "2.IH"(1) [OF True s' refl this]
    have "\<exists>r. unescape_check mode (d # s) n hp = Inr r" using IH g "2.prems" unfolding step by metis
    then show ?thesis using IH True by (simp add: s')
  next
    case False
    show ?thesis
    proof (cases "d = CHR ''+''")
      case plus: True
      then have "unescape_check mode (s @ c # b) n (mode = encodeQueryComponent) = Inr r" using "2.prems" by simp
      from "2.IH"(2) [OF False this] plus show ?thesis by simp
    next
      case other: False
      with False "2.prems" have x: "\<not> ((mode = encodeHost \<or> mode = encodeZone) \<and> byte_of d < 0x80 \<and> shouldEscape d mode)"
        by (auto split: if_splits)
      then have "unescape_check mode (s @ c # b) n hp = Inr r" using "2.prems" False other by (auto split: if_splits)
      note IH = "2.IH"(2) [OF False this]
      have "unescape_check mode (d # s) n hp = unescape_check mode s n hp" using False other x by auto
      then show ?thesis using IH False other by simp
    qed
  qed
qed simp

lemma host_hexbyte:
  assumes "ishex a" "ishex b" "\<not> (unhex a < 8 \<and> [CHR ''%'', a, b] \<noteq> ''%25'')"
  shows "[CHR ''%'', a, b] = ''%25'' \<and> hexbyte a b = CHR ''%'' \<or> 0x80 \<le> byte_of (hexbyte a b)"
proof (cases "[CHR ''%'', a, b] = ''%25''")
  case True
  moreover have "hexbyte (CHR ''2'') (CHR ''5'') = CHR ''%''" by code_simp
  ultimately show ?thesis by simp
next
  case False
  then show ?thesis using assms or_ge [OF unhex_high [OF assms(1)]] by (simp add: hexbyte_def not_less)
qed

lemma unesc_host_set:
  "unescape_check encodeHost s n hp = Inr r \<Longrightarrow> d \<in> set (unesc encodeHost s) \<Longrightarrow>
    d \<in> set s \<and> d \<noteq> CHR ''%'' \<or> d = CHR ''%'' \<and> sublist ''%25'' s \<or> 0x80 \<le> byte_of d"
proof (induction encodeHost s n hp rule: unescape_check.induct)
  case (2 c s n hp)
  show ?case
  proof (cases "c = CHR ''%''")
    case True
    with "2.prems" obtain a b t where s: "s = a # b # t" by (auto split: list.splits)
    from "2.prems" True have x: "ishex a" "ishex b" "\<not> (unhex a < 8 \<and> [CHR ''%'', a, b] \<noteq> ''%25'')"
      "unescape_check encodeHost t (n + 1) hp = Inr r"
      by (auto simp: s split: if_splits)
    note h = host_hexbyte [OF x(1-3)]
    have sub: "sublist ''%25'' t \<Longrightarrow> sublist ''%25'' (c # a # b # t)" by (simp add: sublist_Cons_right)
    show ?thesis
    proof (cases "d = hexbyte a b")
      case d: True
      then show ?thesis using h True by (auto simp: s sublist_Cons_right)
    next
      case False
      then show ?thesis using "2.hyps"(1) [OF True s refl] x "2.prems"(2) True sub by (auto simp: s)
    qed
  next
    case False
    have sub: "sublist ''%25'' s \<Longrightarrow> sublist ''%25'' (c # s)" by (simp add: sublist_Cons_right)
    then show ?thesis using "2.hyps"(2,3) "2.prems" False by (auto split: if_splits)
  qed
qed simp

lemma port_plain: "list_all port_char p \<Longrightarrow> list_all (\<lambda>c. \<not> shouldEscape c encodeHost \<and> c \<noteq> CHR ''%'') p \<and> CHR '']'' \<notin> set p \<and> CHR '':'' \<notin> set p"
proof -
  have "\<not> shouldEscape c encodeHost \<and> c \<noteq> CHR ''%'' \<and> c \<noteq> CHR '']'' \<and> c \<noteq> CHR '':''" if "port_char c" for c
  proof (cases "alnum c")
    case True
    moreover have "CHR '']'' \<in> set url_marks" "CHR '':'' \<in> set url_marks" by code_simp+
    ultimately show ?thesis using alnum_safe(2,4) [of c] alnum_plain [of c] by metis
  next
    case False
    then have "c \<in> set ''-,''" using that by (auto simp: port_char_def alnum_def)
    moreover have "list_all (\<lambda>c. \<not> shouldEscape c encodeHost \<and> c \<noteq> CHR ''%'' \<and> c \<noteq> CHR '']'' \<and> c \<noteq> CHR '':'') ''-,''" by code_simp
    ultimately show ?thesis unfolding list_all_iff by blast
  qed
  then show "list_all port_char p \<Longrightarrow> list_all (\<lambda>c. \<not> shouldEscape c encodeHost \<and> c \<noteq> CHR ''%'') p \<and> CHR '']'' \<notin> set p \<and> CHR '':'' \<notin> set p" unfolding list_all_iff by blast
qed

lemma unesc_plain: "list_all (\<lambda>c. \<not> shouldEscape c encodeHost \<and> c \<noteq> CHR ''%'') p \<Longrightarrow> unesc encodeHost p = p"
  by (induction p) simp_all

lemma esc_plain: "list_all (\<lambda>c. \<not> shouldEscape c mode) p \<Longrightarrow> mode \<noteq> encodeQueryComponent \<Longrightarrow> esc mode p = p"
  by (induction p) (simp_all add: esc1_def)

lemma unescape_checked:
  assumes "unescape s mode = Inr t"
  shows "\<exists>r. unescape_check mode s 0 False = Inr r"
  using assms by (auto simp: unescape_def sum_bind_Inr)

lemma unescape_plain: "list_all (\<lambda>c. \<not> shouldEscape c encodeHost) p \<Longrightarrow> unescape p encodeHost = Inr p"
  using unescape_esc [of encodeHost p] esc_plain [of encodeHost p] by (simp add: escapable_def list_all_iff)

lemma may_appear_escapable: "list_all (may_appear encodeHost) s \<Longrightarrow> list_all (escapable encodeHost) s"
  unfolding list_all_iff may_appear_def escapable_def by auto

lemma hd_esc: "esc encodeHost s = d # t \<Longrightarrow> d \<noteq> CHR ''%'' \<Longrightarrow> \<exists>s'. s = d # s'"
  by (cases s) (auto simp: esc1_def split: if_splits)

lemma hd_unesc_host:
  assumes "unescape_check encodeHost s n hp = Inr r" "unesc encodeHost s = d # t" "byte_of d < 0x80" "d \<noteq> CHR ''%''"
  shows "\<exists>s'. s = d # s'"
proof (cases s)
  case (Cons c s')
  show ?thesis
  proof (cases "c = CHR ''%''")
    case True
    with assms(1) Cons obtain a b u where s': "s' = a # b # u" by (auto split: list.splits)
    from assms(1) Cons True have x: "ishex a" "ishex b" "\<not> (unhex a < 8 \<and> [CHR ''%'', a, b] \<noteq> ''%25'')"
      by (auto simp: s' split: if_splits)
    show ?thesis using host_hexbyte [OF x] assms(2-4) Cons True by (auto simp: s')
  qed (use assms(2) Cons in auto)
qed (use assms(2) in simp)

lemma parseHost_plain:
  assumes h: "parseHost h = Inr host" "\<not> str_HasPrefix h ''[''"
  shows "parseHost (esc encodeHost host) = Inr host"
proof -
  have u: "unescape h encodeHost = Inr host" using h by (auto simp: parseHost_def split: option.splits if_splits)
  then obtain r where r: "unescape_check encodeHost h 0 False = Inr r" using unescape_checked by blast
  have host: "host = unesc encodeHost h" "list_all (escapable encodeHost) host"
    using unescape_Inr [OF u] may_appear_escapable by blast+
  have ok: "unescape (esc encodeHost host) encodeHost = Inr host" using unescape_esc [OF host(2)] .
  have "\<not> str_HasPrefix (esc encodeHost host) ''[''"
  proof
    assume "str_HasPrefix (esc encodeHost host) ''[''"
    then obtain t where "esc encodeHost host = CHR ''['' # t" by (auto simp: str_HasPrefix_def prefix_def)
    then obtain t' where t': "host = CHR ''['' # t'" using hd_esc by fastforce
    have "byte_of (CHR ''['') < 0x80" by code_simp
    then have "\<exists>s'. h = CHR ''['' # s'" using hd_unesc_host [OF r, of "CHR ''[''" t'] t' host(1) by simp
    then show False using h(2) by (auto simp: str_HasPrefix_def)
  qed
  moreover have "validOptionalPort (drop i (esc encodeHost host))" if i: "str_LastIndex (esc encodeHost host) (CHR '':'') = Some i" for i
  proof (cases "CHR '':'' \<in> set h")
    case True
    then obtain a b where ab: "h = a @ CHR '':'' # b" "CHR '':'' \<notin> set b" by (meson split_list_last)
    then have "validOptionalPort (CHR '':'' # b)" using h by (auto simp: parseHost_def str_LastIndex_append split: if_splits)
    then have b: "list_all port_char b" by (simp add: validOptionalPort_bytes)
    have "\<not> ishex (CHR '':'')" by code_simp
    note sp = unesc_split [OF this, of encodeHost a b 0 False r]
    have "host = unesc encodeHost a @ CHR '':'' # b"
      using sp r port_plain [OF b] unesc_plain [of b] host(1) ab(1) by simp
    moreover have "esc encodeHost (CHR '':'' # b) = CHR '':'' # b"
      using port_plain [OF b] by (intro esc_plain) (auto simp: list_all_iff shouldEscape_def)
    ultimately have "esc encodeHost host = esc encodeHost (unesc encodeHost a) @ CHR '':'' # b" by simp
    then show ?thesis using i ab(2) b by (simp add: str_LastIndex_append validOptionalPort_bytes)
  next
    case False
    have lt: "byte_of (CHR '':'') < 0x80" by code_simp
    have "CHR '':'' \<notin> set host" using unesc_host_set [OF r, of "CHR '':''"] False lt host(1) by auto
    moreover have "CHR '':'' \<notin> set upperhex" by code_simp
    ultimately have "CHR '':'' \<notin> set (esc encodeHost host)" using esc_set [of "CHR '':''" encodeHost host] by auto
    then show ?thesis using i by (simp add: str_LastIndex_def)
  qed
  ultimately show ?thesis using ok by (auto simp: parseHost_def split: option.splits)
qed

text \<open>A parsed IP literal: the address, a zone that starts with \<open>%\<close>, and a port.\<close>

definition ip_literal :: "string \<Rightarrow> string \<Rightarrow> string \<Rightarrow> bool" where
  "ip_literal x z b \<longleftrightarrow> (\<exists>t. x = CHR ''['' # t) \<and> list_all (\<lambda>c. \<not> shouldEscape c encodeHost) x \<and>
     (z = [] \<or> (\<exists>t. z = CHR ''%'' # t)) \<and> list_all (escapable encodeZone) z \<and> validOptionalPort b"

lemma port_bracket:
  assumes "validOptionalPort b"
  shows "list_all (\<lambda>c. \<not> shouldEscape c encodeHost \<and> c \<noteq> CHR ''%'') (CHR '']'' # b) \<and> CHR '']'' \<notin> set b"
proof -
  have "\<not> shouldEscape (CHR '']'') encodeHost" "\<not> shouldEscape (CHR '':'') encodeHost" by code_simp+
  then show ?thesis using assms port_plain by (auto simp: validOptionalPort_bytes)
qed

lemma str_Index_at: "CHR ''%'' \<notin> set x \<Longrightarrow> str_Index (x @ ''%25'' @ t) ''%25'' = Some (length x)"
  by (induction x) auto

lemma str_Index_absent: "CHR ''%'' \<notin> set x \<Longrightarrow> str_Index x ''%25'' = None"
  by (induction x) auto

lemma parseHost_literal:
  assumes w: "ip_literal x z b"
  shows "parseHost (esc encodeHost (x @ z @ CHR '']'' # b)) = Inr (x @ z @ CHR '']'' # b)"
proof -
  from w obtain t where x: "x = CHR ''['' # t" "list_all (\<lambda>c. \<not> shouldEscape c encodeHost) x" by (auto simp: ip_literal_def)
  note b = port_bracket [of b]
  have v: "validOptionalPort b" using w by (simp add: ip_literal_def)
  have p: "CHR ''%'' \<notin> set x" using x(2) by (auto simp: list_all_iff)
  have "esc1 encodeHost = esc1 encodeZone" by (rule ext) (simp add: esc1_def zone_host)
  then have zone: "esc encodeHost z = esc encodeZone z" by (simp only: esc_def)
  have b': "list_all (\<lambda>c. \<not> shouldEscape c encodeHost) (CHR '']'' # b)" using b [OF v] by (simp add: list_all_iff)
  have e: "esc encodeHost (x @ z @ CHR '']'' # b) = x @ esc encodeZone z @ CHR '']'' # b"
    using esc_plain [OF x(2)] esc_plain [OF b'] zone by simp
  have pre: "str_HasPrefix (x @ esc encodeZone z @ CHR '']'' # b) ''[''" by (simp add: x(1) str_HasPrefix_def)
  have i: "str_LastIndex (x @ esc encodeZone z @ CHR '']'' # b) (CHR '']'') = Some (length x + length (esc encodeZone z))"
    using str_LastIndex_append [of "CHR '']''" b "x @ esc encodeZone z"] b [OF v] by simp
  show ?thesis
  proof (cases "z = []")
    case True
    have all: "list_all (\<lambda>c. \<not> shouldEscape c encodeHost) (x @ CHR '']'' # b)" using x(2) b' by simp
    have "str_Index x ''%25'' = None" using str_Index_absent [OF p] .
    then show ?thesis unfolding e parseHost_def using pre i v True unescape_plain [OF all] by simp
  next
    case False
    then obtain z' where z: "z = CHR ''%'' # z'" using w by (auto simp: ip_literal_def)
    have "esc1 encodeZone (CHR ''%'') = ''%25''" by code_simp
    then have "str_Index (x @ esc encodeZone z) ''%25'' = Some (length x)"
      using str_Index_at [OF p, of "esc encodeZone z'"] by (simp add: z)
    moreover have "unescape (esc encodeZone z) encodeZone = Inr z" using w by (intro unescape_esc) (simp add: ip_literal_def)
    ultimately show ?thesis
      unfolding e parseHost_def using pre i v unescape_plain [OF x(2)] unescape_plain [OF b'] by simp
  qed
qed

definition ascii :: "string \<Rightarrow> bool" where
  "ascii s \<longleftrightarrow> list_all (\<lambda>c. byte_of c < 0x80) s"

lemma unesc_ascii_plain:
  assumes "unescape_check encodeHost a n hp = Inr r" "ascii (unesc encodeHost a)" "list_all (may_appear encodeHost) (unesc encodeHost a)"
    and "str_Index a ''%25'' = None" "a = CHR ''['' # t"
  shows "list_all (\<lambda>c. \<not> shouldEscape c encodeHost) (unesc encodeHost a) \<and> (\<exists>t. unesc encodeHost a = CHR ''['' # t)"
proof -
  have "c \<noteq> CHR ''%''" if "c \<in> set (unesc encodeHost a)" for c
    using unesc_host_set [OF assms(1) that] assms(2,4) that by (auto simp: str_Index_none ascii_def list_all_iff)
  then have "list_all (\<lambda>c. \<not> shouldEscape c encodeHost) (unesc encodeHost a)"
    using assms(2,3) by (auto simp: ascii_def list_all_iff may_appear_def not_le [symmetric])
  then show ?thesis by (simp add: assms(5))
qed

lemma parseHost_is_literal:
  assumes h: "parseHost h = Inr host" "str_HasPrefix h ''[''" and asc: "ascii host"
  shows "\<exists>x z b. ip_literal x z b \<and> host = x @ z @ CHR '']'' # b"
proof -
  obtain i where i: "str_LastIndex h (CHR '']'') = Some i" using h by (auto simp: parseHost_def split: option.splits)
  then obtain a b where ab: "h = a @ CHR '']'' # b" "CHR '']'' \<notin> set b" "length a = i" by (rule str_LastIndex_split)
  have v: "validOptionalPort b" using h i ab by (auto simp: parseHost_def split: if_splits)
  note pb = port_bracket [OF v]
  have end_b: "unesc encodeHost (CHR '']'' # b) = CHR '']'' # b" using pb by (intro unesc_plain) simp
  obtain t where t: "a = CHR ''['' # t" using h(2) ab(1) by (cases a) (auto simp: str_HasPrefix_def)
  show ?thesis
  proof (cases "str_Index a ''%25''")
    case None
    then have u: "unescape h encodeHost = Inr host" using h i ab v by (simp add: parseHost_def)
    then obtain r where r: "unescape_check encodeHost h 0 False = Inr r" using unescape_checked by blast
    have "\<not> ishex (CHR '']'')" by code_simp
    from unesc_split [OF this r [unfolded ab(1)]] obtain r' where
      sp: "host = unesc encodeHost a @ CHR '']'' # b" "unescape_check encodeHost a 0 False = Inr r'"
      using unescape_Inr [OF u] end_b ab(1) by auto
    have a1: "ascii (unesc encodeHost a)" using asc unfolding sp(1) by (simp add: ascii_def)
    have a2: "list_all (may_appear encodeHost) (unesc encodeHost a)"
      using conjunct2 [OF unescape_Inr [OF u]] unfolding sp(1) by simp
    note x = unesc_ascii_plain [OF sp(2) a1 a2 None t]
    then show ?thesis using sp(1) v by (intro exI [of _ "unesc encodeHost a"] exI [of _ "[]"] exI [of _ b]) (simp add: ip_literal_def)
  next
    case (Some z)
    note si = str_Index_Some [OF Some]
    have take_z: "take z h = take z a" "drop z (take i h) = drop z a" "drop i h = CHR '']'' # b" using ab si by auto
    obtain h1 h2 h3 where u: "unescape (take z a) encodeHost = Inr h1" "unescape (drop z a) encodeZone = Inr h2"
        "unescape (CHR '']'' # b) encodeHost = Inr h3" "host = h1 @ h2 @ h3"
      using h i ab v Some take_z by (auto simp: parseHost_def sum_bind_Inr)
    have h3: "h3 = CHR '']'' # b" using unescape_Inr [OF u(3)] end_b by simp
    obtain w where w: "drop z a = ''%25'' @ w" using si by (auto simp: prefix_def)
    have "hexbyte (CHR ''2'') (CHR ''5'') = CHR ''%''" by code_simp
    then have h2: "\<exists>s. h2 = CHR ''%'' # s" using unescape_Inr [OF u(2)] w by simp
    have "z \<noteq> 0" using w t by (cases z) auto
    then obtain t' where t': "take z a = CHR ''['' # t'" using t by (cases z) auto
    have none: "str_Index (take z a) ''%25'' = None"
    proof (rule ccontr)
      assume "str_Index (take z a) ''%25'' \<noteq> None"
      then obtain j where j: "str_Index (take z a) ''%25'' = Some j" by blast
      then have pj: "prefix ''%25'' (take (z - j) (drop j a))" using str_Index_Some [OF j] by (simp add: drop_take)
      then have "j < z" by (cases "j < z") auto
      moreover have "prefix ''%25'' (drop j a)" using pj take_is_prefix prefix_order.trans by blast
      ultimately show False using si by blast
    qed
    obtain r where r: "unescape_check encodeHost (take z a) 0 False = Inr r" using unescape_checked [OF u(1)] by blast
    have "ascii h1" "ascii h2" using asc u(4) by (simp_all add: ascii_def)
    have h1: "h1 = unesc encodeHost (take z a)" "list_all (may_appear encodeHost) h1" using unescape_Inr [OF u(1)] by blast+
    note x = unesc_ascii_plain [OF r, folded h1(1), OF \<open>ascii h1\<close> h1(2) none t']
    have "list_all (escapable encodeZone) h2"
      using unescape_Inr [OF u(2)] \<open>ascii h2\<close> by (auto simp: list_all_iff ascii_def may_appear_def escapable_def not_le [symmetric])
    then show ?thesis using x h2 h3 v u(4) by (intro exI [of _ h1] exI [of _ h2] exI [of _ b]) (simp add: ip_literal_def)
  qed
qed

lemma parseHost_bracket_prefix:
  assumes "parseHost (CHR ''['' # t) = Inr host"
  shows "str_HasPrefix host ''[''"
proof -
  let ?h = "CHR ''['' # t"
  have start: "str_HasPrefix (unesc mode (CHR ''['' # s)) ''[''" for mode s by (simp add: str_HasPrefix_def)
  obtain i where i: "str_LastIndex ?h (CHR '']'') = Some i" "validOptionalPort (drop (i + 1) ?h)"
    using assms by (auto simp: parseHost_def str_HasPrefix_def split: option.splits if_splits)
  show ?thesis
  proof (cases "str_Index (take i ?h) ''%25''")
    case None
    then have "unescape ?h encodeHost = Inr host" using assms i by (simp add: parseHost_def str_HasPrefix_def)
    then show ?thesis using unescape_Inr start by metis
  next
    case (Some z)
    have "z \<noteq> 0" using str_Index_Some [OF Some] by (cases i; cases z) auto
    then obtain s where s: "take z ?h = CHR ''['' # s" by (cases z) auto
    obtain h1 h2 where "unescape (take z ?h) encodeHost = Inr h1" "host = h1 @ h2"
      using assms i Some by (auto simp: parseHost_def str_HasPrefix_def sum_bind_Inr)
    then have "host = unesc encodeHost (CHR ''['' # s) @ h2" using unescape_Inr s by metis
    then show ?thesis by (simp add: str_HasPrefix_def)
  qed
qed

lemma parseHost_again:
  assumes h: "parseHost h = Inr host" and asc: "str_HasPrefix host ''['' \<longrightarrow> ascii host"
  shows "parseHost (esc encodeHost host) = Inr host"
proof (cases "str_HasPrefix h ''[''")
  case True
  then obtain t where "h = CHR ''['' # t" by (auto simp: str_HasPrefix_def prefix_def)
  then have "ascii host" using h asc parseHost_bracket_prefix by blast
  then show ?thesis using parseHost_is_literal [OF h True] parseHost_literal by blast
qed (rule parseHost_plain [OF h])

lemma host_text_set: "d \<in> {CHR ''@'', CHR ''/'', CHR ''?''} \<Longrightarrow> d \<notin> set (esc encodeHost host)"
proof -
  assume d: "d \<in> {CHR ''@'', CHR ''/'', CHR ''?''}"
  have "shouldEscape (CHR ''@'') encodeHost" "shouldEscape (CHR ''/'') encodeHost" "shouldEscape (CHR ''?'') encodeHost"
    by code_simp+
  then show ?thesis using d esc_avoids [of d encodeHost] by auto
qed

lemma parseHost_nonempty: "parseHost h = Inr [] \<Longrightarrow> h = []"
proof -
  assume h: "parseHost h = Inr []"
  have "\<not> str_HasPrefix h ''[''" using parseHost_bracket_prefix [of _ "[]"] h by (auto simp: str_HasPrefix_def prefix_def)
  then have "unescape h encodeHost = Inr []" using h by (auto simp: parseHost_def split: option.splits if_splits)
  then show "h = []" using unescape_Inr by (cases h) (fastforce split: list.splits if_splits)+
qed

end
