(* ===== verification/UrlRound.thy ===== *)
theory UrlRound
  imports UrlParse
begin

section \<open>Printed URLs are parsed back\<close>

text \<open>
  The text that \<open>String\<close> prints for a parsed URL, taken apart the way \<open>parse\<close> does: the scheme, the
  body with authority and path, the query and the fragment.
\<close>

subsection \<open>Path and fragment\<close>

lemma raw_or_self:
  assumes "unescape p mode = Inr v" "esc mode v \<noteq> p \<longrightarrow> validEncoded p mode"
  shows "raw_or (if p = esc mode v then [] else p) mode v (Inr (esc mode v)) = Inr p"
proof (cases "p = esc mode v")
  case False
  have "p \<noteq> []" using False assms(1) unescape_Inr [OF assms(1)] by auto
  then show ?thesis using False assms by (simp add: raw_or_def)
qed (simp add: raw_or_def)

lemma validEncoded_Nil [simp]: "validEncoded [] mode"
  by (simp add: validEncoded_def)

lemma setPath_again:
  assumes "setPath u0 p = Inr u" "Path u \<noteq> ''*''" "RawPath u = [] \<or> validEncoded (RawPath u) encodePath"
  shows "EscapedPath u = Inr p \<and> (Path u = [] \<longleftrightarrow> p = [])"
proof -
  obtain v where v: "unescape p encodePath = Inr v" "u = u0\<lparr>Path := v, RawPath := if p = esc encodePath v then [] else p\<rparr>"
    using assms(1) by (auto simp: setPath_def sum_bind_Inr)
  have "v = unesc encodePath p" using unescape_Inr [OF v(1)] by blast
  then have "v = [] \<longleftrightarrow> p = []" by (cases p) (auto split: list.splits)
  moreover have "esc encodePath v \<noteq> p \<longrightarrow> validEncoded p encodePath" using assms(3) v(2) by (auto split: if_splits)
  ultimately show ?thesis using raw_or_self [OF v(1)] assms(2) v(2) by (simp add: EscapedPath_def)
qed

lemma setFragment_again:
  assumes "setFragment u0 f = Inr u" "RawFragment u = [] \<or> validEncoded (RawFragment u) encodeFragment"
  shows "EscapedFragment u = Inr f \<and> (Fragment u = [] \<longleftrightarrow> f = [])"
proof -
  obtain v where v: "unescape f encodeFragment = Inr v" "u = u0\<lparr>Fragment := v, RawFragment := if f = esc encodeFragment v then [] else f\<rparr>"
    using assms(1) by (auto simp: setFragment_def sum_bind_Inr)
  have "v = unesc encodeFragment f" using unescape_Inr [OF v(1)] by blast
  then have "v = [] \<longleftrightarrow> f = []" by (cases f) (auto split: list.splits)
  moreover have "esc encodeFragment v \<noteq> f \<longrightarrow> validEncoded f encodeFragment" using assms(2) v(2) by (auto split: if_splits)
  ultimately show ?thesis using raw_or_self [OF v(1)] v(2) by (simp add: EscapedFragment_def)
qed

subsection \<open>Query and scheme\<close>

definition query_text :: "bool \<Rightarrow> string \<Rightarrow> string" where
  "query_text force q = (if force \<or> q \<noteq> [] then CHR ''?'' # q else [])"

lemma query_force:
  assumes "CHR ''?'' \<notin> set b" "force \<longrightarrow> q = []"
  shows "(str_HasSuffix (b @ query_text force q) ''?'' \<and> str_Count (b @ query_text force q) (CHR ''?'') = 1) = force"
proof -
  have b: "count_list b (CHR ''?'') = 0" using assms(1) by (simp add: count_list_0_iff)
  show ?thesis
    using assms b by (cases q rule: rev_cases) (auto simp: query_text_def str_HasSuffix_char str_Count_def)
qed

lemma query_cut:
  assumes "CHR ''?'' \<notin> set b" "\<not> force"
  shows "\<exists>f. str_Cut (b @ query_text force q) (CHR ''?'') = (b, q, f)"
  using assms str_Cut_append [OF assms(1), of q] str_Cut_none [OF assms(1)] by (cases q) (auto simp: query_text_def)

abbreviation base_URL :: "string \<Rightarrow> bool \<Rightarrow> string \<Rightarrow> URL" where
  "base_URL s force q \<equiv> new_URL\<lparr>Scheme := s, ForceQuery := force, RawQuery := q\<rparr>"

lemma url_parse_intro:
  assumes "\<not> stringContainsCTLByte raw" "raw \<noteq> ''*''" "getScheme raw = Inr (s, b @ query_text force q)"
    and "CHR ''?'' \<notin> set b" "force \<longrightarrow> q = []"
  shows "url_parse raw False = parse_rest (base_URL (str_ToLower s) force q) b False"
proof -
  have start: "url_parse raw False = (let url = new_URL\<lparr>Scheme := str_ToLower s\<rparr>; rest = b @ query_text force q in
      if force then parse_rest (url\<lparr>ForceQuery := True\<rparr>) (take (length rest - 1) rest) False
      else let (rest, query, _) = str_Cut rest (CHR ''?'') in parse_rest (url\<lparr>RawQuery := query\<rparr>) rest False)"
    using assms(1,2) unfolding url_parse_def Let_def assms(3) sum_bind_simps prod.case query_force [OF assms(4,5)] by simp
  show ?thesis
  proof (cases force)
    case True
    then show ?thesis using assms(5) unfolding start by (simp add: query_text_def new_URL_def)
  next
    case False
    then obtain f where "str_Cut (b @ query_text force q) (CHR ''?'') = (b, q, f)" using query_cut [OF assms(4)] by blast
    then show ?thesis using False unfolding start by (simp add: new_URL_def)
  qed
qed

lemma url_parse_elim:
  assumes "url_parse raw False = Inr u" "raw \<noteq> ''*''"
  obtains s b force q where "\<not> stringContainsCTLByte raw" "getScheme raw = Inr (s, b @ query_text force q)"
    "CHR ''?'' \<notin> set b" "force \<longrightarrow> q = []" "parse_rest (base_URL (str_ToLower s) force q) b False = Inr u"
proof -
  have ctl: "\<not> stringContainsCTLByte raw" using assms(1) by (auto simp: url_parse_def)
  obtain s rest where g: "getScheme raw = Inr (s, rest)"
  proof (cases "getScheme raw")
    case (Inl e)
    then have "url_parse raw False = Inl e" using assms(2) ctl by (simp add: url_parse_def)
    with assms(1) show ?thesis by simp
  next
    case (Inr r)
    then show ?thesis using that by (cases r) simp
  qed
  obtain b q f where cut: "str_Cut rest (CHR ''?'') = (b, q, f)" by (cases "str_Cut rest (CHR ''?'')")
  note sp = str_CutD [OF cut]
  have "\<exists>b force q. rest = b @ query_text force q \<and> CHR ''?'' \<notin> set b \<and> (force \<longrightarrow> q = [])"
  proof (cases f)
    case True
    then have "rest = b @ query_text (q = []) q" using sp(2) by (simp add: query_text_def)
    then show ?thesis using sp(1) by blast
  next
    case False
    then have "rest = b @ query_text False []" using sp(3) by (simp add: query_text_def)
    then show ?thesis using sp(1) by blast
  qed
  then obtain b force q where r: "rest = b @ query_text force q" "CHR ''?'' \<notin> set b" "force \<longrightarrow> q = []" by blast
  have "parse_rest (base_URL (str_ToLower s) force q) b False = Inr u"
    using url_parse_intro [OF ctl assms(2) g [unfolded r(1)] r(2,3)] assms(1) by (simp only:)
  then show ?thesis by (rule that [OF ctl g [unfolded r(1)] r(2,3)])
qed

definition letter :: "char \<Rightarrow> bool" where
  "letter c \<longleftrightarrow> between (CHR ''a'') c (CHR ''z'') \<or> between (CHR ''A'') c (CHR ''Z'')"

definition scheme_char :: "char \<Rightarrow> bool" where
  "scheme_char c \<longleftrightarrow> letter c \<or> between (CHR ''0'') c (CHR ''9'') \<or> c = CHR ''+'' \<or> c = CHR ''-'' \<or> c = CHR ''.''"

definition valid_scheme :: "string \<Rightarrow> bool" where
  "valid_scheme s \<longleftrightarrow> (\<exists>c t. s = c # t \<and> letter c \<and> list_all scheme_char t)"

lemma not_scheme_char [simp]: "\<not> scheme_char (CHR '':'')" "\<not> scheme_char (CHR ''/'')" "\<not> scheme_char (CHR ''?'')"
  by code_simp+

lemma letter_scheme: "letter c \<Longrightarrow> scheme_char c"
  by (simp add: scheme_char_def)

lemma getScheme_loop_step:
  "getScheme_loop raw i (c # cs) =
     (if scheme_char c \<and> (letter c \<or> i \<noteq> 0) then getScheme_loop raw (i + 1) cs
      else if c = CHR '':'' then
        (if i = 0 then Inl (UrlErr ''missing protocol scheme'') else Inr (take i raw, drop (i + 1) raw))
      else Inr ([], raw))"
  using not_scheme_char(1) unfolding getScheme_loop.simps letter_def [symmetric] by (auto simp: scheme_char_def)

declare getScheme_loop.simps(2) [simp del]

lemma getScheme_loop_valid:
  "getScheme_loop raw i cs = Inr (s, rest) \<Longrightarrow> raw = pre @ cs \<Longrightarrow> length pre = i \<Longrightarrow> pre = [] \<or> valid_scheme pre \<Longrightarrow>
    s = [] \<and> rest = raw \<or> valid_scheme s \<and> raw = s @ CHR '':'' # rest"
proof (induction cs arbitrary: i pre)
  case (Cons c cs)
  show ?case
  proof (cases "scheme_char c \<and> (letter c \<or> i \<noteq> 0)")
    case True
    then have "valid_scheme (pre @ [c])" using Cons.prems(3,4) by (auto simp: valid_scheme_def)
    with True Cons.prems show ?thesis by (intro Cons.IH [of "i + 1" "pre @ [c]"]) (simp_all add: getScheme_loop_step)
  next
    case False
    then show ?thesis using Cons.prems unfolding getScheme_loop_step by (auto split: if_splits)
  qed
qed simp

lemma getScheme_valid: "getScheme raw = Inr (s, rest) \<Longrightarrow> s = [] \<and> rest = raw \<or> valid_scheme s \<and> raw = s @ CHR '':'' # rest"
  unfolding getScheme_def by (rule getScheme_loop_valid [where pre = "[]"]) simp_all

lemma getScheme_intro: "valid_scheme s \<Longrightarrow> getScheme (s @ CHR '':'' # rest) = Inr (s, rest)"
proof -
  have "list_all scheme_char t \<Longrightarrow> i \<noteq> 0 \<Longrightarrow>
      getScheme_loop raw i (t @ CHR '':'' # rest) = Inr (take (i + length t) raw, drop (i + length t + 1) raw)" for t i raw
    by (induction t arbitrary: i) (simp_all add: getScheme_loop_step)
  then show "valid_scheme s \<Longrightarrow> getScheme (s @ CHR '':'' # rest) = Inr (s, rest)"
    by (auto simp: valid_scheme_def getScheme_def getScheme_loop_step scheme_char_def)
qed

lemma getScheme_none:
  assumes "CHR '':'' \<notin> set x" "y = [] \<or> (\<exists>t. y = CHR ''/'' # t \<or> y = CHR ''?'' # t)"
  shows "getScheme (x @ y) = Inr ([], x @ y)"
proof -
  have y: "getScheme_loop raw i y = Inr ([], raw)" for raw i
    using assms(2) by (auto simp: getScheme_loop_step)
  have "CHR '':'' \<notin> set x \<Longrightarrow> getScheme_loop raw i (x @ y) = Inr ([], raw)" for raw i
    by (induction x arbitrary: i) (auto simp: getScheme_loop_step y)
  then show ?thesis using assms(1) by (simp add: getScheme_def)
qed

lemma lower_char:
  assumes "between (CHR ''A'') c (CHR ''Z'')"
  shows "CHR ''a'' \<le> str_of_byte (byte_of c + 32) \<and> str_of_byte (byte_of c + 32) \<le> CHR ''z''"
proof -
  have r: "65 \<le> (of_char c :: nat)" "of_char c \<le> (90 :: nat)" using assms by (simp_all add: less_eq_char_def)
  have "unat (byte_of c + 32) = of_char c + 32"
    using r by (subst unat_add_lem [THEN iffD1]) (simp_all add: unat_byte_of)
  then have "(of_char (str_of_byte (byte_of c + 32)) :: nat) = of_char c + 32"
    using unat_byte_of [of "str_of_byte (byte_of c + 32)"] by simp
  then show ?thesis using r by (simp add: less_eq_char_def)
qed

lemma lower_scheme: "valid_scheme s \<Longrightarrow> valid_scheme (str_ToLower s) \<and> str_ToLower (str_ToLower s) = str_ToLower s"
proof -
  let ?l = "\<lambda>c. if between (CHR ''A'') c (CHR ''Z'') then str_of_byte (byte_of c + 32) else c"
  have "letter c \<Longrightarrow> letter (?l c)" for c using lower_char by (auto simp: letter_def)
  moreover have "scheme_char c \<Longrightarrow> scheme_char (?l c)" for c
    using lower_char [of c] by (auto simp: letter_def scheme_char_def)
  moreover have "?l (?l c) = ?l c" for c
  proof -
    have "\<not> (between (CHR ''A'') d (CHR ''Z''))" if "CHR ''a'' \<le> d" for d using that by (auto simp: less_eq_char_def)
    then show ?thesis using lower_char [of c] by auto
  qed
  ultimately show "valid_scheme s \<Longrightarrow> valid_scheme (str_ToLower s) \<and> str_ToLower (str_ToLower s) = str_ToLower s"
    unfolding str_ToLower_def valid_scheme_def list_all_iff by (elim exE conjE) (simp only: list.map, force)
qed

subsection \<open>The body: authority and path\<close>

definition scheme_text :: "string \<Rightarrow> string" where
  "scheme_text s = (if s \<noteq> [] then s @ '':'' else [])"

lemma url_String_path:
  assumes "Opaque u = []" "Fragment u = []" "string_authority u = Inr a" "EscapedPath u = Inr p"
    and slash: "p = [] \<or> (\<exists>t. p = CHR ''/'' # t) \<or> Host u = []"
    and colon: "Scheme u \<noteq> [] \<or> a \<noteq> [] \<or> CHR '':'' \<notin> set (fst (str_Cut p (CHR ''/'')))"
  shows "url_String u = Inr (scheme_text (Scheme u) @ (a @ p) @ query_text (ForceQuery u) (RawQuery u))"
proof -
  obtain seg r fnd where cut: "str_Cut p (CHR ''/'') = (seg, r, fnd)" by (cases "str_Cut p (CHR ''/'')")
  have "string_path u (scheme_text (Scheme u) @ a) = Inr (scheme_text (Scheme u) @ a @ p)"
    using slash colon by (auto simp: string_path_def assms(4) cut Let_def scheme_text_def str_Contains_def)
  then show ?thesis
    using assms(1-3) by (auto simp: url_String_def Let_def scheme_text_def query_text_def)
qed

definition printed :: "string \<Rightarrow> bool \<Rightarrow> string \<Rightarrow> URL \<Rightarrow> string \<Rightarrow> bool" where
  "printed s force q u b \<longleftrightarrow> url_String u = Inr (scheme_text s @ b @ query_text force q) \<and>
     parse_rest (base_URL s force q) b False = Inr u \<and> CHR ''?'' \<notin> set b \<and> list_all url_safe b \<and>
     (s = [] \<longrightarrow> (\<exists>x y. b = x @ y \<and> CHR '':'' \<notin> set x \<and> (y = [] \<or> (\<exists>t. y = CHR ''/'' # t))))"

text \<open>The hints that \<open>String\<close> relies on, and the hosts it can print.\<close>

definition printable :: "URL \<Rightarrow> bool" where
  "printable u \<longleftrightarrow> Path u \<noteq> ''*'' \<and> (RawPath u = [] \<or> validEncoded (RawPath u) encodePath) \<and>
     (RawFragment u = [] \<or> validEncoded (RawFragment u) encodeFragment) \<and> (str_HasPrefix (Host u) ''['' \<longrightarrow> ascii (Host u))"

lemma setPath_fields:
  assumes "setPath u0 p = Inr u"
  shows "Scheme u = Scheme u0" "Opaque u = Opaque u0" "url_User u = url_User u0" "Host u = Host u0" "OmitHost u = OmitHost u0"
    "ForceQuery u = ForceQuery u0" "RawQuery u = RawQuery u0" "Fragment u = Fragment u0" "RawFragment u = RawFragment u0"
  using assms by (auto simp: setPath_def sum_bind_Inr)

lemma first_segment: "\<exists>x y. p = x @ y \<and> fst (str_Cut p c) = x \<and> (y = [] \<or> (\<exists>t. y = c # t))"
proof -
  obtain a b f where "str_Cut p c = (a, b, f)" by (cases "str_Cut p c")
  with str_CutD [OF this] show ?thesis by (cases f) auto
qed

text \<open>A body without authority prints as it was read.\<close>

lemma printed_opaque:
  assumes "s \<noteq> []" "\<not> str_HasPrefix b ''/''" "CHR ''?'' \<notin> set b" "list_all url_safe b"
  shows "printed s force q (base_URL s force q\<lparr>Opaque := b\<rparr>) b"
proof (cases "b = []")
  case True
  let ?u = "base_URL s force q\<lparr>Opaque := b\<rparr>"
  have "string_authority ?u = Inr []" "EscapedPath ?u = Inr []"
    using True by (simp_all add: string_authority_def new_URL_def EscapedPath_def raw_or_def)
  then have "url_String ?u = Inr (scheme_text s @ b @ query_text force q)"
    using url_String_path [of ?u "[]" "[]"] assms(1) True by (simp add: new_URL_def)
  then show ?thesis using assms by (simp add: printed_def parse_rest_def new_URL_def)
next
  case False
  then show ?thesis
    using assms by (auto simp: printed_def parse_rest_def new_URL_def url_String_def scheme_text_def query_text_def Let_def)
qed

lemma printed_plain:
  assumes p: "setPath (base_URL s force q\<lparr>OmitHost := omit\<rparr>) b = Inr u" "printable u"
    and parse: "parse_rest (base_URL s force q) b False = Inr u"
    and b: "CHR ''?'' \<notin> set b" "list_all url_safe b" "s \<noteq> [] \<Longrightarrow> omit"
    and colon: "s = [] \<Longrightarrow> CHR '':'' \<notin> set (fst (str_Cut b (CHR ''/'')))"
  shows "printed s force q u b"
proof -
  note f = setPath_fields [OF p(1)]
  have "EscapedPath u = Inr b" using setPath_again [OF p(1)] p(2) by (simp add: printable_def)
  moreover have "string_authority u = Inr []" using f b(3) by (auto simp: string_authority_def new_URL_def)
  ultimately have "url_String u = Inr (scheme_text s @ b @ query_text force q)"
    using url_String_path [of u "[]" b] colon f by (simp add: new_URL_def)
  moreover obtain x y where "b = x @ y" "fst (str_Cut b (CHR ''/'')) = x" "y = [] \<or> (\<exists>t. y = CHR ''/'' # t)"
    using first_segment by blast
  ultimately show ?thesis using parse b colon by (auto simp: printed_def)
qed

lemma str_Index_slash:
  "CHR ''/'' \<notin> set x \<Longrightarrow> str_Index (x @ CHR ''/'' # y) ''/'' = Some (length x)" "CHR ''/'' \<notin> set x \<Longrightarrow> str_Index x ''/'' = None"
  by (induction x) auto

definition authority_text :: "Userinfo option \<Rightarrow> string \<Rightarrow> string" where
  "authority_text user host = (case user of None \<Rightarrow> [] | Some u \<Rightarrow> user_text u @ ''@'') @ esc encodeHost host"

lemma authority_text_parses:
  assumes "parseAuthority a = Inr (user, host)" "str_HasPrefix host ''['' \<longrightarrow> ascii host"
  shows "parseAuthority (authority_text user host) = Inr (user, host)"
proof -
  note r = parseAuthority_result [OF assms(1)]
  have "parseHost (esc encodeHost host) = Inr host" using r parseHost_again assms(2) by blast
  then show ?thesis using r parseAuthority_user parseAuthority_none host_text_set
    by (cases user) (simp_all add: authority_text_def)
qed

lemma authority_text_set: "d \<in> {CHR ''/'', CHR ''?''} \<Longrightarrow> d \<notin> set (authority_text user host)"
  using user_text_set [of d] host_text_set [of d] by (auto simp: authority_text_def split: option.splits)

lemma authority_text_safe: "list_all url_safe (authority_text user host)"
proof -
  have "url_safe (CHR ''@'')" "url_safe (CHR '':'')" by code_simp+
  then show ?thesis using esc_safe by (auto simp: authority_text_def user_text_def split: option.splits)
qed

lemma authority_text_empty: "authority_text user host = [] \<longleftrightarrow> user = None \<and> host = []"
  by (cases host; cases user) (auto simp: authority_text_def esc1_def)

lemma string_authority_text:
  assumes "OmitHost u \<longrightarrow> Host u \<noteq> [] \<or> url_User u \<noteq> None"
    and "Scheme u \<noteq> [] \<or> Host u \<noteq> [] \<or> url_User u \<noteq> None" "Host u \<noteq> [] \<or> Path u \<noteq> [] \<or> url_User u \<noteq> None"
  shows "string_authority u = Inr (''//'' @ authority_text (url_User u) (Host u))"
  using assms by (cases "url_User u") (auto simp: string_authority_def authority_text_def ui_String_text Let_def)

lemma printed_authority:
  assumes a: "parseAuthority auth = Inr (user, host)"
    and u: "setPath (base_URL s force q\<lparr>url_User := user, Host := host\<rparr>) p = Inr u" "printable u"
    and p: "p = [] \<or> (\<exists>t. p = CHR ''/'' # t)" "CHR ''?'' \<notin> set p" "list_all url_safe p"
    and start: "s \<noteq> [] \<or> auth \<noteq> [] \<or> p = []"
  shows "\<exists>b. printed s force q u b"
proof (cases "user = None \<and> host = [] \<and> p = []")
  case True
  have "unescape [] encodePath = Inr []" by (simp add: unescape_def)
  then have u': "u = base_URL s force q" using u(1) True by (simp add: setPath_def new_URL_def)
  show ?thesis
  proof (cases "s = []")
    case s: True
    have "printed s force q u []"
      by (rule printed_plain [where omit = False]) (use u True s u' \<open>unescape [] encodePath = Inr []\<close> in
        \<open>simp_all add: parse_rest_def parse_path_def setPath_def str_HasPrefix_def str_Cut_def str_Contains_def new_URL_def\<close>)
    then show ?thesis by blast
  next
    case False
    then show ?thesis using printed_opaque [of s "[]" force q] u' by (auto simp: str_HasPrefix_def new_URL_def)
  qed
next
  case False
  note f = setPath_fields [OF u(1)]
  let ?t = "authority_text user host"
  let ?b = "''//'' @ ?t @ p"
  have host: "str_HasPrefix host ''['' \<longrightarrow> ascii host" using u(2) f(4) by (simp add: printable_def)
  have e: "EscapedPath u = Inr p" "Path u = [] \<longleftrightarrow> p = []" using setPath_again [OF u(1)] u(2) by (simp_all add: printable_def)
  have nonempty: "s \<noteq> [] \<or> host \<noteq> [] \<or> user \<noteq> None"
    using start False parseAuthority_result [OF a] parseHost_nonempty by blast
  have "string_authority u = Inr (''//'' @ ?t)"
    using string_authority_text [of u] f e(2) nonempty False by (auto simp: new_URL_def)
  then have str: "url_String u = Inr (scheme_text s @ ?b @ query_text force q)"
    using url_String_path [of u "''//'' @ ?t" p] e(1) p(1) f by (auto simp: new_URL_def)
  have t: "CHR ''/'' \<notin> set ?t" "CHR ''?'' \<notin> set ?t" using authority_text_set [of _ user host] by blast+
  have three: "s \<noteq> [] \<or> \<not> str_HasPrefix ?b ''///''"
  proof (cases "s = []")
    case True
    then obtain c r where "?t = c # r" using nonempty authority_text_empty [of user host] by (cases ?t) auto
    then show ?thesis using t(1) by (auto simp: str_HasPrefix_def)
  qed simp
  have split: "(case str_Index (?t @ p) ''/'' of Some i \<Rightarrow> (take i (?t @ p), drop i (?t @ p)) | None \<Rightarrow> (?t @ p, [])) = (?t, p)"
    using p(1) str_Index_slash [OF t(1)] by auto
  have "parse_path (base_URL s force q) ?b False = Inr u"
    using three u(1) authority_text_parses [OF a host] split by (simp add: parse_path_def str_HasPrefix_def new_URL_def)
  then have "parse_rest (base_URL s force q) ?b False = Inr u" by (simp add: parse_rest_def str_HasPrefix_def)
  moreover have "url_safe (CHR ''/'')" by code_simp
  then have "list_all url_safe ?b" using authority_text_safe p(3) by simp
  moreover have "CHR ''?'' \<notin> set ?b" using t(2) p(2) by simp
  ultimately have "printed s force q u ?b" using str by (auto simp: printed_def intro: exI [of _ "[]"])
  then show ?thesis by blast
qed

lemma parse_path_printed:
  assumes parse: "parse_rest (base_URL s force q) b False = Inr u" "parse_path (base_URL s force q) b False = Inr u"
    and u: "printable u" and b: "CHR ''?'' \<notin> set b" "list_all url_safe b"
    and s: "s = [] \<longrightarrow> CHR '':'' \<notin> set (fst (str_Cut b (CHR ''/'')))" "s \<noteq> [] \<longrightarrow> str_HasPrefix b ''/''"
  shows "\<exists>b'. printed s force q u b'"
proof (cases "(s \<noteq> [] \<or> \<not> str_HasPrefix b ''///'') \<and> str_HasPrefix b ''//''")
  case True
  then obtain r where r: "b = ''//'' @ r" by (auto simp: str_HasPrefix_def prefix_def)
  obtain auth p where ap: "(case str_Index r ''/'' of Some i \<Rightarrow> (take i r, drop i r) | None \<Rightarrow> (r, [])) = (auth, p)" by fastforce
  obtain x y where xy: "r = x @ y" "CHR ''/'' \<notin> set x" "y = [] \<or> (\<exists>t. y = CHR ''/'' # t)"
    using first_segment [of r "CHR ''/''"] by (metis str_CutD(1) prod.collapse)
  then have ap': "auth = x" "p = y" using ap str_Index_slash [OF xy(2)] by auto
  obtain user host where a: "parseAuthority auth = Inr (user, host)"
      "setPath (base_URL s force q\<lparr>url_User := user, Host := host\<rparr>) p = Inr u"
    using parse(2) True ap by (auto simp: parse_path_def r new_URL_def sum_bind_Inr)
  have "s \<noteq> [] \<or> auth \<noteq> [] \<or> p = []" using True xy by (auto simp: r ap' str_HasPrefix_def)
  then show ?thesis using b xy by (intro printed_authority [OF a(1) a(2) u]) (auto simp: r ap')
next
  case False
  show ?thesis
  proof (cases "s = []")
    case True
    then have "setPath (base_URL s force q) b = Inr u" using parse(2) False by (auto simp: parse_path_def new_URL_def split: if_splits)
    then show ?thesis using True s(1) printed_plain [where s = s and force = force and q = q and omit = False and b = b and u = u] parse(1) u b by (auto simp: new_URL_def)
  next
    case s': False
    then have "setPath (base_URL s force q\<lparr>OmitHost := True\<rparr>) b = Inr u"
      using parse(2) False s(2) by (auto simp: parse_path_def new_URL_def split: if_splits)
    then show ?thesis using s' printed_plain [where s = s and force = force and q = q and omit = True and b = b and u = u] parse(1) u b by auto
  qed
qed

lemma parse_rest_printed:
  assumes parse: "parse_rest (base_URL s force q) b False = Inr u" and u: "printable u" and b: "CHR ''?'' \<notin> set b" "list_all url_safe b"
  shows "\<exists>b'. printed s force q u b'"
proof (cases "str_HasPrefix b ''/''")
  case True
  then have "parse_path (base_URL s force q) b False = Inr u" using parse by (simp add: parse_rest_def)
  moreover have "fst (str_Cut b (CHR ''/'')) = []" using True by (auto simp: str_HasPrefix_def prefix_def str_Cut_def)
  ultimately show ?thesis using parse_path_printed [OF parse _ u b] True by simp
next
  case False
  show ?thesis
  proof (cases "s = []")
    case True
    then have "CHR '':'' \<notin> set (fst (str_Cut b (CHR ''/'')))" "parse_path (base_URL s force q) b False = Inr u"
      using parse False by (auto simp: parse_rest_def new_URL_def str_Contains_def split: if_splits prod.splits)
    then show ?thesis using parse_path_printed [OF parse _ u b] True by simp
  next
    case s: False
    then have "u = base_URL s force q\<lparr>Opaque := b\<rparr>" using parse False by (simp add: parse_rest_def new_URL_def)
    then show ?thesis using printed_opaque [OF s False b] by blast
  qed
qed

subsection \<open>The whole URL\<close>

lemma parse_rest_fragment:
  assumes "parse_rest (base_URL s force q) b False = Inr u"
  shows "Fragment u = [] \<and> RawFragment u = []"
  using assms
  by (auto simp: parse_rest_def parse_path_def new_URL_def sum_bind_Inr Let_def
      dest: setPath_fields(8,9) split: if_splits prod.splits option.splits)

lemma scheme_safe: "valid_scheme s \<Longrightarrow> list_all url_safe s"
proof -
  have "url_safe c" if "scheme_char c" for c
  proof (cases "alnum c")
    case False
    then have "c = CHR ''+'' \<or> c = CHR ''-'' \<or> c = CHR ''.''"
      using that unfolding scheme_char_def letter_def alnum_def by blast
    then have "c \<in> set ''+-.''" by auto
    moreover have "list_all url_safe ''+-.''" by code_simp
    ultimately show ?thesis unfolding list_all_iff by blast
  qed (rule alnum_safe(1))
  then show "valid_scheme s \<Longrightarrow> list_all url_safe s" unfolding valid_scheme_def list_all_iff by (elim exE conjE) (simp add: letter_scheme)
qed

lemma url_safe_string: "list_all url_safe s \<longleftrightarrow> CHR ''#'' \<notin> set s \<and> \<not> stringContainsCTLByte s"
  by (auto simp: not_ctl url_safe_def list_all_iff)

lemma star_path: "parse_rest (base_URL [] force q) ''*'' False = Inr u \<Longrightarrow> Path u = ''*''"
proof -
  have "unescape ''*'' encodePath = Inr ''*''" by code_simp
  then show "parse_rest (base_URL [] force q) ''*'' False = Inr u \<Longrightarrow> Path u = ''*''"
    by (auto simp: parse_rest_def parse_path_def setPath_def str_HasPrefix_def str_Cut_def str_Contains_def new_URL_def)
qed

lemma url_parse_printed:
  assumes parse: "url_parse raw False = Inr u" and u: "printable u" and raw: "CHR ''#'' \<notin> set raw"
  shows "\<exists>t. url_String u = Inr t \<and> url_parse t False = Inr u \<and> CHR ''#'' \<notin> set t \<and> Fragment u = [] \<and> RawFragment u = []"
proof -
  have "raw \<noteq> ''*''" using parse u by (auto simp: url_parse_def printable_def stringContainsCTLByte_def split: if_splits)
  with parse obtain sc b force q where p: "\<not> stringContainsCTLByte raw" "getScheme raw = Inr (sc, b @ query_text force q)"
      "CHR ''?'' \<notin> set b" "force \<longrightarrow> q = []" "parse_rest (base_URL (str_ToLower sc) force q) b False = Inr u"
    by (rule url_parse_elim)
  let ?s = "str_ToLower sc" and ?q = "query_text force q"
  note sc = getScheme_valid [OF p(2)]
  have "list_all url_safe raw" using p(1) raw by (simp add: url_safe_string)
  then have safe: "list_all url_safe b" "list_all url_safe ?q" using sc by (auto simp: list_all_iff)
  obtain b' where b': "printed ?s force q u b'" using parse_rest_printed [OF p(5) u p(3) safe(1)] by blast
  let ?t = "scheme_text ?s @ b' @ ?q"
  have lower: "sc = [] \<or> valid_scheme ?s \<and> str_ToLower ?s = ?s" using sc lower_scheme by blast
  have empty: "str_ToLower [] = []" by (simp add: str_ToLower_def)
  have get: "getScheme ?t = Inr (?s, b' @ ?q)"
  proof (cases "sc = []")
    case True
    then obtain x y where "b' = x @ y" "CHR '':'' \<notin> set x" "y = [] \<or> (\<exists>t. y = CHR ''/'' # t)"
      using b' empty by (auto simp: printed_def)
    then show ?thesis
      using True empty getScheme_none [of x "y @ ?q"] by (auto simp: scheme_text_def query_text_def)
  next
    case False
    then show ?thesis using lower getScheme_intro [of ?s "b' @ ?q"] by (auto simp: scheme_text_def valid_scheme_def)
  qed
  have "url_safe (CHR '':'')" by code_simp
  then have t: "list_all url_safe ?t" using b' safe(2) lower scheme_safe empty by (auto simp: printed_def scheme_text_def)
  have "?t \<noteq> ''*''"
  proof
    assume star: "?t = ''*''"
    then have "?s = []" "b' = ''*''" by (auto simp: scheme_text_def query_text_def append_eq_Cons_conv split: if_splits)
    then show False using b' u star_path by (auto simp: printed_def printable_def)
  qed
  moreover have ctl: "\<not> stringContainsCTLByte ?t" "CHR ''#'' \<notin> set ?t" using t unfolding url_safe_string by blast+
  moreover have "CHR ''?'' \<notin> set b'" "parse_rest (base_URL ?s force q) b' False = Inr u" using b' by (simp_all add: printed_def)
  moreover have "str_ToLower ?s = ?s" using lower empty by auto
  ultimately have "url_parse ?t False = Inr u" using url_parse_intro [OF _ _ get _ p(4)] by simp
  then show ?thesis using b' ctl(2) parse_rest_fragment [OF p(5)] by (simp add: printed_def)
qed

lemma url_parse_fragment: "url_parse raw False = Inr u \<Longrightarrow> RawFragment u = []"
proof (cases "raw = ''*''")
  case False
  assume "url_parse raw False = Inr u"
  then show ?thesis using False by (rule url_parse_elim) (use parse_rest_fragment in blast)
qed (auto simp: url_parse_def new_URL_def split: if_splits)

lemma url_String_fragment:
  assumes "Fragment u = []" "url_String u = Inr t" "v \<noteq> []" "EscapedFragment (u\<lparr>Fragment := v, RawFragment := w\<rparr>) = Inr f"
  shows "url_String (u\<lparr>Fragment := v, RawFragment := w\<rparr>) = Inr (t @ CHR ''#'' # f)"
proof -
  let ?u = "u\<lparr>Fragment := v, RawFragment := w\<rparr>"
  have "string_authority ?u = string_authority u" "string_path ?u = string_path u"
    by (simp_all add: fun_eq_iff string_authority_def string_path_def EscapedPath_def)
  then show ?thesis using assms by (auto simp: url_String_def Let_def sum_bind_Inr)
qed

subsection \<open>Properties\<close>

text \<open>
  C2: Printing a parsed URL and parsing the text gives the same URL, field by field: scheme, user
  information, host with its port list, path, query and fragment, and the hints about their encoding.
  The URL must not have the path \<open>*\<close>, its hints must be valid encodings, and an IP literal must be ASCII.
\<close>

theorem url_print_parse:
  assumes "Parse raw = Inr u" "printable u"
  shows "\<exists>t. url_String u = Inr t \<and> Parse t = Inr u"
proof -
  obtain r frag fnd where cut: "str_Cut raw (CHR ''#'') = (r, frag, fnd)" by (cases "str_Cut raw (CHR ''#'')")
  obtain u0 where u0: "url_parse r False = Inr u0" "if frag = [] then u = u0 else setFragment u0 frag = Inr u"
    using assms(1) by (cases "url_parse r False"; cases "setFragment (projr (url_parse r False)) frag")
      (auto simp: Parse_def cut sum_map_error_def split: if_splits)
  have frag: "\<exists>v w. u = u0\<lparr>Fragment := v, RawFragment := w\<rparr>" if "frag \<noteq> []"
    using u0(2) that by (auto simp: setFragment_def sum_bind_Inr)
  have "printable u0"
  proof (cases "frag = []")
    case False
    then show ?thesis using frag assms(2) url_parse_fragment [OF u0(1)] by (auto simp: printable_def)
  qed (use assms(2) u0(2) in simp)
  from url_parse_printed [OF u0(1) this str_CutD(1) [OF cut]] obtain t where
    t: "url_String u0 = Inr t" "url_parse t False = Inr u0" "CHR ''#'' \<notin> set t" "Fragment u0 = []" by blast
  show ?thesis
  proof (cases "frag = []")
    case True
    then show ?thesis using t u0(2) by (auto simp: Parse_def str_Cut_none [OF t(3)] sum_map_error_def)
  next
    case False
    then have set: "setFragment u0 frag = Inr u" using u0(2) by simp
    obtain v w where u: "u = u0\<lparr>Fragment := v, RawFragment := w\<rparr>" using frag [OF False] by blast
    have "EscapedFragment u = Inr frag" "Fragment u \<noteq> []"
      using setFragment_again [OF set] assms(2) False by (simp_all add: printable_def)
    then have "url_String u = Inr (t @ CHR ''#'' # frag)" using url_String_fragment [OF t(4) t(1)] u by simp
    then show ?thesis using t(2) set False by (simp add: Parse_def str_Cut_append [OF t(3)] sum_map_error_def)
  qed
qed

theorem url_print_parse_witness:
  "\<exists>u t. Parse ''hysteria2://us%40er:p@example.com:443,5000-6000/?obfs=x#n%20m'' = Inr u \<and> url_String u = Inr t \<and> Parse t = Inr u"
proof -
  let ?raw = "''hysteria2://us%40er:p@example.com:443,5000-6000/?obfs=x#n%20m''"
  have "case Parse ?raw of Inl e \<Rightarrow> False | Inr u \<Rightarrow> printable u" by code_simp
  then obtain u where "Parse ?raw = Inr u" "printable u" by (auto split: sum.splits)
  with url_print_parse [OF this] show ?thesis by blast
qed

text \<open>
  The text printed for an IP literal whose zone has a byte outside ASCII is not accepted back:
  \<open>String\<close> escapes the byte, and \<open>Parse\<close> refuses that escape in a zone.
\<close>

lemma url_zone_not_reparsed:
  "\<exists>u t. Parse (''http://[fe80::1%25'' @ [CHR 0xE9] @ '']/'') = Inr u \<and> url_String u = Inr t \<and> t = ''http://[fe80::1%25%E9]/'' \<and>
    Parse t = Inl (UrlError ''parse'' t (EscapeError ''%E9''))"
proof -
  let ?raw = "''http://[fe80::1%25'' @ [CHR 0xE9] @ '']/''" and ?t = "''http://[fe80::1%25%E9]/''"
  have "case Parse ?raw of Inl e \<Rightarrow> False | Inr u \<Rightarrow> url_String u = Inr ?t" by code_simp
  then obtain u where "Parse ?raw = Inr u" "url_String u = Inr ?t" by (auto split: sum.splits)
  moreover have "Parse ?t = Inl (UrlError ''parse'' ?t (EscapeError ''%E9''))" by code_simp
  ultimately show ?thesis by blast
qed

end
