(* ===== verification/UrlQuery.thy ===== *)
theory UrlQuery
  imports UrlParse "HOL-Library.List_Lexorder"
begin

section \<open>Query values and reference resolution\<close>

text \<open>
  The last part of \<open>common/url/url.go\<close>: the multimap \<open>Values\<close> with its query-string codec, and the
  resolution of references. A Go map has no order of its own: \<open>Encode\<close> takes the order
  in which \<open>range\<close> yields the keys as an argument, and what it returns does not depend on it.
\<close>

type_synonym Values = "string \<rightharpoonup> string list"

definition vals_at :: "Values \<Rightarrow> string \<Rightarrow> string list" where
  "vals_at v key = (case v key of None \<Rightarrow> [] | Some vs \<Rightarrow> vs)"

definition vals_Get :: "Values \<Rightarrow> string \<Rightarrow> string" where
  "vals_Get v key = (let vs = vals_at v key in if length vs = 0 then [] else vs ! 0)"

definition vals_Set :: "Values \<Rightarrow> string \<Rightarrow> string \<Rightarrow> Values" where
  "vals_Set v key val = v(key \<mapsto> [val])"

definition vals_Add :: "Values \<Rightarrow> string \<Rightarrow> string \<Rightarrow> Values" where
  "vals_Add v key val = v(key \<mapsto> vals_at v key @ [val])"

definition vals_Del :: "Values \<Rightarrow> string \<Rightarrow> Values" where
  "vals_Del v key = v(key := None)"

definition vals_Has :: "Values \<Rightarrow> string \<Rightarrow> bool" where
  "vals_Has v key \<longleftrightarrow> v key \<noteq> None"

function parseQuery :: "Values \<Rightarrow> string \<Rightarrow> url_error option \<Rightarrow> Values \<times> url_error option" where
  "parseQuery m query err =
     (if query = [] then (m, err)
      else
        let key = fst (str_Cut query (CHR ''&'')); query' = fst (snd (str_Cut query (CHR ''&''))) in
        if str_Contains key (CHR '';'') then parseQuery m query' (Some (UrlErr ''invalid semicolon separator in query''))
        else if key = [] then parseQuery m query' err
        else
          let (key, val, _) = str_Cut key (CHR ''='') in
          case QueryUnescape key of
            Inl err1 \<Rightarrow> parseQuery m query' (if err = None then Some err1 else err)
          | Inr key \<Rightarrow>
              (case QueryUnescape val of
                 Inl err1 \<Rightarrow> parseQuery m query' (if err = None then Some err1 else err)
               | Inr val \<Rightarrow> parseQuery (vals_Add m key val) query' err))"
  by pat_completeness auto
termination
  by (relation "measure (\<lambda>(m, q, e). length q)") (use str_Cut_shorter in auto)

declare parseQuery.simps [simp del]

definition ParseQuery :: "string \<Rightarrow> Values \<times> url_error option" where
  "ParseQuery query = parseQuery Map.empty query None"

definition url_Query :: "URL \<Rightarrow> Values" where
  "url_Query u = fst (ParseQuery (RawQuery u))"

primrec encode_values :: "string \<Rightarrow> string list \<Rightarrow> string \<Rightarrow> url_error + string" where
  "encode_values keyEscaped [] buf = Inr buf"
| "encode_values keyEscaped (v # vs) buf =
     sum_bind (QueryEscape v) (\<lambda>e.
       encode_values keyEscaped vs (buf @ (if length buf > 0 then ''&'' else []) @ keyEscaped @ ''='' @ e))"

primrec encode_keys :: "Values \<Rightarrow> string list \<Rightarrow> string \<Rightarrow> url_error + string" where
  "encode_keys v [] buf = Inr buf"
| "encode_keys v (k # ks) buf =
     sum_bind (QueryEscape k) (\<lambda>e. sum_bind (encode_values e (vals_at v k) buf) (\<lambda>buf. encode_keys v ks buf))"

definition vals_Encode :: "Values option \<Rightarrow> string list \<Rightarrow> url_error + string" where
  "vals_Encode v keys = (case v of None \<Rightarrow> Inr [] | Some v \<Rightarrow> encode_keys v (sort keys) [])"

subsection \<open>The query string of a multimap\<close>

definition pair_text :: "string \<times> string \<Rightarrow> string" where
  "pair_text p = esc encodeQueryComponent (fst p) @ CHR ''='' # esc encodeQueryComponent (snd p)"

fun join :: "char \<Rightarrow> string list \<Rightarrow> string" where
  "join c [] = []"
| "join c [x] = x"
| "join c (x # xs) = x @ c # join c xs"

lemma join_snoc: "xs \<noteq> [] \<Longrightarrow> join c (xs @ [x]) = join c xs @ c # x"
  by (induction c xs rule: join.induct) simp_all

lemma join_append: "xs \<noteq> [] \<Longrightarrow> ys \<noteq> [] \<Longrightarrow> join c (xs @ ys) = join c xs @ c # join c ys"
  by (induction c xs rule: join.induct) (cases ys; simp)+

lemma join_Nil: "[] \<notin> set xs \<Longrightarrow> join c xs = [] \<longleftrightarrow> xs = []"
  by (induction c xs rule: join.induct) auto

lemma pair_text_nonempty: "pair_text p \<noteq> []"
  by (simp add: pair_text_def)

definition vals_pairs :: "Values \<Rightarrow> string list \<Rightarrow> (string \<times> string) list" where
  "vals_pairs v ks = concat (map (\<lambda>k. map (Pair k) (vals_at v k)) ks)"

lemma encode_values_text:
  "encode_values (esc encodeQueryComponent k) vs (join (CHR ''&'') (map pair_text ps)) =
     Inr (join (CHR ''&'') (map pair_text (ps @ map (Pair k) vs)))"
proof (induction vs arbitrary: ps)
  case (Cons x vs)
  have "join (CHR ''&'') (map pair_text ps) = [] \<longleftrightarrow> ps = []" 
    using join_Nil [of "map pair_text ps" "CHR ''&''"] pair_text_nonempty by (metis (no_types) ex_map_conv Nil_is_map_conv)
  then have "join (CHR ''&'') (map pair_text ps) @ (if length (join (CHR ''&'') (map pair_text ps)) > 0 then ''&'' else []) @
      esc encodeQueryComponent k @ ''='' @ esc encodeQueryComponent x = join (CHR ''&'') (map pair_text (ps @ [(k, x)]))"
    using join_snoc [of "map pair_text ps"] by (auto simp: pair_text_def)
  then show ?case using Cons [of "ps @ [(k, x)]"] by (simp add: QueryEscape_def)
qed simp

lemma encode_keys_text:
  "encode_keys v ks (join (CHR ''&'') (map pair_text ps)) = Inr (join (CHR ''&'') (map pair_text (ps @ vals_pairs v ks)))"
proof (induction ks arbitrary: ps)
  case (Cons k ks)
  show ?case
    using encode_values_text [of k "vals_at v k" ps] Cons [of "ps @ map (Pair k) (vals_at v k)"]
    by (simp add: vals_pairs_def QueryEscape_def)
qed (simp add: vals_pairs_def)

definition add_pairs :: "(string \<times> string) list \<Rightarrow> Values \<Rightarrow> Values" where
  "add_pairs ps v = fold (\<lambda>(k, x) v. vals_Add v k x) ps v"

lemma unescape_query: "QueryUnescape (esc encodeQueryComponent s) = Inr s"
  unfolding QueryUnescape_def by (rule unescape_esc) (simp add: escapable_def list_all_iff)

lemma pair_text_set: "d \<in> {CHR ''&'', CHR '';''} \<Longrightarrow> d \<notin> set (pair_text p)" "CHR ''='' \<notin> set (esc encodeQueryComponent s)"
proof -
  have e: "shouldEscape (CHR ''&'') encodeQueryComponent" "shouldEscape (CHR '';'') encodeQueryComponent" "shouldEscape (CHR ''='') encodeQueryComponent"
    by code_simp+
  show "CHR ''='' \<notin> set (esc encodeQueryComponent s)" using e by (intro esc_avoids) simp_all
  show "d \<in> {CHR ''&'', CHR '';''} \<Longrightarrow> d \<notin> set (pair_text p)"
    using e esc_avoids [of d encodeQueryComponent] by (auto simp: pair_text_def)
qed

lemma parseQuery_step:
  assumes "str_Cut query (CHR ''&'') = (pair_text (k, x), rest, f)"
  shows "parseQuery m query err = parseQuery (vals_Add m k x) rest err"
proof -
  have "query \<noteq> []" using assms pair_text_nonempty [of "(k, x)"] by (auto simp: str_Cut_def)
  moreover have "str_Cut (pair_text (k, x)) (CHR ''='') = (esc encodeQueryComponent k, esc encodeQueryComponent x, True)"
    using str_Cut_append [OF pair_text_set(2)] by (simp add: pair_text_def)
  moreover have "\<not> str_Contains (pair_text (k, x)) (CHR '';'')" using pair_text_set(1) by (simp add: str_Contains_def)
  ultimately show ?thesis
    using pair_text_nonempty [of "(k, x)"] by (subst parseQuery.simps) (simp add: assms unescape_query)
qed

lemma parseQuery_text: "parseQuery m (join (CHR ''&'') (map pair_text ps)) err = (add_pairs ps m, err)"
proof (induction ps arbitrary: m)
  case Nil
  then show ?case by (subst parseQuery.simps) (simp add: add_pairs_def)
next
  case (Cons p ps)
  obtain k x where p: "p = (k, x)" by (cases p)
  have amp: "CHR ''&'' \<notin> set (pair_text (k, x))" using pair_text_set(1) by simp
  have "\<exists>f. str_Cut (join (CHR ''&'') (map pair_text (p # ps))) (CHR ''&'') = (pair_text (k, x), join (CHR ''&'') (map pair_text ps), f)"
    using str_Cut_append [OF amp] str_Cut_none [OF amp] by (cases ps) (auto simp: p)
  then show ?case using parseQuery_step Cons by (auto simp: add_pairs_def p)
qed

lemma add_pairs_append: "add_pairs (ps @ qs) v = add_pairs qs (add_pairs ps v)"
  by (simp add: add_pairs_def)

lemma add_pairs_one: "vs \<noteq> [] \<Longrightarrow> add_pairs (map (Pair k) vs) v = v(k \<mapsto> vals_at v k @ vs)"
proof (induction vs arbitrary: v)
  case (Cons x vs)
  have step: "add_pairs (map (Pair k) (x # vs)) v = add_pairs (map (Pair k) vs) (v(k \<mapsto> vals_at v k @ [x]))"
    by (simp add: add_pairs_def vals_Add_def)
  show ?case
  proof (cases "vs = []")
    case True
    then show ?thesis unfolding step by (simp add: add_pairs_def)
  next
    case False
    then show ?thesis unfolding step Cons.IH [OF False] by (simp add: vals_at_def)
  qed
qed simp

lemma add_pairs_all:
  assumes "distinct ks" "\<forall>k \<in> set ks. \<exists>vs. v k = Some vs \<and> vs \<noteq> []" "dom w \<inter> set ks = {}"
  shows "add_pairs (vals_pairs v ks) w = w ++ (v |` set ks)"
  using assms
proof (induction ks arbitrary: w)
  case Nil
  then show ?case by (simp add: vals_pairs_def add_pairs_def)
next
  case (Cons k ks)
  obtain vs where vs: "v k = Some vs" "vs \<noteq> []" using Cons.prems(2) by auto
  have "w k = None" using Cons.prems(3) by auto
  then have step: "add_pairs (map (Pair k) (vals_at v k)) w = w(k \<mapsto> vs)"
    using vs add_pairs_one [OF vs(2), of k w] by (simp add: vals_at_def)
  have "add_pairs (vals_pairs v (k # ks)) w = add_pairs (vals_pairs v ks) (w(k \<mapsto> vs))"
    using step by (simp add: vals_pairs_def add_pairs_append)
  also have "\<dots> = w(k \<mapsto> vs) ++ (v |` set ks)" 
  proof (rule Cons.IH)
    show "dom (w(k \<mapsto> vs)) \<inter> set ks = {}" using Cons.prems(1,3) by (simp add: disjoint_iff)
  qed (use Cons.prems in simp_all)
  also have "\<dots> = w ++ (v |` set (k # ks))"
    using vs Cons.prems(1) by (auto simp: map_add_def restrict_map_def fun_eq_iff split: option.splits)
  finally show ?case .
qed

subsection \<open>Properties\<close>

text \<open>
  C15: Encoding query values and parsing the string gives the values back, without an error: every
  key with its list of values in order, whatever bytes they hold and in whatever order the map is
  iterated. A key that has no value at all is not encoded, so there must be none.
\<close>

theorem url_values_round_trip:
  assumes "distinct ks" "set ks = dom v" "\<forall>k \<in> dom v. v k \<noteq> Some []"
  shows "\<exists>s. vals_Encode (Some v) ks = Inr s \<and> ParseQuery s = (v, None)"
proof -
  have "add_pairs (vals_pairs v (sort ks)) Map.empty = Map.empty ++ (v |` set (sort ks))"
    using assms by (intro add_pairs_all) auto
  moreover have "v |` dom v = v" by (auto simp: restrict_map_def fun_eq_iff domIff)
  ultimately show ?thesis
    using encode_keys_text [of v "sort ks" "[]"] parseQuery_text [of Map.empty "vals_pairs v (sort ks)" None] assms(2)
    by (simp add: vals_Encode_def ParseQuery_def)
qed

theorem url_values_round_trip_witness:
  "\<exists>s. vals_Encode (Some [''b'' \<mapsto> [''1 ;'', ''''], ''a&'' \<mapsto> [''='']]) [''b'', ''a&''] = Inr s \<and>
    ParseQuery s = ([''b'' \<mapsto> [''1 ;'', ''''], ''a&'' \<mapsto> [''='']], None)"
  using url_values_round_trip [of "[''b'', ''a&'']" "[''b'' \<mapsto> [''1 ;'', ''''], ''a&'' \<mapsto> [''='']]"] by auto

end
