(* ===== verification/UrlResolve.thy ===== *)
theory UrlResolve
  imports UrlQuery
begin

section \<open>Resolving references\<close>

text \<open>
  \<open>resolvePath\<close> of \<open>common/url/url.go\<close>, which removes the dot segments of a path, and
  \<open>ResolveReference\<close>, \<open>URL.Parse\<close> and \<open>JoinPath\<close> around it. The loop over the segments keeps the
  path built so far in a string; the refinement to a stack of segments is the invariant of its proof.
\<close>

definition resolve_step :: "string \<Rightarrow> string \<times> bool \<Rightarrow> string \<times> bool" where
  "resolve_step elem s =
     (let (dst, first) = s in
      if elem = ''.'' then (dst, False)
      else if elem = ''..'' then
        let str = drop 1 dst in
        (case str_LastIndex str (CHR ''/'') of
           None \<Rightarrow> (''/'', True)
         | Some index \<Rightarrow> (''/'' @ take index str, first))
      else ((if \<not> first then dst @ ''/'' else dst) @ elem, False))"

function resolve_loop :: "string \<Rightarrow> string \<times> bool \<Rightarrow> string \<times> string" where
  "resolve_loop remaining s =
     (let (elem, rest, found) = str_Cut remaining (CHR ''/'');
          s' = resolve_step elem s in
      if found then resolve_loop rest s' else (elem, fst s'))"
  by pat_completeness auto
termination
proof (relation "measure (\<lambda>(r, s). length r)")
  fix remaining s x elem y rest found s'
  assume a: "x = str_Cut remaining (CHR ''/'')" "(elem, y) = x" "(rest, found) = y" found
  then have "remaining = elem @ CHR ''/'' # rest" using str_CutD(2) [of remaining "CHR ''/''" elem rest found] by simp
  then show "((rest, s'), (remaining, s)) \<in> measure (\<lambda>(r, s). length r)" by simp
qed simp

declare resolve_loop.simps [simp del]

definition resolvePath :: "string \<Rightarrow> string \<Rightarrow> string" where
  "resolvePath base ref =
     (let full =
        (if ref = [] then base
         else if ref ! 0 \<noteq> CHR ''/'' then
           take (case str_LastIndex base (CHR ''/'') of None \<Rightarrow> 0 | Some i \<Rightarrow> i + 1) base @ ref
         else ref) in
      if full = [] then []
      else
        let (elem, dst) = resolve_loop full (''/'', True);
            r = (if elem = ''.'' \<or> elem = ''..'' then dst @ ''/'' else dst) in
        if length r > 1 \<and> r ! 1 = CHR ''/'' then drop 1 r else r)"

text \<open>\<open>setPath\<close> with its error dropped, as the callers below do.\<close>

definition setPath_ignore :: "URL \<Rightarrow> string \<Rightarrow> url_error + URL" where
  "setPath_ignore u p =
     (case setPath u p of Inr u' \<Rightarrow> Inr u' | Inl IndexPanic \<Rightarrow> Inl IndexPanic | Inl _ \<Rightarrow> Inr u)"

definition ResolveReference :: "URL \<Rightarrow> URL \<Rightarrow> url_error + URL" where
  "ResolveReference u ref =
     (let url = (if Scheme ref = [] then ref\<lparr>Scheme := Scheme u\<rparr> else ref) in
      if Scheme ref \<noteq> [] \<or> Host ref \<noteq> [] \<or> url_User ref \<noteq> None then
        sum_bind (EscapedPath ref) (\<lambda>p. setPath_ignore url (resolvePath p []))
      else if Opaque ref \<noteq> [] then Inr (url\<lparr>url_User := None, Host := [], Path := []\<rparr>)
      else
        let url =
          (if Path ref = [] \<and> \<not> ForceQuery ref \<and> RawQuery ref = [] then
             let url = url\<lparr>RawQuery := RawQuery u\<rparr> in
             if Fragment ref = [] then url\<lparr>Fragment := Fragment u, RawFragment := RawFragment u\<rparr> else url
           else url);
          url = url\<lparr>Host := Host u, url_User := url_User u\<rparr> in
        sum_bind (EscapedPath u) (\<lambda>b. sum_bind (EscapedPath ref) (\<lambda>r. setPath_ignore url (resolvePath b r))))"

definition url_Parse :: "URL \<Rightarrow> string \<Rightarrow> url_error + URL" where
  "url_Parse u ref = sum_bind (Parse ref) (\<lambda>refURL. ResolveReference u refURL)"

subsection \<open>The stack of segments\<close>

definition dots :: "string set" where
  "dots = {''.'', ''..''}"

definition push_segment :: "string list \<Rightarrow> string \<Rightarrow> string list" where
  "push_segment st e = (if e = ''.'' then (if st = [] then [[]] else st) else if e = ''..'' then butlast st else st @ [e])"

definition segment :: "string \<Rightarrow> bool" where
  "segment e \<longleftrightarrow> CHR ''/'' \<notin> set e"

definition stack_repr :: "string list \<Rightarrow> string \<times> bool \<Rightarrow> bool" where
  "stack_repr st s \<longleftrightarrow> fst s = CHR ''/'' # join (CHR ''/'') st \<and> snd s = (st = []) \<and> list_all (\<lambda>e. segment e \<and> e \<notin> dots) st"

lemma join_segments_last:
  "st \<noteq> [] \<Longrightarrow> list_all segment st \<Longrightarrow>
    str_LastIndex (join (CHR ''/'') st) (CHR ''/'') = (if length st = 1 then None else Some (length (join (CHR ''/'') (butlast st)))) \<and>
    (length st \<noteq> 1 \<longrightarrow> (\<exists>e. join (CHR ''/'') st = join (CHR ''/'') (butlast st) @ CHR ''/'' # e))"
proof (cases st rule: rev_cases)
  case (snoc st' e)
  assume st: "list_all segment st"
  then have e: "CHR ''/'' \<notin> set e" by (simp add: snoc segment_def)
  show ?thesis
  proof (cases "st' = []")
    case True
    then show ?thesis using e by (simp add: snoc)
  next
    case False
    then show ?thesis using e str_LastIndex_append [OF e] by (simp add: snoc join_snoc)
  qed
qed simp

lemma resolve_step_stack:
  assumes s: "stack_repr st s" and e: "segment e"
  shows "stack_repr (push_segment st e) (resolve_step e s)"
proof -
  obtain dst first where s': "s = (dst, first)" by (cases s)
  have seg: "list_all segment st" using s by (auto simp: stack_repr_def list_all_iff)
  consider (dot) "e = ''.''" | (up) "e = ''..''" | (down) "e \<notin> dots" by (auto simp: dots_def)
  then show ?thesis
  proof cases
    case dot
    then show ?thesis using s by (auto simp: stack_repr_def push_segment_def resolve_step_def s' segment_def dots_def)
  next
    case up
    show ?thesis
    proof (cases "st = [] \<or> length st = 1")
      case True
      have "str_LastIndex (join (CHR ''/'') st) (CHR ''/'') = None"
      proof (cases "st = []")
        case False
        with True join_segments_last [OF False seg] show ?thesis by simp
      qed simp
      moreover have "butlast st = []" using True by (cases st) auto
      ultimately show ?thesis
        using s up by (simp add: stack_repr_def push_segment_def resolve_step_def s' Let_def del: str_LastIndex_none)
    next
      case False
      then obtain f where "str_LastIndex (join (CHR ''/'') st) (CHR ''/'') = Some (length (join (CHR ''/'') (butlast st)))"
          "join (CHR ''/'') st = join (CHR ''/'') (butlast st) @ CHR ''/'' # f"
        using join_segments_last [of st, OF _ seg] by fastforce
      moreover have "butlast st \<noteq> []" using False by (cases st rule: rev_cases) auto
      ultimately show ?thesis
        using s up by (auto simp: stack_repr_def push_segment_def resolve_step_def s' Let_def list_all_iff dest: in_set_butlastD)
    qed
  next
    case down
    then show ?thesis
      using s e by (cases "st = []") (auto simp: stack_repr_def push_segment_def resolve_step_def s' dots_def join_snoc)
  qed
qed

primrec push_segments :: "string list \<Rightarrow> string list \<Rightarrow> string list" where
  "push_segments [] st = st"
| "push_segments (e # es) st = push_segments es (push_segment st e)"

function str_Split :: "string \<Rightarrow> char \<Rightarrow> string list" where
  "str_Split s c = (let (a, b, f) = str_Cut s c in if f then a # str_Split b c else [a])"
  by pat_completeness auto
termination
proof (relation "measure (\<lambda>(s, c). length s)")
  fix s c x a y b f
  assume a: "x = str_Cut s c" "(a, y) = x" "(b, f) = y" f
  then have "s = a @ c # b" using str_CutD(2) [of s c a b f] by simp
  then show "((b, c), (s, c)) \<in> measure (\<lambda>(s, c). length s)" by simp
qed simp

declare str_Split.simps [simp del]

lemma str_Split_join: "join c (str_Split s c) = s \<and> list_all (\<lambda>e. c \<notin> set e) (str_Split s c) \<and> str_Split s c \<noteq> []"
proof (induction s c rule: str_Split.induct)
  case (1 s c)
  obtain a b f where cut: "str_Cut s c = (a, b, f)" by (cases "str_Cut s c")
  note sp = str_CutD [OF cut]
  show ?case
  proof (cases f)
    case True
    then have IH: "join c (str_Split b c) = b \<and> list_all (\<lambda>e. c \<notin> set e) (str_Split b c) \<and> str_Split b c \<noteq> []"
      using 1 [OF cut [symmetric] refl refl] by simp
    then have "join c (a # str_Split b c) = a @ c # b" by (cases "str_Split b c") simp_all
    moreover have "str_Split s c = a # str_Split b c" by (subst str_Split.simps) (simp add: cut True)
    ultimately show ?thesis using IH sp(1) sp(2) [OF True] by simp
  next
    case False
    have "str_Split s c = [a]" by (subst str_Split.simps) (simp add: cut False)
    then show ?thesis using sp(1) sp(3) [OF False] by simp
  qed
qed

lemma str_Split_unique: "list_all (\<lambda>e. c \<notin> set e) es \<Longrightarrow> es \<noteq> [] \<Longrightarrow> str_Split (join c es) c = es"
proof (induction c es rule: join.induct)
  case (2 c x)
  then show ?case by (subst str_Split.simps) (simp add: str_Cut_none)
next
  case (3 c x y xs)
  then show ?case by (subst str_Split.simps) (simp add: str_Cut_append)
qed simp

lemma resolve_loop_stack:
  "stack_repr st s \<Longrightarrow> stack_repr (push_segments (str_Split r (CHR ''/'')) st) (snd (resolve_loop r s), push_segments (str_Split r (CHR ''/'')) st = []) \<and>
    fst (resolve_loop r s) = last (str_Split r (CHR ''/''))"
proof (induction r s arbitrary: st rule: resolve_loop.induct)
  case (1 r s)
  obtain e rest f where cut: "str_Cut r (CHR ''/'') = (e, rest, f)" by (cases "str_Cut r (CHR ''/'')")
  have seg: "segment e" using str_CutD(1) [OF cut] by (simp add: segment_def)
  note step = resolve_step_stack [OF "1.prems" seg]
  show ?case
  proof (cases f)
    case True
    have split: "str_Split r (CHR ''/'') = e # str_Split rest (CHR ''/'')" by (subst str_Split.simps) (simp add: cut True)
    have loop: "resolve_loop r s = resolve_loop rest (resolve_step e s)" by (subst resolve_loop.simps) (simp add: cut True)
    show ?thesis
      using "1.IH" [OF cut [symmetric] refl refl refl True step] str_Split_join [of "CHR ''/''" rest]
      by (simp add: split loop)
  next
    case False
    have split: "str_Split r (CHR ''/'') = [e]" by (subst str_Split.simps) (simp add: cut False)
    have loop: "resolve_loop r s = (e, fst (resolve_step e s))" by (subst resolve_loop.simps) (simp add: cut False)
    show ?thesis using step by (simp add: split loop stack_repr_def)
  qed
qed

text \<open>The path that a list of segments resolves to: the segments left on the stack.\<close>

definition clean_segments :: "string list \<Rightarrow> string list" where
  "clean_segments es =
     (let st = push_segments es []; st = (if last es \<in> dots then st @ [[]] else st) in
      if length st > 1 \<and> hd st = [] then tl st else if st = [] then [[]] else st)"

definition dot_free :: "string \<Rightarrow> bool" where
  "dot_free p \<longleftrightarrow> (\<exists>t. p = CHR ''/'' # t \<and> list_all (\<lambda>e. e \<notin> dots) (str_Split t (CHR ''/'')))"

lemma join_starts:
  assumes "list_all (\<lambda>e. c \<notin> set e) st"
  shows "join c st \<noteq> [] \<and> join c st ! 0 = c \<longleftrightarrow> length st > 1 \<and> hd st = []"
proof (cases st)
  case (Cons e es)
  then show ?thesis using assms by (cases es; cases e) auto
qed simp

lemma push_segments_plain: "list_all (\<lambda>e. e \<notin> dots) es \<Longrightarrow> push_segments es st = st @ es"
  by (induction es arbitrary: st) (auto simp: push_segment_def dots_def)

definition full_path :: "string \<Rightarrow> string \<Rightarrow> string" where
  "full_path base ref =
     (if ref = [] then base
      else if ref ! 0 \<noteq> CHR ''/'' then take (case str_LastIndex base (CHR ''/'') of None \<Rightarrow> 0 | Some i \<Rightarrow> i + 1) base @ ref
      else ref)"

lemma clean_segments_ok:
  assumes "list_all (\<lambda>e. segment e \<and> e \<notin> dots) (push_segments es [])"
  shows "list_all (\<lambda>e. segment e \<and> e \<notin> dots) (clean_segments es) \<and> clean_segments es \<noteq> []"
proof -
  define st where "st = (let st = push_segments es [] in if last es \<in> dots then st @ [[]] else st)"
  have st: "list_all (\<lambda>e. segment e \<and> e \<notin> dots) st" using assms by (auto simp: st_def Let_def segment_def dots_def)
  have "list_all (\<lambda>e. segment e \<and> e \<notin> dots) [[]]" by (simp add: segment_def dots_def)
  moreover have "clean_segments es = (if length st > 1 \<and> hd st = [] then tl st else if st = [] then [[]] else st)"
    unfolding clean_segments_def st_def Let_def ..
  ultimately show ?thesis using st by (cases st) auto
qed

lemma resolvePath_segments:
  assumes "full_path base ref \<noteq> []"
  shows "resolvePath base ref = CHR ''/'' # join (CHR ''/'') (clean_segments (str_Split (full_path base ref) (CHR ''/''))) \<and>
    list_all (\<lambda>e. segment e \<and> e \<notin> dots) (clean_segments (str_Split (full_path base ref) (CHR ''/''))) \<and>
    clean_segments (str_Split (full_path base ref) (CHR ''/'')) \<noteq> []"
proof -
  define es where "es = str_Split (full_path base ref) (CHR ''/'')"
  define st where "st = push_segments es []"
  define st' where "st' = (if last es \<in> dots then st @ [[]] else st)"
  obtain e dst where loop: "resolve_loop (full_path base ref) (''/'', True) = (e, dst)" by fastforce
  have "stack_repr [] (''/'', True)" by (simp add: stack_repr_def)
  from resolve_loop_stack [OF this, of "full_path base ref"] loop
  have r: "dst = CHR ''/'' # join (CHR ''/'') st" "e = last es" and st: "list_all (\<lambda>e. segment e \<and> e \<notin> dots) st"
    by (simp_all add: stack_repr_def es_def st_def)
  have st'_ok: "list_all (\<lambda>e. segment e \<and> e \<notin> dots) st'" using st by (simp add: st'_def segment_def dots_def)
  then have "list_all (\<lambda>e. CHR ''/'' \<notin> set e) st'" by (simp add: list_all_iff segment_def)
  note starts = join_starts [OF this]
  have clean: "clean_segments es = (if length st' > 1 \<and> hd st' = [] then tl st' else if st' = [] then [[]] else st')"
    unfolding clean_segments_def st_def st'_def Let_def ..
  define out where "out = (if e = ''.'' \<or> e = ''..'' then dst @ ''/'' else dst)"
  have "(if length out > 1 \<and> out ! 1 = CHR ''/'' then drop 1 out else out) = CHR ''/'' # join (CHR ''/'') (clean_segments es)"
  proof (cases "last es \<in> dots \<and> st = []")
    case True
    then have "out = ''//''" "st' = [[]]" using r by (auto simp: out_def dots_def st'_def)
    then show ?thesis by (simp add: clean)
  next
    case False
    then have out: "out = CHR ''/'' # join (CHR ''/'') st'" using r join_snoc [of st "CHR ''/''" "[]"] by (auto simp: out_def dots_def st'_def)
    show ?thesis
    proof (cases "length st' > 1 \<and> hd st' = []")
      case True
      then obtain x xs where "st' = [] # x # xs" by (cases st'; cases "tl st'") auto
      then show ?thesis by (simp add: out clean)
    next
      case nz: False
      have "\<not> (length out > 1 \<and> out ! 1 = CHR ''/'')" using starts nz by (auto simp: out)
      then show ?thesis using nz by (auto simp: out clean)
    qed
  qed
  moreover have "resolvePath base ref = (if length out > 1 \<and> out ! 1 = CHR ''/'' then drop 1 out else out)"
    unfolding resolvePath_def full_path_def [symmetric] Let_def loop prod.case out_def [symmetric] using assms by (rule if_not_P)
  ultimately show ?thesis using clean_segments_ok [of es] st by (simp add: es_def st_def)
qed

subsection \<open>Properties\<close>

text \<open>
  C16: Resolving a path against a base gives nothing only when there is nothing to resolve. Otherwise the
  result starts with a slash, has no segment \<open>.\<close> or \<open>..\<close>, so that it cannot climb above the root,
  and resolving it once more changes nothing.
\<close>

theorem resolvePath_clean:
  "(resolvePath base ref = [] \<longleftrightarrow> base = [] \<and> ref = []) \<and>
   (resolvePath base ref = [] \<or> dot_free (resolvePath base ref)) \<and>
   resolvePath (resolvePath base ref) [] = resolvePath base ref"
proof (cases "full_path base ref = []")
  case True
  then have "base = [] \<and> ref = []" by (auto simp: full_path_def split: if_splits)
  then show ?thesis by (simp add: resolvePath_def)
next
  case False
  define cs where "cs = clean_segments (str_Split (full_path base ref) (CHR ''/''))"
  have r: "resolvePath base ref = CHR ''/'' # join (CHR ''/'') cs" and cs: "list_all (\<lambda>e. segment e \<and> e \<notin> dots) cs" "cs \<noteq> []"
    using resolvePath_segments [OF False] by (simp_all add: cs_def)
  have seg: "list_all (\<lambda>e. CHR ''/'' \<notin> set e) cs" "list_all (\<lambda>e. e \<notin> dots) cs" using cs(1) by (simp_all add: list_all_iff segment_def)
  have "dot_free (resolvePath base ref)" using str_Split_unique [OF seg(1) cs(2)] seg(2) by (simp add: r dot_free_def)
  moreover have "resolvePath (resolvePath base ref) [] = resolvePath base ref"
  proof -
    have full: "full_path (resolvePath base ref) [] = join (CHR ''/'') ([] # cs)" using cs(2) by (cases cs) (simp_all add: full_path_def r)
    have split: "str_Split (full_path (resolvePath base ref) []) (CHR ''/'') = [] # cs"
      unfolding full using seg(1) by (intro str_Split_unique) simp_all
    have "push_segments ([] # cs) [] = [] # cs" using push_segments_plain [of "[] # cs" "[]"] seg(2) by (simp add: dots_def)
    moreover have "last ([] # cs) \<notin> dots" using seg(2) cs(2) last_in_set [of cs] by (auto simp: list_all_iff)
    ultimately have "clean_segments ([] # cs) = cs" using cs(2) by (simp add: clean_segments_def)
    then show ?thesis using resolvePath_segments [of "resolvePath base ref" "[]"] split full by (simp add: r full_path_def)
  qed
  moreover have "\<not> (base = [] \<and> ref = [])" using False by (auto simp: full_path_def)
  ultimately show ?thesis using r by simp
qed

subsection \<open>Joining paths\<close>

text \<open>
  \<open>path.Clean\<close> and \<open>path.Join\<close> of the Go library: empty elements and \<open>.\<close> are dropped, \<open>..\<close> removes
  the element before it, and at the root it is dropped too.
\<close>

definition clean_step :: "bool \<Rightarrow> string \<Rightarrow> string list \<Rightarrow> string list" where
  "clean_step rooted e st =
     (if e = [] \<or> e = ''.'' then st
      else if e = ''..'' then
        (if st \<noteq> [] \<and> last st \<noteq> ''..'' then butlast st else if rooted then st else st @ [''..''])
      else st @ [e])"

definition path_Clean :: "string \<Rightarrow> string" where
  "path_Clean p =
     (let rooted = str_HasPrefix p ''/'';
          body = join (CHR ''/'') (fold (clean_step rooted) (str_Split p (CHR ''/'')) []) in
      if rooted then CHR ''/'' # body else if body = [] then ''.'' else body)"

definition path_Join :: "string list \<Rightarrow> string" where
  "path_Join elem = (let es = filter (\<lambda>e. e \<noteq> []) elem in if es = [] then [] else path_Clean (join (CHR ''/'') es))"

definition url_JoinPath :: "URL \<Rightarrow> string list \<Rightarrow> url_error + URL" where
  "url_JoinPath u elem = sum_bind (EscapedPath u) (\<lambda>p0.
     let elem = p0 # elem in
     sum_bind
       (if \<not> str_HasPrefix (elem ! 0) ''/'' then
          let p = path_Join (elem[0 := CHR ''/'' # (elem ! 0)]) in
          if p = [] then Inl IndexPanic else Inr (elem[0 := CHR ''/'' # (elem ! 0)], drop 1 p)
        else Inr (elem, path_Join elem)) (\<lambda>(elem, p).
     let p = (if str_HasSuffix (last elem) ''/'' \<and> \<not> str_HasSuffix p ''/'' then p @ ''/'' else p) in
     setPath_ignore u p))"

definition JoinPath :: "string \<Rightarrow> string list \<Rightarrow> url_error + string" where
  "JoinPath base elem = sum_bind (Parse base) (\<lambda>url. sum_bind (url_JoinPath url elem) url_String)"

lemma clean_fold: "list_all (\<lambda>e. e \<notin> dots) st \<Longrightarrow> list_all (\<lambda>e. e \<notin> dots) (fold (clean_step True) es st)"
proof (induction es arbitrary: st)
  case (Cons e es)
  have "list_all (\<lambda>e. e \<notin> dots) (clean_step True e st)"
    using Cons.prems by (auto simp: clean_step_def list_all_iff dots_def dest: in_set_butlastD)
  then show ?case using Cons.IH by simp
qed simp

text \<open>
  What a cleaned path becomes when \<open>setPath\<close> unescapes it. An escape is tame when it is well formed and
  stands for a byte other than a dot or a slash. Tame escapes stay inside their segment and never make
  it \<open>.\<close> or \<open>..\<close>.
\<close>

fun tame_escapes :: "string \<Rightarrow> bool" where
  "tame_escapes [] = True"
| "tame_escapes (c # s) =
     (if c = CHR ''%'' then
        (case s of
           a # b # rest \<Rightarrow> ishex a \<and> ishex b \<and> hexbyte a b \<noteq> CHR ''.'' \<and> hexbyte a b \<noteq> CHR ''/'' \<and> tame_escapes rest
         | _ \<Rightarrow> False)
      else tame_escapes s)"

lemma tame_check: "tame_escapes s \<Longrightarrow> \<exists>r. unescape_check encodePath s n hp = Inr r"
proof (induction s arbitrary: n hp rule: tame_escapes.induct)
  case (2 c s)
  show ?case
  proof (cases "c = CHR ''%''")
    case True
    then obtain a b rest where "s = a # b # rest" "ishex a" "ishex b" "tame_escapes rest"
      using "2.prems" by (auto split: list.splits)
    then show ?thesis using "2.IH"(1) [OF True] True by simp
  next
    case False
    then show ?thesis using "2.IH"(2) [OF False] "2.prems" by simp
  qed
qed simp

lemma tame_unescape: "tame_escapes s \<Longrightarrow> unescape s encodePath = Inr (unesc encodePath s)"
  using tame_check [of s 0 False] unescape_total [of encodePath s] by auto

lemma tame_append:
  "tame_escapes x \<Longrightarrow> tame_escapes (x @ y) = tame_escapes y \<and> unesc encodePath (x @ y) = unesc encodePath x @ unesc encodePath y"
proof (induction x rule: tame_escapes.induct)
  case (2 c s)
  show ?case
  proof (cases "c = CHR ''%''")
    case True
    then obtain a b rest where s: "s = a # b # rest" "ishex a" "ishex b" "hexbyte a b \<noteq> CHR ''.''" "hexbyte a b \<noteq> CHR ''/''"
        "tame_escapes rest"
      using "2.prems" by (cases s; cases "tl s") simp_all
    then show ?thesis using "2.IH"(1) [OF True s(1) refl] True by simp
  next
    case False
    then show ?thesis using "2.IH"(2) [OF False] "2.prems" by simp
  qed
qed simp

lemma ishex_slash [simp]: "\<not> ishex (CHR ''/'')"
  by (simp add: ishex_def less_eq_char_def)

lemma tame_slash: "tame_escapes (x @ CHR ''/'' # y) \<longleftrightarrow> tame_escapes x \<and> tame_escapes y"
proof (induction x rule: tame_escapes.induct)
  case (2 c s)
  show ?case
  proof (cases "c = CHR ''%''")
    case True
    consider "s = []" | a where "s = [a]" | a b rest where "s = a # b # rest" by (metis list.exhaust)
    then show ?thesis using "2.IH"(1) [OF True] True by cases (auto split: list.splits)
  next
    case False
    then show ?thesis using "2.IH"(2) by simp
  qed
qed simp

lemma tame_join: "tame_escapes (join (CHR ''/'') es) \<longleftrightarrow> list_all tame_escapes es"
  by (induction "CHR ''/''" es rule: join.induct) (auto simp: tame_slash)

lemma tame_split: "tame_escapes p \<Longrightarrow> list_all tame_escapes (str_Split p (CHR ''/''))"
  using tame_join [of "str_Split p (CHR ''/'')"] str_Split_join [of "CHR ''/''" p] by simp

lemma unesc_join:
  "list_all tame_escapes es \<Longrightarrow> unesc encodePath (join (CHR ''/'') es) = join (CHR ''/'') (map (unesc encodePath) es)"
proof (induction "CHR ''/''" es rule: join.induct)
  case (3 x y ys)
  then show ?case using tame_append [of x "CHR ''/'' # join (CHR ''/'') (y # ys)"] by simp
qed simp_all

lemma unesc_segment: "tame_escapes e \<Longrightarrow> segment e \<Longrightarrow> segment (unesc encodePath e)"
  unfolding segment_def by (induction e rule: tame_escapes.induct) (auto split: list.splits if_splits)

lemma unesc_dot: "tame_escapes e \<Longrightarrow> unesc encodePath e = CHR ''.'' # t \<Longrightarrow> \<exists>s. e = CHR ''.'' # s \<and> tame_escapes s \<and> unesc encodePath s = t"
proof (cases e)
  case (Cons c s)
  assume e: "tame_escapes e" "unesc encodePath e = CHR ''.'' # t"
  show ?thesis
  proof (cases "c = CHR ''%''")
    case True
    then show ?thesis using e Cons by (cases s; cases "tl s") simp_all
  next
    case False
    then show ?thesis using e Cons by simp
  qed
qed simp

lemma unesc_dots: "tame_escapes e \<Longrightarrow> e \<notin> dots \<Longrightarrow> unesc encodePath e \<notin> dots"
proof
  assume e: "tame_escapes e" "e \<notin> dots" and "unesc encodePath e \<in> dots"
  have empty: "s = []" if "unesc encodePath s = []" for s using that by (cases s) (auto split: list.splits if_splits)
  from \<open>unesc encodePath e \<in> dots\<close> obtain t where t: "unesc encodePath e = CHR ''.'' # t" "t = [] \<or> t = ''.''"
    by (auto simp: dots_def)
  obtain s where s: "e = CHR ''.'' # s" "tame_escapes s" "unesc encodePath s = t" using unesc_dot [OF e(1) t(1)] by blast
  with t(2) empty unesc_dot [OF s(2), of "[]"] e(2) show False by (auto simp: dots_def)
qed

text \<open>
  The segments that are left of a rooted list of elements: empty ones do not count, so the slashes at
  their ends do not matter.
\<close>

definition joined :: "string list \<Rightarrow> string list" where
  "joined es = fold (clean_step True) (concat (map (\<lambda>e. str_Split e (CHR ''/'')) es)) []"

lemma split_empty [simp]: "str_Split [] (CHR ''/'') = [[]]"
  by (subst str_Split.simps) (simp add: str_Cut_def)

lemma clean_step_empty [simp]: "clean_step r [] st = st"
  by (simp add: clean_step_def)

lemma split_slash: "str_Split (x @ CHR ''/'' # y) (CHR ''/'') = str_Split x (CHR ''/'') @ str_Split y (CHR ''/'')"
proof -
  let ?xs = "str_Split x (CHR ''/'')" and ?ys = "str_Split y (CHR ''/'')"
  have x: "join (CHR ''/'') ?xs = x" "list_all (\<lambda>e. CHR ''/'' \<notin> set e) ?xs" "?xs \<noteq> []"
    and y: "join (CHR ''/'') ?ys = y" "list_all (\<lambda>e. CHR ''/'' \<notin> set e) ?ys" "?ys \<noteq> []"
    using str_Split_join [of "CHR ''/''"] by blast+
  have "join (CHR ''/'') (?xs @ ?ys) = x @ CHR ''/'' # y" using join_append [OF x(3) y(3)] x(1) y(1) by simp
  then show ?thesis using str_Split_unique [of "CHR ''/''" "?xs @ ?ys"] x y by simp
qed

lemma split_join_fold:
  "es \<noteq> [] \<Longrightarrow> str_Split (join (CHR ''/'') es) (CHR ''/'') = concat (map (\<lambda>e. str_Split e (CHR ''/'')) es)"
  by (induction "CHR ''/''" es rule: join.induct) (simp_all add: split_slash)

lemma fold_nonempty:
  "fold (clean_step r) (concat (map (\<lambda>e. str_Split e (CHR ''/'')) (filter (\<lambda>e. e \<noteq> []) es))) st =
   fold (clean_step r) (concat (map (\<lambda>e. str_Split e (CHR ''/'')) es)) st"
  by (induction es arbitrary: st) auto

lemma path_Join_joined:
  assumes "str_HasPrefix e ''/''"
  shows "path_Join (e # es) = CHR ''/'' # join (CHR ''/'') (joined (e # es))"
proof -
  let ?es = "e # filter (\<lambda>e. e \<noteq> []) es"
  have ne: "e \<noteq> []" using assms by (auto simp: str_HasPrefix_def)
  have "str_HasPrefix (join (CHR ''/'') ?es) ''/''"
    using assms by (cases "filter (\<lambda>e. e \<noteq> []) es") (auto simp: str_HasPrefix_def prefix_def)
  then show ?thesis
    using split_join_fold [of ?es] fold_nonempty [of True "e # es" "[]"]
    by (simp add: path_Join_def path_Clean_def joined_def ne)
qed

lemma joined_slash: "joined ((CHR ''/'' # p) # es) = joined (p # es)"
  using split_slash [of "[]" p] by (simp add: joined_def)

lemma fold_clean_subset: "set (fold (clean_step True) es st) \<subseteq> set st \<union> set es"
proof (induction es arbitrary: st)
  case (Cons e es)
  have "set (clean_step True e st) \<subseteq> set st \<union> {e}" by (auto simp: clean_step_def dest: in_set_butlastD)
  then show ?case using Cons.IH [of "clean_step True e st"] by auto
qed simp

lemma joined_ok:
  assumes "list_all tame_escapes es"
  shows "list_all (\<lambda>e. tame_escapes e \<and> segment e \<and> e \<notin> dots) (joined es)"
proof -
  let ?segs = "concat (map (\<lambda>e. str_Split e (CHR ''/'')) es)"
  have "list_all tame_escapes ?segs" using assms tame_split by (auto simp: list_all_iff)
  moreover have "list_all segment ?segs" using str_Split_join [of "CHR ''/''"] by (auto simp: list_all_iff segment_def)
  moreover have "list_all (\<lambda>e. e \<notin> dots) (joined es)" unfolding joined_def by (rule clean_fold) simp
  ultimately show ?thesis using fold_clean_subset [of ?segs "[]"] by (auto simp: joined_def list_all_iff)
qed

lemma unesc_path:
  assumes "list_all (\<lambda>e. tame_escapes e \<and> segment e \<and> e \<notin> dots) st" "tail = [] \<or> tail = ''/''"
  shows "tame_escapes (join (CHR ''/'') st @ tail) \<and>
    unesc encodePath (join (CHR ''/'') st @ tail) = join (CHR ''/'') (map (unesc encodePath) st) @ tail \<and>
    dot_free (CHR ''/'' # join (CHR ''/'') (map (unesc encodePath) st) @ tail)"
proof -
  let ?us = "map (unesc encodePath) st"
  have t: "list_all tame_escapes st" using assms(1) by (simp add: list_all_iff)
  then have j: "tame_escapes (join (CHR ''/'') st)" "unesc encodePath (join (CHR ''/'') st) = join (CHR ''/'') ?us"
    by (simp_all add: tame_join unesc_join)
  have us: "list_all (\<lambda>e. CHR ''/'' \<notin> set e) ?us" "list_all (\<lambda>e. e \<notin> dots) ?us"
    using assms(1) unesc_segment unesc_dots by (auto simp: list_all_iff segment_def)
  have "str_Split (join (CHR ''/'') ?us) (CHR ''/'') = (if st = [] then [[]] else ?us)"
    using str_Split_unique [OF us(1)] by simp
  moreover have "str_Split (join (CHR ''/'') ?us @ ''/'') (CHR ''/'') = (if st = [] then [[]] else ?us) @ [[]]"
    using split_slash [of "join (CHR ''/'') ?us" "[]"] calculation by simp
  ultimately have "list_all (\<lambda>e. e \<notin> dots) (str_Split (join (CHR ''/'') ?us @ tail) (CHR ''/''))"
    using us(2) assms(2) by (auto simp: dots_def)
  then show ?thesis using tame_append [OF j(1), of tail] j(2) assms(2) by (auto simp: dot_free_def)
qed

text \<open>
  C35: \<open>JoinPath\<close> when the escapes in the base path and in the elements are well formed and none stands for a
  dot or a slash: it succeeds and changes nothing but the path. The path it sets, unescaped, consists of
  the segments left of those of the base path and of the elements once empty ones and \<open>.\<close> are dropped and
  each \<open>..\<close> has removed the one before it, with at most one slash at the end. It therefore has no segment \<open>.\<close> or
  \<open>..\<close>. A rooted base gives a rooted path, a relative one the same without the slash in front. The condition
  cannot be dropped, see \<open>url_JoinPath_encoded_dots\<close>.
\<close>

theorem url_JoinPath_contained:
  assumes "EscapedPath u = Inr p0" "tame_escapes p0" "list_all tame_escapes elem"
  shows "\<exists>u' tail. url_JoinPath u elem = Inr u' \<and> u'\<lparr>Path := Path u, RawPath := RawPath u\<rparr> = u \<and>
    (tail = [] \<or> tail = ''/'') \<and>
    Path u' = (if str_HasPrefix p0 ''/'' then ''/'' else []) @ join (CHR ''/'') (map (unesc encodePath) (joined (p0 # elem))) @ tail \<and>
    dot_free (if str_HasPrefix p0 ''/'' then Path u' else CHR ''/'' # Path u')"
proof -
  let ?es = "if str_HasPrefix p0 ''/'' then p0 # elem else (CHR ''/'' # p0) # elem"
  let ?st = "joined (p0 # elem)" and ?slash = "if str_HasPrefix p0 ''/'' then ''/'' else []"
  have j: "path_Join ?es = CHR ''/'' # join (CHR ''/'') ?st"
    using path_Join_joined [of p0 elem] path_Join_joined [of "CHR ''/'' # p0" elem] joined_slash
    by (simp add: str_HasPrefix_def)
  let ?q = "?slash @ join (CHR ''/'') ?st"
  define tail where "tail = (if str_HasSuffix (last ?es) ''/'' \<and> \<not> str_HasSuffix ?q ''/'' then ''/'' else [])"
  have set: "url_JoinPath u elem = setPath_ignore u (?q @ tail)"
    using j unfolding url_JoinPath_def assms(1) sum_bind_simps Let_def tail_def
    by (cases "str_HasPrefix p0 ''/''") (simp_all del: str_HasSuffix_char)
  have tail: "tail = [] \<or> tail = ''/''" by (simp add: tail_def)
  note p = unesc_path [OF joined_ok tail, of "p0 # elem"]
  have t: "tame_escapes (?q @ tail)" "unesc encodePath (?q @ tail) = ?slash @ join (CHR ''/'') (map (unesc encodePath) ?st) @ tail"
    using p assms(2,3) by simp_all
  have path: "setPath u (?q @ tail) = Inr (u\<lparr>Path := unesc encodePath (?q @ tail),
      RawPath := if ?q @ tail = esc encodePath (unesc encodePath (?q @ tail)) then [] else ?q @ tail\<rparr>)"
    using tame_unescape [OF t(1)] by (simp add: setPath_def)
  show ?thesis
    by (rule exI [of _ "u\<lparr>Path := unesc encodePath (?q @ tail),
      RawPath := if ?q @ tail = esc encodePath (unesc encodePath (?q @ tail)) then [] else ?q @ tail\<rparr>"], rule exI [of _ tail])
      (use set path t(2) tail p assms(2,3) in \<open>simp add: setPath_ignore_def\<close>)
qed

theorem url_JoinPath_contained_witness:
  "\<exists>u' tail. url_JoinPath (new_URL\<lparr>Path := ''/a b/c''\<rparr>) [''..'', ''%41'', ''x/''] = Inr u' \<and> (tail = [] \<or> tail = ''/'') \<and>
     Path u' = ''/a b/A/x'' @ tail"
proof -
  let ?u = "new_URL\<lparr>Path := ''/a b/c''\<rparr>"
  have "EscapedPath ?u = Inr ''/a%20b/c''" "tame_escapes ''/a%20b/c''" "list_all tame_escapes [''..'', ''%41'', ''x/'']"
      "map (unesc encodePath) (joined [''/a%20b/c'', ''..'', ''%41'', ''x/'']) = [''a b'', ''A'', ''x'']"
      "str_HasPrefix ''/a%20b/c'' ''/''"
    by code_simp+
  with url_JoinPath_contained [of ?u "''/a%20b/c''" "[''..'', ''%41'', ''x/'']"] show ?thesis by auto
qed

text \<open>
  The condition: \<open>JoinPath\<close> cleans the escaped text, so that an escaped \<open>..\<close> passes and comes out of
  \<open>setPath\<close> as such; and an element with a broken escape leaves the path as it was, since the error of
  \<open>setPath\<close> is dropped.
\<close>

lemma url_JoinPath_encoded_dots:
  "url_JoinPath (new_URL\<lparr>Path := ''/a''\<rparr>) [''%2e%2e'', ''%2e%2e'', ''x''] =
     Inr (new_URL\<lparr>Path := ''/a/../../x'', RawPath := ''/a/%2e%2e/%2e%2e/x''\<rparr>)"
  "url_JoinPath (new_URL\<lparr>Path := ''/a/../b''\<rparr>) [''%zz''] = Inr (new_URL\<lparr>Path := ''/a/../b''\<rparr>)"
  by code_simp+

end
