(* ===== verification/Metadata.thy ===== *)
theory Metadata
  imports NetAddr "HOL-Library.AList"
begin

section \<open>Destination metadata and the domain cache\<close>

text \<open>
  Models \<open>protocol/metadata.go\<close>. A \<open>sync.Map\<close> is an association list. The order in which
  \<open>Range\<close> visits it is not specified, so it is the argument \<open>rng\<close>, a function that permutes the
  list. Each call of \<open>time.Now\<close> is an argument, in nanoseconds. The resolver that the embedding
  program installs, and the system resolver, are arguments too.
\<close>

datatype MetadataType =
  MetadataTypeIPv4 | MetadataTypeIPv6 | MetadataTypeDomain | MetadataTypeMsg | MetadataTypeInvalid

record Metadata =
  md_Type :: MetadataType
  md_Hostname :: string
  md_Port :: "16 word"
  md_IP :: netip_addr
  md_Cmd :: byte
  md_Cipher :: string
  md_IsClient :: bool

definition new_Metadata :: Metadata where
  "new_Metadata = \<lparr>md_Type = MetadataTypeIPv4, md_Hostname = [], md_Port = 0, md_IP = NoAddr, md_Cmd = 0,
     md_Cipher = [], md_IsClient = False\<rparr>"

definition ParseMetadata :: "string \<Rightarrow> go_error + Metadata" where
  "ParseMetadata tgt =
     (case net_SplitHostPort tgt of
        None \<Rightarrow> Inl (Err ''SplitHostPort: %w'')
      | Some (host, strPort) \<Rightarrow>
          (case ParseUint16 strPort of
             None \<Rightarrow> Inl (Err ''failed to parse port: %w'')
           | Some port \<Rightarrow>
               let (typ, ip) =
                 (case netip_ParseAddr host of
                    None \<Rightarrow> (MetadataTypeDomain, NoAddr)
                  | Some a \<Rightarrow> (if netip_Is4 a then MetadataTypeIPv4 else MetadataTypeIPv6, a)) in
               Inr (new_Metadata\<lparr>md_Type := typ, md_Hostname := host, md_Port := port, md_IP := ip\<rparr>)))"

definition md_AddrPort :: "('a) Metadata_scheme \<Rightarrow> go_error + addr_port" where
  "md_AddrPort m =
     (if md_Type m = MetadataTypeIPv4 \<or> md_Type m = MetadataTypeIPv6 then
        if netip_IsValid (md_IP m) then Inr (md_IP m, md_Port m)
        else case netip_ParseAddr (md_Hostname m) of
          None \<Rightarrow> Inl (Err ''ParseAddr'')
        | Some ip \<Rightarrow> Inr (ip, md_Port m)
      else Inl (Err ''bad metadata type: %v; should be ip''))"

subsection \<open>Resolving a peer-supplied domain\<close>

definition domainIPTTL :: int where "domainIPTTL = 60 * 10 ^ 9"

definition maxDomainIpCacheEntries :: nat where "maxDomainIpCacheEntries = 64"

record domainIPEntry =
  de_addr :: netip_addr
  expiresAt :: int

text \<open>The map holds values of any type.\<close>

datatype cached = Entry domainIPEntry | Other

type_synonym domain_cache = "(string \<times> cached) list"

definition resolveDatapathHost ::
    "(string \<Rightarrow> go_error + netip_addr) option \<Rightarrow> (string \<Rightarrow> go_error + netip_addr list) \<Rightarrow> string
     \<Rightarrow> go_error + netip_addr" where
  "resolveDatapathHost installed lookup host =
     (case installed of
        Some resolve \<Rightarrow> resolve host
      | None \<Rightarrow>
          sum_bind (lookup host) (\<lambda>addrs.
            case find netip_IsValid addrs of
              Some a \<Rightarrow> Inr (netip_Unmap a)
            | None \<Rightarrow> Inl (Err ''no address'')))"

definition loadDomainIP :: "int \<Rightarrow> domain_cache option \<Rightarrow> string \<Rightarrow> netip_addr option \<times> domain_cache option" where
  "loadDomainIP now cache host =
     (case cache of
        None \<Rightarrow> (None, None)
      | Some c \<Rightarrow>
          (case map_of c host of
             None \<Rightarrow> (None, Some c)
           | Some Other \<Rightarrow> (None, Some (AList.delete host c))
           | Some (Entry e) \<Rightarrow>
               if now > expiresAt e then (None, Some (AList.delete host c))
               else (Some (de_addr e), Some c)))"

definition domainIPCacheHasRoom :: "domain_cache \<Rightarrow> bool" where
  "domainIPCacheHasRoom c \<longleftrightarrow> min (length c) (maxDomainIpCacheEntries + 1) \<le> maxDomainIpCacheEntries"

text \<open>
  The scan of \<open>evictDomainIP\<close>: the first expired key, and the key closest to expiry with its time.
\<close>

definition evict_visit ::
    "int \<Rightarrow> string \<times> cached \<Rightarrow> string option \<times> (string \<times> int) option \<Rightarrow> string option \<times> (string \<times> int) option" where
  "evict_visit now kv st =
     (let (expired, oldest) = st;
          expire = (if expired = None then Some (fst kv) else expired, oldest) in
      case snd kv of
        Other \<Rightarrow> expire
      | Entry e \<Rightarrow>
          if now > expiresAt e then expire
          else if (case oldest of None \<Rightarrow> True | Some (_, t) \<Rightarrow> expiresAt e < t) then (expired, Some (fst kv, expiresAt e))
          else (expired, oldest))"

definition evictDomainIP :: "(domain_cache \<Rightarrow> domain_cache) \<Rightarrow> int \<Rightarrow> domain_cache \<Rightarrow> domain_cache" where
  "evictDomainIP rng now c =
     (case fold (evict_visit now) (rng c) (None, None) of
        (Some k, _) \<Rightarrow> AList.delete k c
      | (None, Some (k, _)) \<Rightarrow> AList.delete k c
      | (None, None) \<Rightarrow> c)"

definition storeDomainIP ::
    "(domain_cache \<Rightarrow> domain_cache) \<Rightarrow> int \<Rightarrow> int \<Rightarrow> domain_cache option \<Rightarrow> string \<Rightarrow> netip_addr
     \<Rightarrow> domain_cache option" where
  "storeDomainIP rng now now' cache host addr =
     (case cache of
        None \<Rightarrow> None
      | Some c \<Rightarrow>
          if map_of c host \<noteq> None then Some c
          else
            let c' = c @ [(host, Entry \<lparr>de_addr = addr, expiresAt = now + domainIPTTL\<rparr>)] in
            if domainIPCacheHasRoom c' then Some c' else Some (evictDomainIP rng now' c'))"

text \<open>
  \<open>DomainIpMapping\<close>: \<open>resolve\<close> is \<open>resolveDatapathHost\<close> within its timeout, and the times are those of the
  load, of the store and of the eviction.
\<close>

definition DomainIpMapping ::
    "(string \<Rightarrow> go_error + netip_addr) \<Rightarrow> (domain_cache \<Rightarrow> domain_cache) \<Rightarrow> int \<times> int \<times> int
     \<Rightarrow> ('a) Metadata_scheme \<Rightarrow> domain_cache option \<Rightarrow> (go_error + addr_port) \<times> domain_cache option" where
  "DomainIpMapping resolve rng ts m cache =
     (let (t_load, t_store, t_evict) = ts in
      if md_Type m \<noteq> MetadataTypeDomain then
        (sum_map_error (\<lambda>_. Err ''ReadFrom AddrPort: %w'') (md_AddrPort m), cache)
      else case loadDomainIP t_load cache (md_Hostname m) of
        (Some a, cache1) \<Rightarrow> (Inr (a, md_Port m), cache1)
      | (None, cache1) \<Rightarrow>
          (case resolve (md_Hostname m) of
             Inl _ \<Rightarrow> (Inl (Err ''datapath domain resolution failed: %s: %w''), cache1)
           | Inr a \<Rightarrow> (Inr (a, md_Port m), storeDomainIP rng t_store t_evict cache1 (md_Hostname m) a)))"

subsection \<open>Parsed metadata\<close>

text \<open>The type of a parsed destination says what its address field holds.\<close>

fun md_typed :: "('a) Metadata_scheme \<Rightarrow> bool" where
  "md_typed m =
     (case md_Type m of
        MetadataTypeIPv4 \<Rightarrow> \<exists>b. md_IP m = Addr4 b \<and> length b = 4
      | MetadataTypeIPv6 \<Rightarrow> \<exists>b z. md_IP m = Addr6 b z \<and> length b = 16
      | MetadataTypeDomain \<Rightarrow> md_IP m = NoAddr \<and> netip_ParseAddr (md_Hostname m) = None
      | _ \<Rightarrow> False)"

lemma ParseMetadata_cases:
  assumes "ParseMetadata s = Inr m"
  obtains (addr) a where "netip_ParseAddr (md_Hostname m) = Some a" "md_IP m = a" "netip_wf a" "a \<noteq> NoAddr"
      "md_Type m = (if netip_Is4 a then MetadataTypeIPv4 else MetadataTypeIPv6)"
    | (domain) "netip_ParseAddr (md_Hostname m) = None" "md_IP m = NoAddr" "md_Type m = MetadataTypeDomain"
  using assms netip_ParseAddr_wf
  by (force simp: ParseMetadata_def split: option.splits prod.splits if_splits)

lemma ParseMetadata_typed: "ParseMetadata s = Inr m \<Longrightarrow> md_typed m"
proof (erule ParseMetadata_cases)
  fix a
  assume "md_IP m = a" "netip_wf a" "a \<noteq> NoAddr" "md_Type m = (if netip_Is4 a then MetadataTypeIPv4 else MetadataTypeIPv6)"
  then show "md_typed m" by (cases a) auto
qed auto

lemma ParseMetadata_Join:
  assumes "host_text h"
  shows "\<exists>m. ParseMetadata (net_JoinHostPort h (Itoa (unat p))) = Inr m \<and> md_Hostname m = h \<and> md_Port m = p"
  using SplitHostPort_Join [OF assms port_text_Itoa]
  by (simp add: ParseMetadata_def split: option.splits prod.splits)

subsection \<open>Eviction\<close>

definition live :: "int \<Rightarrow> cached \<Rightarrow> int option" where
  "live now v = (case v of Other \<Rightarrow> None | Entry e \<Rightarrow> if now > expiresAt e then None else Some (expiresAt e))"

definition scan_inv :: "int \<Rightarrow> domain_cache \<Rightarrow> string option \<times> (string \<times> int) option \<Rightarrow> bool" where
  "scan_inv now seen st \<longleftrightarrow>
     (case fst st of None \<Rightarrow> \<forall>kv \<in> set seen. live now (snd kv) \<noteq> None
      | Some k \<Rightarrow> \<exists>v. (k, v) \<in> set seen \<and> live now v = None) \<and>
     (case snd st of None \<Rightarrow> \<forall>kv \<in> set seen. live now (snd kv) = None
      | Some (k, t) \<Rightarrow> (\<exists>v. (k, v) \<in> set seen \<and> live now v = Some t) \<and>
          (\<forall>kv \<in> set seen. \<forall>t'. live now (snd kv) = Some t' \<longrightarrow> t \<le> t'))"

lemma evict_visit_inv:
  assumes "scan_inv now seen st"
  shows "scan_inv now (seen @ [kv]) (evict_visit now kv st)"
proof -
  obtain k v ex old where kv: "kv = (k, v)" and st: "st = (ex, old)" by (cases kv, cases st)
  show ?thesis
  proof (cases "live now v")
    case None
    then have "evict_visit now kv st = (if ex = None then Some k else ex, old)"
      by (auto simp: evict_visit_def live_def kv st split: cached.splits if_splits)
    then show ?thesis using assms None by (fastforce simp: scan_inv_def kv st split: option.splits)
  next
    case (Some t)
    then have "evict_visit now kv st =
        (ex, if (case old of None \<Rightarrow> True | Some (_, t') \<Rightarrow> t < t') then Some (k, t) else old)"
      by (auto simp: evict_visit_def live_def kv st split: cached.splits if_splits)
    then show ?thesis using assms Some by (fastforce simp: scan_inv_def kv st split: option.splits)
  qed
qed

lemma evict_scan_inv: "scan_inv now seen st \<Longrightarrow> scan_inv now (seen @ c) (fold (evict_visit now) c st)"
proof (induction c arbitrary: seen st)
  case (Cons kv c)
  from Cons.IH [OF evict_visit_inv [OF Cons.prems, of kv]] show ?case by simp
qed simp

text \<open>What is evicted: an expired entry, or, when there is none, one that expires first.\<close>

lemma evictDomainIP_victim:
  assumes "mset (rng c) = mset c" "c \<noteq> []"
  obtains k v where "(k, v) \<in> set c" "evictDomainIP rng now c = AList.delete k c"
    "live now v = None \<or> (\<exists>t. live now v = Some t \<and> (\<forall>kv \<in> set c. \<exists>t'. live now (snd kv) = Some t' \<and> t \<le> t'))"
proof -
  obtain ex old where f: "fold (evict_visit now) (rng c) (None, None) = (ex, old)" by fastforce
  have s: "set (rng c) = set c" using assms(1) by (rule mset_eq_setD)
  have "scan_inv now [] (None, None)" by (simp add: scan_inv_def)
  from evict_scan_inv [OF this, of "rng c"] have inv: "scan_inv now (rng c) (ex, old)" by (simp add: f)
  show thesis
  proof (cases ex)
    case (Some k)
    then show thesis using that inv s f by (fastforce simp: scan_inv_def evictDomainIP_def)
  next
    case None
    have "old \<noteq> None"
    proof
      assume "old = None"
      with inv None s have "\<forall>kv \<in> set c. live now (snd kv) \<noteq> None \<and> live now (snd kv) = None"
        by (auto simp: scan_inv_def)
      with assms(2) show False by (cases c) auto
    qed
    then obtain k t where o: "old = Some (k, t)" by auto
    with inv None s obtain v where v: "(k, v) \<in> set c" "live now v = Some t"
        "\<forall>kv \<in> set c. live now (snd kv) \<noteq> None" "\<forall>kv \<in> set c. \<forall>t'. live now (snd kv) = Some t' \<longrightarrow> t \<le> t'"
      by (auto simp: scan_inv_def)
    then have "\<forall>kv \<in> set c. \<exists>t'. live now (snd kv) = Some t' \<and> t \<le> t'" by blast
    with v that [of k v] show thesis using f None o by (auto simp: evictDomainIP_def)
  qed
qed

lemma evictDomainIP_deletes:
  assumes "mset (rng c) = mset c" "c \<noteq> []"
  shows "\<exists>k v. (k, v) \<in> set c \<and> evictDomainIP rng now c = AList.delete k c"
  using assms by (rule evictDomainIP_victim) iprover

subsection \<open>Every reachable cache\<close>

text \<open>
  \<open>domain_run hist now c\<close>: the cache \<open>c\<close> of a connection after some calls of \<open>DomainIpMapping\<close>, the last
  before \<open>now\<close>; \<open>hist\<close> holds the answers of the resolver with their times. The resolver and the order of
  \<open>Range\<close> may differ from call to call.
\<close>

definition asked :: "int \<times> int \<times> int \<Rightarrow> (string \<Rightarrow> go_error + netip_addr) \<Rightarrow> Metadata \<Rightarrow> domain_cache \<Rightarrow> (int \<times> string \<times> netip_addr) list" where
  "asked ts resolve m c =
     (if md_Type m = MetadataTypeDomain \<and> fst (loadDomainIP (fst ts) (Some c) (md_Hostname m)) = None
      then case resolve (md_Hostname m) of Inl _ \<Rightarrow> [] | Inr a \<Rightarrow> [(fst (snd ts), md_Hostname m, a)]
      else [])"

inductive domain_run :: "(int \<times> string \<times> netip_addr) list \<Rightarrow> int \<Rightarrow> domain_cache \<Rightarrow> bool" where
  start: "domain_run [] now []"
| call: "domain_run hist now c \<Longrightarrow> now \<le> t0 \<Longrightarrow> t0 \<le> t1 \<Longrightarrow> t1 \<le> t2 \<Longrightarrow> (\<And>x. mset (rng x) = mset x) \<Longrightarrow>
    DomainIpMapping resolve rng (t0, t1, t2) m (Some c) = (r, Some c') \<Longrightarrow>
    domain_run (hist @ asked (t0, t1, t2) resolve m c) t2 c'"

definition cache_inv :: "(int \<times> string \<times> netip_addr) set \<Rightarrow> int \<Rightarrow> domain_cache \<Rightarrow> bool" where
  "cache_inv hist now c \<longleftrightarrow>
     distinct (map fst c) \<and> length c \<le> maxDomainIpCacheEntries \<and>
     (\<forall>(k, v) \<in> set c. \<exists>a t. v = Entry \<lparr>de_addr = a, expiresAt = t + domainIPTTL\<rparr> \<and> (t, k, a) \<in> hist \<and> t \<le> now)"

lemma delete_subset: "set (AList.delete k c) \<subseteq> set c"
  by (auto simp: AList.delete_eq)

lemma ball_subset: "A \<subseteq> B \<Longrightarrow> \<forall>x \<in> B. P x \<Longrightarrow> \<forall>x \<in> A. P x"
  by blast

lemma delete_distinct: "distinct (map fst c) \<Longrightarrow> distinct (map fst (AList.delete k c))"
  by (rule distinct_delete)

lemma delete_length: "length (AList.delete k c) \<le> length c"
  by (simp add: AList.delete_eq)

lemma delete_length_less:
  assumes "(k, v) \<in> set c"
  shows "length (AList.delete k c) < length c"
  unfolding AList.delete_eq using assms by (intro length_filter_less [of "(k, v)"]) simp_all

lemma cache_inv_mono: "cache_inv h now c \<Longrightarrow> h \<subseteq> h' \<Longrightarrow> now \<le> now' \<Longrightarrow> cache_inv h' now' c"
  unfolding cache_inv_def by fastforce

lemma cache_inv_delete: "cache_inv h now c \<Longrightarrow> cache_inv h now (AList.delete k c)"
  unfolding cache_inv_def using delete_subset [of k c] delete_distinct [of c k] delete_length [of k c] by fastforce

lemma loadDomainIP_inv:
  assumes "cache_inv h now c" "loadDomainIP t (Some c) host = (r, c1)"
  obtains c' where "c1 = Some c'" "cache_inv h now c'" "r = None \<Longrightarrow> map_of c' host = None"
    "\<And>a. r = Some a \<Longrightarrow> c' = c \<and> (\<exists>t0. (t0, host, a) \<in> h \<and> t \<le> t0 + domainIPTTL)"
proof (cases "map_of c host")
  case None
  then show thesis using that [of c] assms by (simp add: loadDomainIP_def)
next
  case (Some v)
  then have "(host, v) \<in> set c" by (rule map_of_SomeD)
  with assms(1) obtain a t0 where v: "v = Entry \<lparr>de_addr = a, expiresAt = t0 + domainIPTTL\<rparr>" "(t0, host, a) \<in> h"
    by (fastforce simp: cache_inv_def)
  show thesis
  proof (cases "t > t0 + domainIPTTL")
    case True
    then show thesis
      using that [of "AList.delete host c"] assms Some v cache_inv_delete [OF assms(1)]
      by (simp add: loadDomainIP_def delete_conv')
  next
    case False
    then have "\<exists>t0. (t0, host, a) \<in> h \<and> t \<le> t0 + domainIPTTL" using v(2) by (intro exI [of _ t0]) simp
    with False show thesis using that [of c] assms Some v(1) by (auto simp: loadDomainIP_def)
  qed
qed

lemma storeDomainIP_inv:
  assumes "cache_inv h now c" "map_of c host = None" "now \<le> t1" "t1 \<le> t2" "\<And>x. mset (rng x) = mset x"
  shows "\<exists>c'. storeDomainIP rng t1 t2 (Some c) host a = Some c' \<and> cache_inv (insert (t1, host, a) h) t2 c'"
proof -
  let ?e = "(host, Entry \<lparr>de_addr = a, expiresAt = t1 + domainIPTTL\<rparr>)"
  let ?c = "c @ [?e]"
  have d: "distinct (map fst ?c)" using assms(1,2) by (auto simp: cache_inv_def map_of_eq_None_iff)
  have e: "\<forall>(k, v) \<in> set ?c. \<exists>a' t. v = Entry \<lparr>de_addr = a', expiresAt = t + domainIPTTL\<rparr> \<and>
      (t, k, a') \<in> insert (t1, host, a) h \<and> t \<le> t2"
    using assms(1,3,4) by (fastforce simp: cache_inv_def)
  show ?thesis
  proof (cases "domainIPCacheHasRoom ?c")
    case True
    then have "length ?c \<le> maxDomainIpCacheEntries" by (auto simp: domainIPCacheHasRoom_def)
    then show ?thesis using True d e assms(2) by (auto simp: storeDomainIP_def cache_inv_def)
  next
    case False
    obtain k v where k: "(k, v) \<in> set ?c" "evictDomainIP rng t2 ?c = AList.delete k ?c"
      using evictDomainIP_deletes [where rng = rng and c = ?c and now = t2, OF assms(5)] by auto
    have "length (AList.delete k ?c) < length ?c" using k(1) by (rule delete_length_less)
    moreover have "length ?c \<le> maxDomainIpCacheEntries + 1" using assms(1) by (simp add: cache_inv_def)
    ultimately have "length (AList.delete k ?c) \<le> maxDomainIpCacheEntries" by simp
    then have "cache_inv (insert (t1, host, a) h) t2 (AList.delete k ?c)"
      using ball_subset [OF delete_subset e, of k] delete_distinct [OF d, of k] by (simp only: cache_inv_def simp_thms)
    then show ?thesis using False k(2) assms(2) by (simp add: storeDomainIP_def Let_def)
  qed
qed

lemma DomainIpMapping_inv:
  assumes "cache_inv h now c" "now \<le> t0" "t0 \<le> t1" "t1 \<le> t2" "\<And>x. mset (rng x) = mset x"
    and call: "DomainIpMapping resolve rng (t0, t1, t2) m (Some c) = (r, c1)"
  shows "\<exists>c'. c1 = Some c' \<and> cache_inv (h \<union> set (asked (t0, t1, t2) resolve m c)) t2 c'"
proof (cases "md_Type m = MetadataTypeDomain")
  case False
  then show ?thesis using call cache_inv_mono [OF assms(1)] assms(2-4) by (auto simp: DomainIpMapping_def)
next
  case True
  obtain r1 cl where l: "loadDomainIP t0 (Some c) (md_Hostname m) = (r1, cl)" by fastforce
  obtain c' where c': "cl = Some c'" "cache_inv h now c'" "r1 = None \<Longrightarrow> map_of c' (md_Hostname m) = None"
    using loadDomainIP_inv [OF assms(1) l] by metis
  have t: "now \<le> t1" "now \<le> t2" using assms(2-4) by simp_all
  show ?thesis
  proof (cases r1)
    case (Some a)
    then show ?thesis using call True l c' cache_inv_mono [OF c'(2) _ t(2)] by (auto simp: DomainIpMapping_def)
  next
    case None
    show ?thesis
    proof (cases "resolve (md_Hostname m)")
      case (Inl e)
      then show ?thesis using call True l None c' cache_inv_mono [OF c'(2) _ t(2)] by (auto simp: DomainIpMapping_def)
    next
      case (Inr a)
      then have "asked (t0, t1, t2) resolve m c = [(t1, md_Hostname m, a)]" using True l None by (simp add: asked_def)
      moreover have "c1 = storeDomainIP rng t1 t2 (Some c') (md_Hostname m) a"
        using call True l None c'(1) Inr by (simp add: DomainIpMapping_def)
      ultimately show ?thesis
        using storeDomainIP_inv [OF c'(2) c'(3) [OF None] t(1) assms(4,5), where a = a] by simp
    qed
  qed
qed

lemma domain_run_inv: "domain_run hist now c \<Longrightarrow> cache_inv (set hist) now c"
proof (induction rule: domain_run.induct)
  case start
  then show ?case by (simp add: cache_inv_def)
next
  case (call hist now c t0 t1 t2 rng resolve m r c')
  from DomainIpMapping_inv [OF call.IH call.hyps(2-4) _ call.hyps(6)] call.hyps(5) show ?case by simp
qed

subsection \<open>A resolver that does not change its mind\<close>

definition cache_agrees :: "(string \<Rightarrow> netip_addr) \<Rightarrow> domain_cache \<Rightarrow> bool" where
  "cache_agrees ans c \<longleftrightarrow> (\<forall>(k, v) \<in> set c. \<exists>t. v = Entry \<lparr>de_addr = ans k, expiresAt = t\<rparr>)"

lemma evict_subset: "set (evictDomainIP rng now c) \<subseteq> set c"
  by (auto simp: evictDomainIP_def split: prod.splits option.splits dest: subsetD [OF delete_subset])

lemma cache_agrees_subset: "cache_agrees ans c \<Longrightarrow> set c' \<subseteq> set c \<Longrightarrow> cache_agrees ans c'"
  unfolding cache_agrees_def by blast

lemma loadDomainIP_agrees:
  assumes "cache_agrees ans c"
  shows "\<exists>r c'. loadDomainIP t (Some c) host = (r, Some c') \<and> (r = None \<or> r = Some (ans host)) \<and> cache_agrees ans c'"
proof (cases "map_of c host")
  case None
  then show ?thesis using assms by (simp add: loadDomainIP_def)
next
  case (Some v)
  then have "(host, v) \<in> set c" by (rule map_of_SomeD)
  then obtain s where "v = Entry \<lparr>de_addr = ans host, expiresAt = s\<rparr>" using assms by (auto simp: cache_agrees_def)
  then show ?thesis
    using Some assms cache_agrees_subset [OF assms delete_subset, of host] by (simp add: loadDomainIP_def)
qed

lemma storeDomainIP_agrees:
  assumes "cache_agrees ans c"
  shows "\<exists>c'. storeDomainIP rng t t' (Some c) host (ans host) = Some c' \<and> cache_agrees ans c'"
proof -
  let ?c = "c @ [(host, Entry \<lparr>de_addr = ans host, expiresAt = t + domainIPTTL\<rparr>)]"
  have a: "cache_agrees ans ?c" using assms by (auto simp: cache_agrees_def)
  then show ?thesis
    using assms cache_agrees_subset [OF a evict_subset [of rng t' ?c]] by (simp add: storeDomainIP_def Let_def)
qed

lemma DomainIpMapping_agrees:
  assumes "cache_agrees ans c"
  shows "\<exists>c'. DomainIpMapping (\<lambda>h. Inr (ans h)) rng ts m (Some c) =
    (if md_Type m = MetadataTypeDomain then Inr (ans (md_Hostname m), md_Port m)
     else sum_map_error (\<lambda>_. Err ''ReadFrom AddrPort: %w'') (md_AddrPort m), Some c') \<and> cache_agrees ans c'"
proof -
  obtain t0 t1 t2 where ts: "ts = (t0, t1, t2)" by (cases ts)
  obtain r c1 where l: "loadDomainIP t0 (Some c) (md_Hostname m) = (r, Some c1)"
      "r = None \<or> r = Some (ans (md_Hostname m))" "cache_agrees ans c1"
    using loadDomainIP_agrees [OF assms] by blast
  show ?thesis
    using storeDomainIP_agrees [OF l(3), of rng t1 t2 "md_Hostname m"] l assms by (auto simp: DomainIpMapping_def ts)
qed

text \<open>
  C11: A connection's domain cache, after any sequence of datagrams, with any resolver answers and with
  whatever order the map is traversed in, holds at most 64 entries, one per host; and the address given to
  a datagram from a domain is one the resolver returned for that very domain, just now or at most 60 seconds before.
\<close>

theorem domain_cache_fresh:
  assumes "domain_run hist now c" "now \<le> t0" "md_Type m = MetadataTypeDomain"
    "DomainIpMapping resolve rng (t0, t1, t2) m (Some c) = (Inr (a, port), c')"
  shows "length c \<le> 64 \<and> distinct (map fst c) \<and> port = md_Port m \<and>
    (resolve (md_Hostname m) = Inr a \<or> (\<exists>t. (t, md_Hostname m, a) \<in> set hist \<and> t0 \<le> t + 60 * 10 ^ 9))"
proof -
  have inv: "cache_inv (set hist) now c" using assms(1) by (rule domain_run_inv)
  obtain r1 cl where l: "loadDomainIP t0 (Some c) (md_Hostname m) = (r1, cl)" by fastforce
  have "\<And>a. r1 = Some a \<Longrightarrow> \<exists>t. (t, md_Hostname m, a) \<in> set hist \<and> t0 \<le> t + domainIPTTL"
    using loadDomainIP_inv [OF inv l] by metis
  then have "port = md_Port m \<and>
    (resolve (md_Hostname m) = Inr a \<or> (\<exists>t. (t, md_Hostname m, a) \<in> set hist \<and> t0 \<le> t + domainIPTTL))"
    using assms(3,4) l by (auto simp: DomainIpMapping_def split: option.splits sum.splits)
  then show ?thesis using inv by (simp add: cache_inv_def maxDomainIpCacheEntries_def domainIPTTL_def)
qed

abbreviation dns_meta :: Metadata where
  "dns_meta \<equiv> new_Metadata\<lparr>md_Type := MetadataTypeDomain, md_Hostname := ''a'', md_Port := 53\<rparr>"

abbreviation dns_entry :: "string \<times> cached" where
  "dns_entry \<equiv> (''a'', Entry \<lparr>de_addr = Addr4 [1, 2, 3, 4], expiresAt = 60000000000\<rparr>)"

lemma domain_run_example: "domain_run [(0, ''a'', Addr4 [1, 2, 3, 4])] 0 [dns_entry]"
  using domain_run.call [OF domain_run.start [of 0], where ?t0.0 = 0 and ?t1.0 = 0 and ?t2.0 = 0 and rng = id
      and resolve = "\<lambda>_. Inr (Addr4 [1, 2, 3, 4])" and m = dns_meta]
  by (simp add: DomainIpMapping_def loadDomainIP_def storeDomainIP_def domainIPCacheHasRoom_def asked_def
      maxDomainIpCacheEntries_def domainIPTTL_def)

theorem domain_cache_fresh_witness:
  "domain_run [(0, ''a'', Addr4 [1, 2, 3, 4])] 0 [dns_entry] \<and>
   DomainIpMapping (\<lambda>_. Inl EOF) id (5, 5, 5) dns_meta (Some [dns_entry]) = (Inr (Addr4 [1, 2, 3, 4], 53), Some [dns_entry]) \<and>
   (\<exists>t. (t, ''a'', Addr4 [1, 2, 3, 4]) \<in> set [(0, ''a'', Addr4 [1, 2, 3, 4])] \<and> (5::int) \<le> t + 60 * 10 ^ 9)"
proof -
  have call: "DomainIpMapping (\<lambda>_. Inl EOF) id (5, 5, 5) dns_meta (Some [dns_entry]) =
      (Inr (Addr4 [1, 2, 3, 4], 53), Some [dns_entry])"
    by (simp add: DomainIpMapping_def loadDomainIP_def)
  with domain_cache_fresh [OF domain_run_example _ _ call] show ?thesis
    using domain_run_example by (auto simp: new_Metadata_def)
qed

subsection \<open>How long an answer is kept\<close>

text \<open>
  The calls that follow a given cache, with the domains they ask for. \<open>answer_kept\<close>: the cache holds the
  answer \<open>e\<close> for \<open>host\<close>, and every other entry is for one of the domains \<open>H\<close> or expires before \<open>e\<close>.
\<close>

inductive domain_later :: "int \<Rightarrow> domain_cache \<Rightarrow> string list \<Rightarrow> int \<Rightarrow> domain_cache \<Rightarrow> bool" for now0 c0 where
  stop: "domain_later now0 c0 [] now0 c0"
| call: "domain_later now0 c0 hs now c \<Longrightarrow> now \<le> t0 \<Longrightarrow> t0 \<le> t1 \<Longrightarrow> t1 \<le> t2 \<Longrightarrow> (\<And>x. mset (rng x) = mset x) \<Longrightarrow>
    DomainIpMapping resolve rng (t0, t1, t2) (m :: Metadata) (Some c) = (r, Some c') \<Longrightarrow>
    domain_later now0 c0 (hs @ (if md_Type m = MetadataTypeDomain then [md_Hostname m] else [])) t2 c'"

definition answer_in :: "string \<Rightarrow> domainIPEntry \<Rightarrow> string set \<Rightarrow> domain_cache \<Rightarrow> bool" where
  "answer_in host e H c \<longleftrightarrow> distinct (map fst c) \<and> (host, Entry e) \<in> set c \<and>
     (\<forall>(k, v) \<in> set c. k = host \<or> k \<in> H \<or> (\<exists>e'. v = Entry e' \<and> expiresAt e' < expiresAt e))"

definition answer_kept :: "string \<Rightarrow> domainIPEntry \<Rightarrow> string set \<Rightarrow> domain_cache \<Rightarrow> bool" where
  "answer_kept host e H c \<longleftrightarrow> answer_in host e H c \<and> length c \<le> maxDomainIpCacheEntries"

lemma answer_in_delete: "answer_in host e H c \<Longrightarrow> k \<noteq> host \<Longrightarrow> answer_in host e H (AList.delete k c)"
  using delete_subset [of k c] delete_distinct [of c k]
  by (fastforce simp: answer_in_def AList.delete_eq)

lemma answer_in_mono: "answer_in host e H c \<Longrightarrow> H \<subseteq> H' \<Longrightarrow> answer_in host e H' c"
  unfolding answer_in_def by blast

lemma answer_in_load:
  assumes "answer_in host e H c" "t \<le> expiresAt e"
  shows "loadDomainIP t (Some c) host = (Some (de_addr e), Some c)"
proof -
  have "map_of c host = Some (Entry e)" using assms(1) unfolding answer_in_def by (intro map_of_is_SomeI) simp_all
  then show ?thesis using assms(2) by (simp add: loadDomainIP_def)
qed

lemma answer_in_load_other:
  assumes "answer_in host e H c" "h \<noteq> host"
  obtains r c1 where "loadDomainIP t (Some c) h = (r, Some c1)" "answer_in host e H c1" "length c1 \<le> length c"
    "r = None \<Longrightarrow> h \<notin> fst ` set c1"
proof (cases "map_of c h")
  case None
  then have "loadDomainIP t (Some c) h = (None, Some c)" "h \<notin> fst ` set c" by (simp_all add: loadDomainIP_def flip: map_of_eq_None_iff)
  then show thesis using that [of None c] assms(1) by simp
next
  case (Some v)
  note found = that
  have gone: thesis if g: "loadDomainIP t (Some c) h = (None, Some (AList.delete h c))"
    by (rule found [OF g]) (use answer_in_delete [OF assms] delete_length [of h c] in \<open>auto simp: AList.delete_eq\<close>)
  show thesis
  proof (cases v)
    case (Entry x)
    show thesis
    proof (cases "t > expiresAt x")
      case False
      then show thesis using that [of "Some (de_addr x)" c] assms(1) Some Entry by (simp add: loadDomainIP_def)
    qed (use gone Some Entry in \<open>simp add: loadDomainIP_def\<close>)
  qed (use gone Some in \<open>simp add: loadDomainIP_def\<close>)
qed

text \<open>
  An eviction spares the answer as long as fewer domains than the cache has room for were asked for since:
  some entry is then older.
\<close>

lemma evict_spares:
  assumes kept: "answer_in host e H c" and len: "maxDomainIpCacheEntries < length c"
    and t: "t \<le> expiresAt e" and H: "finite H" "card (H - {host}) < maxDomainIpCacheEntries"
    and perm: "\<And>x. mset (rng x) = mset x"
  shows "\<exists>k. k \<noteq> host \<and> k \<in> fst ` set c \<and> evictDomainIP rng t c = AList.delete k c"
proof -
  have "c \<noteq> []" using len by auto
  then obtain k v where k: "(k, v) \<in> set c" "evictDomainIP rng t c = AList.delete k c"
    "live t v = None \<or> (\<exists>s. live t v = Some s \<and> (\<forall>kv \<in> set c. \<exists>s'. live t (snd kv) = Some s' \<and> s \<le> s'))"
    using evictDomainIP_victim [where rng = rng and c = c and now = t, OF perm] by metis
  have d: "distinct (map fst c)" "(host, Entry e) \<in> set c" using kept by (simp_all add: answer_in_def)
  have "k \<noteq> host"
  proof
    assume "k = host"
    then have "v = Entry e" using d k(1) by (metis eq_key_imp_eq_value)
    then have young: "\<exists>s'. live t v' = Some s' \<and> expiresAt e \<le> s'" if "(k', v') \<in> set c" for k' v'
      using k(3) t that by (force simp: live_def)
    have "fst ` set c - {host} \<subseteq> H - {host}"
    proof
      fix x
      assume x: "x \<in> fst ` set c - {host}"
      then obtain v' where v': "(x, v') \<in> set c" by auto
      have "\<not> (\<exists>e'. v' = Entry e' \<and> expiresAt e' < expiresAt e)" using young [OF v'] by (auto simp: live_def split: if_splits)
      then show "x \<in> H - {host}" using kept v' x by (fastforce simp: answer_in_def)
    qed
    then have "card (fst ` set c - {host}) \<le> card (H - {host})" using H(1) by (intro card_mono) simp_all
    moreover have "card (fst ` set c) = length c" using d(1) distinct_card [of "map fst c"] by simp
    moreover have "host \<in> fst ` set c" using d(2) by force
    ultimately show False using H(2) len by simp
  qed
  with k show ?thesis by force
qed

lemma store_keeps:
  assumes "answer_in host e H (c @ [(h, Entry \<lparr>de_addr = a, expiresAt = t1 + domainIPTTL\<rparr>)])" "length c \<le> maxDomainIpCacheEntries"
    and "t2 \<le> expiresAt e" "finite H" "card (H - {host}) < maxDomainIpCacheEntries" "\<And>x. mset (rng x) = mset x"
  shows "\<exists>c'. storeDomainIP rng t1 t2 (Some c) h a = Some c' \<and> answer_kept host e H c'"
proof -
  let ?c = "c @ [(h, Entry \<lparr>de_addr = a, expiresAt = t1 + domainIPTTL\<rparr>)]"
  have "map_of c h = None" using assms(1) by (auto simp: answer_in_def map_of_eq_None_iff)
  then have st: "storeDomainIP rng t1 t2 (Some c) h a =
      Some (if domainIPCacheHasRoom ?c then ?c else evictDomainIP rng t2 ?c)" by (simp add: storeDomainIP_def Let_def)
  show ?thesis
  proof (cases "domainIPCacheHasRoom ?c")
    case True
    then show ?thesis using st assms(1) by (auto simp: answer_kept_def domainIPCacheHasRoom_def)
  next
    case False
    then have "maxDomainIpCacheEntries < length ?c" by (auto simp: domainIPCacheHasRoom_def)
    then obtain k v where k: "k \<noteq> host" "(k, v) \<in> set ?c" "evictDomainIP rng t2 ?c = AList.delete k ?c"
      using evict_spares [OF assms(1) _ assms(3-5), of rng] assms(6) by fastforce
    have "length (AList.delete k ?c) \<le> maxDomainIpCacheEntries" using delete_length_less [OF k(2)] assms(2) by simp
    then show ?thesis using False st k answer_in_delete [OF assms(1) k(1)] by (simp add: answer_kept_def)
  qed
qed

lemma DomainIpMapping_keeps:
  assumes kept: "answer_kept host e H c" and t: "t0 \<le> t1" "t1 \<le> t2" "t2 \<le> expiresAt e"
    and H': "H' = H \<union> (if md_Type m = MetadataTypeDomain then {md_Hostname m} else {})" "finite H'"
      "card (H' - {host}) < maxDomainIpCacheEntries"
    and perm: "\<And>x. mset (rng x) = mset x" and call: "DomainIpMapping resolve rng (t0, t1, t2) m (Some c) = (r, Some c')"
  shows "answer_kept host e H' c'"
proof -
  let ?h = "md_Hostname m"
  have in_c: "answer_in host e H' c" and len: "length c \<le> maxDomainIpCacheEntries"
    using kept answer_in_mono [of host e H c H'] H'(1) by (simp_all add: answer_kept_def)
  show ?thesis
  proof (cases "md_Type m = MetadataTypeDomain \<and> ?h \<noteq> host")
    case False
    then have "c' = c" using call answer_in_load [OF in_c, of t0] t by (auto simp: DomainIpMapping_def split: if_splits)
    then show ?thesis using in_c len by (simp add: answer_kept_def)
  next
    case True
    obtain r1 c1 where l: "loadDomainIP t0 (Some c) ?h = (r1, Some c1)" "answer_in host e H' c1" "length c1 \<le> length c"
        "r1 = None \<Longrightarrow> ?h \<notin> fst ` set c1"
      using answer_in_load_other [OF in_c, of ?h t0] True by metis
    show ?thesis
    proof (cases "r1 = None \<and> (\<exists>a. resolve ?h = Inr a)")
      case False
      then have "c' = c1" using call True l(1) by (auto simp: DomainIpMapping_def split: option.splits sum.splits)
      then show ?thesis using l(2,3) len by (simp add: answer_kept_def)
    next
      case miss: True
      then obtain a where a: "resolve ?h = Inr a" by blast
      have "answer_in host e H' (c1 @ [(?h, Entry \<lparr>de_addr = a, expiresAt = t1 + domainIPTTL\<rparr>)])"
        using l(2,4) miss True H'(1) by (auto simp: answer_in_def)
      from store_keeps [OF this _ t(3) H'(2,3) perm] l(3) len call True miss l(1) a show ?thesis
        by (auto simp: DomainIpMapping_def)
    qed
  qed
qed

lemma domain_later_keeps:
  assumes "domain_later now0 c0 hs now c" "answer_kept host e {} c0" "card (set hs - {host}) < maxDomainIpCacheEntries"
    "now \<le> expiresAt e"
  shows "answer_kept host e (set hs) c"
  using assms
proof (induction rule: domain_later.induct)
  case (call hs now c t0 t1 t2 rng resolve m r c')
  let ?d = "if md_Type m = MetadataTypeDomain then [md_Hostname m] else []"
  have "card (set hs - {host}) \<le> card (set (hs @ ?d) - {host})" by (intro card_mono) auto
  then have "answer_kept host e (set hs) c" using call by simp
  then show ?case
    by (rule DomainIpMapping_keeps [OF _ call.hyps(3,4) call.prems(3) _ _ call.prems(2) call.hyps(5,6)]) auto
qed simp

lemma domain_later_time: "domain_later now0 c0 hs now c \<Longrightarrow> now0 \<le> now"
  by (induction rule: domain_later.induct) auto

text \<open>
  C25: An answer is kept. Take a connection's cache, a clock that has moved since its last call, and a domain whose
  lookup misses and is then resolved. Whatever calls follow, in whatever order the map is traversed, as long as they
  are for fewer than 64 other domains, a datagram from the domain is mapped to the answer for 60 seconds without
  asking the resolver. Past 64 other domains the eviction may remove the answer, and so it may when other answers
  were stored at the very same time.
\<close>

theorem domain_cache_hit:
  assumes "domain_run hist now c" "now \<le> t0" "t0 \<le> t1" "t1 \<le> t2" "now < t1"
    and perm: "\<And>x. mset (rng x) = mset x"
    and miss: "md_Type m = MetadataTypeDomain" "fst (loadDomainIP t0 (Some c) (md_Hostname m)) = None"
    and first: "resolve (md_Hostname m) = Inr a" "DomainIpMapping resolve rng (t0, t1, t2) m (Some c) = (r, Some c1)"
    and later: "domain_later t2 c1 hs now' c2" "card (set hs - {md_Hostname m}) < 64" "now' \<le> t" "t \<le> t1 + 60 * 10 ^ 9"
    and m': "md_Hostname m' = md_Hostname m" "md_Type m' = MetadataTypeDomain"
  shows "r = Inr (a, md_Port m) \<and>
    DomainIpMapping resolve' rng' (t, t', t'') m' (Some c2) = (Inr (a, md_Port m'), Some c2)"
proof -
  let ?h = "md_Hostname m" and ?e = "\<lparr>de_addr = a, expiresAt = t1 + domainIPTTL\<rparr>"
  have exp: "t \<le> expiresAt ?e" "now' \<le> expiresAt ?e" "t2 \<le> expiresAt ?e" 
    using later(3,4) domain_later_time [OF later(1)] by (simp_all add: domainIPTTL_def)
  have inv: "cache_inv (set hist) now c" using assms(1) by (rule domain_run_inv)
  obtain cl where l: "loadDomainIP t0 (Some c) ?h = (None, cl)" using miss(2) by (cases "loadDomainIP t0 (Some c) ?h") auto
  obtain c0 where c0: "cl = Some c0" "cache_inv (set hist) now c0" "map_of c0 ?h = None"
    using loadDomainIP_inv [OF inv l] by metis
  have len: "length c0 \<le> maxDomainIpCacheEntries" using c0(2) by (simp add: cache_inv_def)
  have "\<exists>e'. v = Entry e' \<and> expiresAt e' < expiresAt ?e" if "(k, v) \<in> set c0" for k v
  proof -
    obtain a' s where "v = Entry \<lparr>de_addr = a', expiresAt = s + domainIPTTL\<rparr>" "s \<le> now"
      using c0(2) \<open>(k, v) \<in> set c0\<close> by (fastforce simp: cache_inv_def)
    then show ?thesis using assms(5) by simp
  qed
  then have "answer_in ?h ?e {} (c0 @ [(?h, Entry ?e)])"
    using c0(2,3) by (auto simp: answer_in_def cache_inv_def map_of_eq_None_iff)
  from store_keeps [OF this len exp(3) _ _ perm] obtain c' where
    st: "storeDomainIP rng t1 t2 (Some c0) ?h a = Some c'" "answer_kept ?h ?e {} c'" by (auto simp: maxDomainIpCacheEntries_def)
  then have r: "r = Inr (a, md_Port m)" "answer_kept ?h ?e {} c1" using first l c0(1) miss(1) by (simp_all add: DomainIpMapping_def)
  have "answer_in ?h ?e (set hs) c2"
    using domain_later_keeps [OF later(1) r(2) _ exp(2)] later(2) by (simp add: answer_kept_def maxDomainIpCacheEntries_def)
  from answer_in_load [OF this exp(1)] m' r(1) show ?thesis by (simp add: DomainIpMapping_def)
qed

theorem domain_cache_hit_witness:
  "\<exists>c1 c2. DomainIpMapping (\<lambda>_. Inr (Addr4 [9, 9, 9, 9])) rev (1, 2, 3) (dns_meta\<lparr>md_Hostname := ''b''\<rparr>) (Some [dns_entry]) =
      (Inr (Addr4 [9, 9, 9, 9], 53), Some c1) \<and>
    DomainIpMapping (\<lambda>_. Inr (Addr4 [7, 7, 7, 7])) rev (4, 5, 6) (dns_meta\<lparr>md_Hostname := ''c''\<rparr>) (Some c1) =
      (Inr (Addr4 [7, 7, 7, 7], 53), Some c2) \<and>
    DomainIpMapping (\<lambda>_. Inl EOF) id (60 * 10 ^ 9, 0, 0) (dns_meta\<lparr>md_Hostname := ''b''\<rparr>) (Some c2) =
      (Inr (Addr4 [9, 9, 9, 9], 53), Some c2)"
proof -
  let ?b = "dns_meta\<lparr>md_Hostname := ''b''\<rparr>" and ?c = "dns_meta\<lparr>md_Hostname := ''c''\<rparr>"
  define c1 where "c1 = [dns_entry, (''b'', Entry \<lparr>de_addr = Addr4 [9, 9, 9, 9], expiresAt = 2 + domainIPTTL\<rparr>)]"
  define c2 where "c2 = c1 @ [(''c'', Entry \<lparr>de_addr = Addr4 [7, 7, 7, 7], expiresAt = 5 + domainIPTTL\<rparr>)]"
  have one: "DomainIpMapping (\<lambda>_. Inr (Addr4 [9, 9, 9, 9])) rev (1, 2, 3) ?b (Some [dns_entry]) =
      (Inr (Addr4 [9, 9, 9, 9], 53), Some c1)"
    by (simp add: c1_def DomainIpMapping_def loadDomainIP_def storeDomainIP_def domainIPCacheHasRoom_def maxDomainIpCacheEntries_def)
  have two: "DomainIpMapping (\<lambda>_. Inr (Addr4 [7, 7, 7, 7])) rev (4, 5, 6) ?c (Some c1) = (Inr (Addr4 [7, 7, 7, 7], 53), Some c2)"
    by (simp add: c2_def c1_def DomainIpMapping_def loadDomainIP_def storeDomainIP_def domainIPCacheHasRoom_def
        maxDomainIpCacheEntries_def)
  have "domain_later 3 c1 ([] @ (if md_Type ?c = MetadataTypeDomain then [md_Hostname ?c] else [])) 6 c2"
    by (rule domain_later.call [OF domain_later.stop _ _ _ _ two]) simp_all
  then have later: "domain_later 3 c1 [''c''] 6 c2" by simp
  have "DomainIpMapping (\<lambda>_. Inl EOF) id (60 * 10 ^ 9, 0, 0) ?b (Some c2) = (Inr (Addr4 [9, 9, 9, 9], md_Port ?b), Some c2)"
    using domain_cache_hit [OF domain_run_example _ _ _ _ _ _ _ _ one later, where t = "60 * 10 ^ 9" and m' = ?b]
    by (simp add: loadDomainIP_def)
  with one two show ?thesis by auto
qed

text \<open>
  C28: A destination that \<open>ParseMetadata\<close> accepts is well-typed: an IPv4 (IPv6) type comes with an address of 4 (16) bytes, and a
  domain type with a host that is no address. \<open>AddrPort\<close> then succeeds exactly for the address types, with the address and the
  port that were parsed; and every host without brackets, joined with any port, is accepted and gives them back.
\<close>

theorem ParseMetadata_well_typed:
  "(ParseMetadata s = Inr m \<longrightarrow>
      (case md_Type m of
         MetadataTypeIPv4 \<Rightarrow> \<exists>b. md_IP m = Addr4 b \<and> length b = 4 \<and> md_AddrPort m = Inr (Addr4 b, md_Port m)
       | MetadataTypeIPv6 \<Rightarrow> \<exists>b z. md_IP m = Addr6 b z \<and> length b = 16 \<and> md_AddrPort m = Inr (Addr6 b z, md_Port m)
       | MetadataTypeDomain \<Rightarrow>
           md_IP m = NoAddr \<and> netip_ParseAddr (md_Hostname m) = None \<and> (\<exists>e. md_AddrPort m = Inl e)
       | _ \<Rightarrow> False)) \<and>
   (host_text h \<longrightarrow>
      (\<exists>m. ParseMetadata (net_JoinHostPort h (Itoa (unat p))) = Inr m \<and> md_Hostname m = h \<and> md_Port m = p))"
proof (intro conjI impI)
  assume "ParseMetadata s = Inr m"
  then have "md_typed m" by (rule ParseMetadata_typed)
  then show "case md_Type m of
         MetadataTypeIPv4 \<Rightarrow> \<exists>b. md_IP m = Addr4 b \<and> length b = 4 \<and> md_AddrPort m = Inr (Addr4 b, md_Port m)
       | MetadataTypeIPv6 \<Rightarrow> \<exists>b z. md_IP m = Addr6 b z \<and> length b = 16 \<and> md_AddrPort m = Inr (Addr6 b z, md_Port m)
       | MetadataTypeDomain \<Rightarrow>
           md_IP m = NoAddr \<and> netip_ParseAddr (md_Hostname m) = None \<and> (\<exists>e. md_AddrPort m = Inl e)
       | _ \<Rightarrow> False"
    by (auto simp: md_AddrPort_def netip_IsValid_def split: MetadataType.splits)
next
  assume "host_text h"
  then show "\<exists>m. ParseMetadata (net_JoinHostPort h (Itoa (unat p))) = Inr m \<and> md_Hostname m = h \<and> md_Port m = p"
    by (rule ParseMetadata_Join)
qed

lemma port_443: "ParseUint16 ''443'' = Some 443"
  by (simp add: ParseUint16_def dec_value_def)

lemma loopback6: "netip_ParseAddr ''::1'' = Some (Addr6 (replicate 15 0 @ [1]) [])"
  by code_simp

theorem ParseMetadata_well_typed_witness:
  "\<exists>m. ParseMetadata ''[::1]:443'' = Inr m \<and> md_Type m = MetadataTypeIPv6 \<and> md_Port m = 443 \<and> (\<exists>b z. md_IP m = Addr6 b z \<and> length b = 16)"
proof -
  have "net_SplitHostPort ''[::1]:443'' = Some (''::1'', ''443'')" by code_simp
  then obtain m where m: "ParseMetadata ''[::1]:443'' = Inr m" "md_Type m = MetadataTypeIPv6" "md_Port m = 443"
    by (simp add: ParseMetadata_def port_443 loopback6)
  with ParseMetadata_well_typed [of "''[::1]:443''" m "[]" 0] show ?thesis by auto
qed

end
