(* ===== verification/TrojanWire.thy ===== *)
theory TrojanWire
  imports Metadata
begin

section \<open>The Trojan wire format\<close>

text \<open>
  Models \<open>protocol/trojanc/addr.go\<close> and the framing of \<open>conn.go\<close> and \<open>packet.go\<close>: the destination in a
  request, the request header, UDP datagrams in the stream, and the once-only header of both sides.
  A reader is an argument \<open>rf\<close>, \<open>io.ReadFull\<close> on it: it takes the length of the slice and the reader's state.
  Slices from the pool have stale contents: \<open>fresh n\<close> is the slice that \<open>pool.Get(n)\<close> returns.
\<close>

subsection \<open>Destinations\<close>

record TrojanMetadata = Metadata +
  tm_Network :: string

definition trojan_ParseMetadataType :: "byte \<Rightarrow> MetadataType" where
  "trojan_ParseMetadataType t =
     (if t = 1 then MetadataTypeIPv4 else if t = 2 then MetadataTypeMsg else if t = 3 then MetadataTypeDomain
      else if t = 4 then MetadataTypeIPv6 else MetadataTypeInvalid)"

definition trojan_MetadataTypeToByte :: "MetadataType \<Rightarrow> byte" where
  "trojan_MetadataTypeToByte typ =
     (case typ of
        MetadataTypeIPv4 \<Rightarrow> 1
      | MetadataTypeMsg \<Rightarrow> 2
      | MetadataTypeDomain \<Rightarrow> 3
      | MetadataTypeIPv6 \<Rightarrow> 4
      | MetadataTypeInvalid \<Rightarrow> 0)"

definition trojan_ParseNetwork :: "byte \<Rightarrow> string" where
  "trojan_ParseNetwork n = (if n = 1 then ''tcp'' else if n = 3 then ''udp'' else ''invalid'')"

definition trojan_NetworkToByte :: "string \<Rightarrow> byte" where
  "trojan_NetworkToByte network = (if network = ''tcp'' then 1 else if network = ''udp'' then 3 else 0)"

definition tm_Len :: "TrojanMetadata \<Rightarrow> nat" where
  "tm_Len m =
     (case md_Type m of
        MetadataTypeIPv4 \<Rightarrow> 3 + 4
      | MetadataTypeIPv6 \<Rightarrow> 3 + 16
      | MetadataTypeDomain \<Rightarrow> 4 + length (md_Hostname m)
      | MetadataTypeMsg \<Rightarrow> 2
      | MetadataTypeInvalid \<Rightarrow> 0)"

text \<open>
  \<open>PackTo\<close>: slicing the nil result of a failed parse panics. The position of the port after a domain is the
  sum of two bytes, and wraps; the result reads the length byte again.
\<close>

definition tm_PackTo :: "TrojanMetadata \<Rightarrow> bytes \<Rightarrow> (nat \<times> bytes) option" where
  "tm_PackTo m dst = do {
     b \<leftarrow> put_at dst 0 [trojan_MetadataTypeToByte (md_Type m)];
     case md_Type m of
       MetadataTypeIPv4 \<Rightarrow> do {
         ip \<leftarrow> net_ParseIP (md_Hostname m);
         ip4 \<leftarrow> ip_To4 ip;
         (_, b1) \<leftarrow> copy_at b 1 ip4;
         b2 \<leftarrow> put_at b1 5 (put_u16 (md_Port m));
         Some (7, b2) }
     | MetadataTypeIPv6 \<Rightarrow> do {
         ip \<leftarrow> net_ParseIP (md_Hostname m);
         (_, b1) \<leftarrow> copy_at b 1 ip;
         b2 \<leftarrow> put_at b1 17 (put_u16 (md_Port m));
         Some (19, b2) }
     | MetadataTypeDomain \<Rightarrow> do {
         b1 \<leftarrow> put_at b 1 [word_of_nat (length (md_Hostname m))];
         (_, b2) \<leftarrow> copy_at b1 2 (map byte_of (md_Hostname m));
         b3 \<leftarrow> put_at b2 (unat (2 + b2 ! 1)) (put_u16 (md_Port m));
         Some (4 + unat (b3 ! 1), b3) }
     | MetadataTypeMsg \<Rightarrow> do {
         b1 \<leftarrow> put_at b 1 [md_Cmd m];
         Some (2, b1) }
     | MetadataTypeInvalid \<Rightarrow> Some (0, b) }"

text \<open>Reading through an error: the state of the reader is kept.\<close>

type_synonym ('s, 'a) reader = "'s \<Rightarrow> (go_error + 'a) \<times> 's"

definition rd_bind :: "('s, 'a) reader \<Rightarrow> ('a \<Rightarrow> ('s, 'b) reader) \<Rightarrow> ('s, 'b) reader" where
  "rd_bind f g s = (case f s of (Inl e, s') \<Rightarrow> (Inl e, s') | (Inr x, s') \<Rightarrow> g x s')"

definition rd_return :: "'a \<Rightarrow> ('s, 'a) reader" where
  "rd_return x s = (Inr x, s)"

definition rd_fail :: "go_error \<Rightarrow> ('s, 'a) reader" where
  "rd_fail e s = (Inl e, s)"

text \<open>\<open>io.ReadFull\<close> on a stream of bytes that ends: a failing read takes what is left.\<close>

definition stream_ReadFull :: "nat \<Rightarrow> (bytes, bytes) reader" where
  "stream_ReadFull n bs = (case io_ReadFull n bs of Inl e \<Rightarrow> (Inl e, []) | Inr (xs, rest) \<Rightarrow> (Inr xs, rest))"

definition tm_Unpack :: "(nat \<Rightarrow> ('s, bytes) reader) \<Rightarrow> TrojanMetadata \<Rightarrow> ('s, nat \<times> TrojanMetadata) reader" where
  "tm_Unpack rf m =
     rd_bind (rf 2) (\<lambda>buf.
     let m1 = m\<lparr>md_Type := trojan_ParseMetadataType (buf ! 0)\<rparr> in
     case md_Type m1 of
       MetadataTypeIPv4 \<Rightarrow>
         rd_bind (rf 5) (\<lambda>more.
         let buf = buf @ more in
         rd_return (7, m1\<lparr>md_Hostname := ip_String (take 4 (drop 1 buf)), md_Port := u16_at buf 5\<rparr>))
     | MetadataTypeIPv6 \<Rightarrow>
         rd_bind (rf 17) (\<lambda>more.
         let buf = buf @ more in
         rd_return (19, m1\<lparr>md_Hostname := ip_String (take 16 (drop 1 buf)), md_Port := u16_at buf 17\<rparr>))
     | MetadataTypeDomain \<Rightarrow>
         let domainLen = unat (buf ! 1) in
         rd_bind (rf (2 + domainLen)) (\<lambda>more.
         let buf = buf @ more in
         rd_return (4 + domainLen,
           m1\<lparr>md_Hostname := map str_of_byte (take domainLen (drop 2 buf)), md_Port := u16_at buf (2 + domainLen)\<rparr>))
     | MetadataTypeMsg \<Rightarrow> rd_return (2, m1\<lparr>md_Cmd := buf ! 1\<rparr>)
     | MetadataTypeInvalid \<Rightarrow> rd_fail (Err ''unexpected metadata type: %v''))"

subsection \<open>Connections\<close>

text \<open>
  The underlying connection: \<open>tc_in\<close> are the bytes that arrive until the peer closes, \<open>tc_out\<close> is the
  state of the writing side, written by the argument \<open>wr\<close>, which returns a count and an error.
  \<open>tc_headerErr\<close> is what \<open>headerOnce\<close> guards, \<open>None\<close> before it has run.
\<close>

type_synonym 'w cwriter = "'w \<Rightarrow> bytes \<Rightarrow> (nat \<times> go_error option) \<times> 'w"

definition CRLF :: bytes where "CRLF = [13, 10]"

definition FailAuthErr :: go_error where "FailAuthErr = Err ''incorrect password''"

record 'w TrojanConn =
  tc_metadata :: TrojanMetadata
  tc_pass :: bytes
  tc_headerErr :: "go_error option option"
  tc_onceWrite :: bool
  packetWriteBuf :: bytes
  tc_in :: bytes
  tc_out :: 'w
  tc_closed :: bool

definition hex_Encode :: "bytes \<Rightarrow> bytes" where
  "hex_Encode bs = concat (map (\<lambda>b. [byte_of (digit_char (unat b div 16)), byte_of (digit_char (unat b mod 16))]) bs)"

text \<open>\<open>getPasswordHash\<close> with its cache; the hash function is the argument \<open>sha224\<close>.\<close>

definition getPasswordHash ::
    "(string \<Rightarrow> bytes) \<Rightarrow> (string \<rightharpoonup> bytes) \<Rightarrow> string \<Rightarrow> bytes \<times> (string \<rightharpoonup> bytes)" where
  "getPasswordHash sha224 cache password =
     (case cache password of
        Some h \<Rightarrow> (h, cache)
      | None \<Rightarrow> let result = hex_Encode (sha224 password) in (result, cache(password \<mapsto> result)))"

definition NewTrojanConn :: "bytes \<Rightarrow> 'w \<Rightarrow> TrojanMetadata \<Rightarrow> bytes \<Rightarrow> 'w TrojanConn" where
  "NewTrojanConn inp out metadata pass =
     \<lparr>tc_metadata = metadata, tc_pass = pass, tc_headerErr = None, tc_onceWrite = False, packetWriteBuf = [],
      tc_in = inp, tc_out = out, tc_closed = False\<rparr>"

definition reqHeaderFromPool :: "(nat \<Rightarrow> bytes) \<Rightarrow> 'w TrojanConn \<Rightarrow> bytes option" where
  "reqHeaderFromPool fresh c = do {
     let reqLen = tm_Len (tc_metadata c);
     (_, b1) \<leftarrow> copy_at (fresh (56 + 2 + 1 + reqLen + 2)) 0 (tc_pass c);
     (_, b2) \<leftarrow> copy_at b1 56 CRLF;
     b3 \<leftarrow> put_at b2 58 [trojan_NetworkToByte (tm_Network (tc_metadata c))];
     (_, b4) \<leftarrow> on_tail b3 59 (tm_PackTo (tc_metadata c));
     (_, b5) \<leftarrow> copy_at b4 (59 + reqLen) CRLF;
     Some b5 }"

text \<open>\<open>net.Buffers.WriteTo\<close>: one write per buffer, until one fails.\<close>

primrec buffers_WriteTo :: "'w cwriter \<Rightarrow> 'w \<Rightarrow> bytes list \<Rightarrow> (nat \<times> go_error option) \<times> 'w" where
  "buffers_WriteTo wr w [] = ((0, None), w)"
| "buffers_WriteTo wr w (b # bs) =
     (case wr w b of
        ((n, Some e), w') \<Rightarrow> ((n, Some e), w')
      | ((n, None), w') \<Rightarrow>
          let ((k, err), w'') = buffers_WriteTo wr w' bs in ((n + k, err), w''))"

definition writeRequestHeader ::
    "(nat \<Rightarrow> bytes) \<Rightarrow> 'w cwriter \<Rightarrow> 'w TrojanConn \<Rightarrow> bytes \<Rightarrow> ((nat \<times> go_error option) \<times> 'w TrojanConn) option" where
  "writeRequestHeader fresh wr c payload = do {
     header \<leftarrow> reqHeaderFromPool fresh c;
     let ((written, err), w) = buffers_WriteTo wr (tc_out c) (header # (if payload \<noteq> [] then [payload] else []));
     let c1 = c\<lparr>tc_out := w\<rparr>;
     Some (case err of
        Some e \<Rightarrow>
          if written \<le> length header then ((0, Some (Err ''write header: %w'')), c1)
          else ((written - length header, Some (Err ''write header: %w'')), c1)
      | None \<Rightarrow>
          if written < length header then ((0, Some (Err ''write header: %w'')), c1)
          else ((written - length header, None), c1)) }"

definition tc_writeLocked ::
    "(nat \<Rightarrow> bytes) \<Rightarrow> 'w cwriter \<Rightarrow> 'w TrojanConn \<Rightarrow> bytes \<Rightarrow> ((nat \<times> go_error option) \<times> 'w TrojanConn) option" where
  "tc_writeLocked fresh wr c b =
     (if \<not> tc_onceWrite c \<and> md_IsClient (tc_metadata c) then do {
        ((n, err), c1) \<leftarrow> writeRequestHeader fresh wr c b;
        case err of
          Some e \<Rightarrow> Some ((n, Some e), c1)
        | None \<Rightarrow> Some ((n, None), c1\<lparr>tc_onceWrite := True\<rparr>) }
      else let (r, w) = wr (tc_out c) b in Some (r, c\<lparr>tc_out := w\<rparr>))"

definition ensureRequestHeader ::
    "(nat \<Rightarrow> bytes) \<Rightarrow> 'w cwriter \<Rightarrow> 'w TrojanConn \<Rightarrow> (go_error option \<times> 'w TrojanConn) option" where
  "ensureRequestHeader fresh wr c =
     (if tc_onceWrite c \<or> \<not> md_IsClient (tc_metadata c) then Some (None, c)
      else do {
        ((_, err), c1) \<leftarrow> writeRequestHeader fresh wr c [];
        case err of
          Some e \<Rightarrow> Some (Some e, c1)
        | None \<Rightarrow> Some (None, c1\<lparr>tc_onceWrite := True\<rparr>) })"

text \<open>
  \<open>ReadReqHeader\<close> on the underlying connection. When \<open>Unpack\<close> fails it may have set the type of the
  metadata already, which the model does not track: the error is kept and returned by every later read.
\<close>

definition conn_ReadFull :: "nat \<Rightarrow> ('w TrojanConn, bytes) reader" where
  "conn_ReadFull n c = (let (r, rest) = stream_ReadFull n (tc_in c) in (r, c\<lparr>tc_in := rest\<rparr>))"

definition conn_put_metadata :: "TrojanMetadata \<Rightarrow> ('w TrojanConn, unit) reader" where
  "conn_put_metadata m c = (Inr (), c\<lparr>tc_metadata := m\<rparr>)"

definition ReadReqHeader :: "('w TrojanConn, unit) reader" where
  "ReadReqHeader c0 =
     rd_bind (conn_ReadFull 56) (\<lambda>buf c.
       if tc_pass c \<noteq> buf then (Inl FailAuthErr, c\<lparr>tc_closed := True\<rparr>)
       else rd_bind (conn_ReadFull 2) (\<lambda>crlf.
         if crlf \<noteq> CRLF then rd_fail (Err ''invalid trojan header CRLF'')
         else rd_bind (conn_ReadFull 1) (\<lambda>b c1.
           let c2 = c1\<lparr>tc_metadata := (tc_metadata c1)\<lparr>tm_Network := trojan_ParseNetwork (b ! 0)\<rparr>\<rparr> in
           if tm_Len (tc_metadata c2) < 2 then (Inl (Err ''invalid trojan header''), c2)
           else rd_bind (tm_Unpack conn_ReadFull (tc_metadata c2)) (\<lambda>(_, m).
             rd_bind (conn_put_metadata m) (\<lambda>_.
             rd_bind (conn_ReadFull 2) (\<lambda>crlf.
             if crlf \<noteq> CRLF then rd_fail (Err ''invalid trojan header CRLF'') else rd_return ()))) c2)) c) c0"

text \<open>
  What \<open>Conn.Read\<close> does before it reads: a client of a TCP tunnel sends its header, a server reads it once.
\<close>

definition tc_before_read ::
    "(nat \<Rightarrow> bytes) \<Rightarrow> 'w cwriter \<Rightarrow> 'w TrojanConn \<Rightarrow> (go_error option \<times> 'w TrojanConn) option" where
  "tc_before_read fresh wr c = do {
     (err, c1) \<leftarrow>
       (if md_IsClient (tc_metadata c) \<and> tm_Network (tc_metadata c) = ''tcp'' \<and> \<not> tc_onceWrite c
        then ensureRequestHeader fresh wr c else Some (None, c));
     case err of
       Some e \<Rightarrow> Some (Some e, c1)
     | None \<Rightarrow>
         if \<not> md_IsClient (tc_metadata c1) then
           (case tc_headerErr c1 of
              Some h \<Rightarrow> Some (h, c1)
            | None \<Rightarrow>
                let (r, c2) = ReadReqHeader c1;
                    h = (case r of Inl e \<Rightarrow> Some e | Inr _ \<Rightarrow> None) in
                Some (h, c2\<lparr>tc_headerErr := Some h\<rparr>))
         else Some (None, c1) }"

definition tc_ReadFull :: "(nat \<Rightarrow> bytes) \<Rightarrow> 'w cwriter \<Rightarrow> nat \<Rightarrow> ('w TrojanConn, bytes) reader" where
  "tc_ReadFull fresh wr n c =
     (if n = 0 then (Inr [], c)
      else case tc_before_read fresh wr c of
        None \<Rightarrow> (Inl RuntimePanic, c)
      | Some (Some e, c1) \<Rightarrow> (Inl e, c1)
      | Some (None, c1) \<Rightarrow> conn_ReadFull n c1)"

text \<open>One \<open>Read\<close> into a slice of length \<open>len\<close>; the transport has \<open>avail\<close> bytes at hand.\<close>

definition tc_Read ::
    "(nat \<Rightarrow> bytes) \<Rightarrow> 'w cwriter \<Rightarrow> nat \<Rightarrow> nat \<Rightarrow> ('w TrojanConn, bytes) reader" where
  "tc_Read fresh wr avail len c =
     (case tc_before_read fresh wr c of
        None \<Rightarrow> (Inl RuntimePanic, c)
      | Some (Some e, c1) \<Rightarrow> (Inl e, c1)
      | Some (None, c1) \<Rightarrow>
          if len > 0 \<and> tc_in c1 = [] then (Inl EOF, c1)
          else let n = min len (max 1 avail) in (Inr (take n (tc_in c1)), c1\<lparr>tc_in := drop n (tc_in c1)\<rparr>))"

subsection \<open>Datagrams\<close>

text \<open>\<open>common/last_string_value.go\<close>: the last parsed destination.\<close>

type_synonym 'a last_string_value = "(string \<times> 'a) option"

definition lsv_Load :: "'a last_string_value \<Rightarrow> string \<Rightarrow> 'a option" where
  "lsv_Load c key = (case c of Some (k, v) \<Rightarrow> if k = key then Some v else None | None \<Rightarrow> None)"

definition lsv_Store :: "'a last_string_value \<Rightarrow> string \<Rightarrow> 'a \<Rightarrow> 'a last_string_value" where
  "lsv_Store c key v = Some (key, v)"

record 'w TrojanPacketConn =
  tp_conn :: "'w TrojanConn"
  domainIpMapping :: domain_cache
  writeTarget :: "Metadata last_string_value"

definition maxReusablePacketWriteBufferSize :: nat where
  "maxReusablePacketWriteBufferSize = 128 * 1024"

definition borrowPacketWriteBuffer :: "bytes \<Rightarrow> nat \<Rightarrow> bytes \<times> bytes" where
  "borrowPacketWriteBuffer scratch sz =
     (if sz \<le> maxReusablePacketWriteBufferSize then
        let s = (if length scratch < sz then replicate sz 0 else scratch) in (take sz s, s)
      else (replicate sz 0, scratch))"

text \<open>The scratch after the slice borrowed from it was filled with \<open>buf\<close>: they share the array.\<close>

definition shared_scratch :: "bytes \<Rightarrow> bytes \<Rightarrow> bytes" where
  "shared_scratch scratch buf =
     (if length buf \<le> maxReusablePacketWriteBufferSize then buf @ drop (length buf) scratch else scratch)"

definition trojan_SealUDP :: "TrojanMetadata \<Rightarrow> bytes \<Rightarrow> bytes \<Rightarrow> (nat \<times> bytes) option" where
  "trojan_SealUDP m data dst = do {
     let n = tm_Len m;
     (_, b1) \<leftarrow> copy_at dst (n + 4) data;
     (_, b2) \<leftarrow> tm_PackTo m b1;
     b3 \<leftarrow> put_at b2 n (put_u16 (word_of_nat (length data)));
     (_, b4) \<leftarrow> copy_at b3 (n + 2) CRLF;
     s \<leftarrow> go_slice b4 0 (n + 4 + length data);
     Some (length s, b4) }"

definition metadataForAddr :: "Metadata last_string_value \<Rightarrow> string \<Rightarrow> (go_error + Metadata) \<times> Metadata last_string_value" where
  "metadataForAddr target addr =
     (case lsv_Load target addr of
        Some m \<Rightarrow> (Inr m, target)
      | None \<Rightarrow>
          (case ParseMetadata addr of
             Inl e \<Rightarrow> (Inl e, target)
           | Inr m \<Rightarrow> (Inr m, lsv_Store target addr m)))"

definition udp_metadata :: "Metadata \<Rightarrow> TrojanMetadata" where
  "udp_metadata m = Metadata.Metadata.extend m (TrojanMetadata.fields ''udp'')"

definition tp_WriteTo ::
    "(nat \<Rightarrow> bytes) \<Rightarrow> 'w cwriter \<Rightarrow> 'w TrojanPacketConn \<Rightarrow> bytes \<Rightarrow> string
     \<Rightarrow> ((nat \<times> go_error option) \<times> 'w TrojanPacketConn) option" where
  "tp_WriteTo fresh wr pc p addr =
     (let (r, target) = metadataForAddr (writeTarget pc) addr; pc1 = pc\<lparr>writeTarget := target\<rparr> in
      case r of
        Inl e \<Rightarrow> Some ((0, Some e), pc1)
      | Inr m0 \<Rightarrow> do {
          let m = udp_metadata m0;
          let c = tp_conn pc1;
          let (buf, scratch) = borrowPacketWriteBuffer (packetWriteBuf c) (tm_Len m + 4 + length p);
          (_, sealed) \<leftarrow> trojan_SealUDP m p buf;
          let c1 = c\<lparr>packetWriteBuf := shared_scratch scratch sealed\<rparr>;
          ((_, err), c2) \<leftarrow> tc_writeLocked fresh wr c1 sealed;
          case err of
            Some e \<Rightarrow> Some ((0, Some e), pc1\<lparr>tp_conn := c2\<rparr>)
          | None \<Rightarrow> Some ((length p, None), pc1\<lparr>tp_conn := c2\<rparr>) })"

definition tp_Write ::
    "(nat \<Rightarrow> bytes) \<Rightarrow> 'w cwriter \<Rightarrow> 'w TrojanPacketConn \<Rightarrow> bytes \<Rightarrow> ((nat \<times> go_error option) \<times> 'w TrojanPacketConn) option" where
  "tp_Write fresh wr pc b =
     (let m = tc_metadata (tp_conn pc) in
      tp_WriteTo fresh wr pc b (net_JoinHostPort (md_Hostname m) (Itoa (unat (md_Port m)))))"

text \<open>\<open>WriteBatch\<close>: every destination is resolved first, then the frames are sealed one after the other.\<close>

primrec batch_metadatas ::
    "Metadata last_string_value \<Rightarrow> (bytes \<times> string) list \<Rightarrow> (go_error + TrojanMetadata list) \<times> Metadata last_string_value" where
  "batch_metadatas target [] = (Inr [], target)"
| "batch_metadatas target (item # items) =
     (if length (fst item) > 0xffff then (Inl (Err ''trojan udp payload too large: %d > %d''), target)
      else case metadataForAddr target (snd item) of
        (Inl e, t1) \<Rightarrow> (Inl e, t1)
      | (Inr m, t1) \<Rightarrow>
          (case batch_metadatas t1 items of
             (Inl e, t2) \<Rightarrow> (Inl e, t2)
           | (Inr ms, t2) \<Rightarrow> (Inr (udp_metadata m # ms), t2)))"

primrec batch_seal ::
    "(TrojanMetadata \<Rightarrow> bytes \<Rightarrow> bytes \<Rightarrow> (nat \<times> bytes) option) \<Rightarrow> (TrojanMetadata \<times> bytes) list \<Rightarrow> bytes \<Rightarrow> nat \<Rightarrow> bytes option" where
  "batch_seal seal [] buf offset = Some buf"
| "batch_seal seal (x # xs) buf offset = do {
     (n, buf') \<leftarrow> on_tail buf offset (seal (fst x) (snd x));
     batch_seal seal xs buf' (offset + n) }"

definition tp_WriteBatch ::
    "(nat \<Rightarrow> bytes) \<Rightarrow> 'w cwriter \<Rightarrow> 'w TrojanPacketConn \<Rightarrow> (bytes \<times> string) list
     \<Rightarrow> ((nat \<times> go_error option) \<times> 'w TrojanPacketConn) option" where
  "tp_WriteBatch fresh wr pc items =
     (if items = [] then Some ((0, None), pc)
      else
        let (r, target) = batch_metadatas (writeTarget pc) items; pc1 = pc\<lparr>writeTarget := target\<rparr> in
        case r of
          Inl e \<Rightarrow> Some ((0, Some e), pc1)
        | Inr ms \<Rightarrow> do {
            let total = sum_list (map2 (\<lambda>m item. tm_Len m + 4 + length (fst item)) ms items);
            buf \<leftarrow> batch_seal trojan_SealUDP (zip ms (map fst items)) (fresh total) 0;
            ((_, err), c1) \<leftarrow> tc_writeLocked fresh wr (tp_conn pc1) buf;
            case err of
              Some e \<Rightarrow> Some ((0, Some e), pc1\<lparr>tp_conn := c1\<rparr>)
            | None \<Rightarrow> Some ((length items, None), pc1\<lparr>tp_conn := c1\<rparr>) })"

definition new_TrojanMetadata :: TrojanMetadata where
  "new_TrojanMetadata = Metadata.Metadata.extend new_Metadata (TrojanMetadata.fields [])"

definition DatagramDropped :: go_error where
  "DatagramDropped = Err ''datagram dropped: short buffer''"

text \<open>
  \<open>ReadFrom\<close> into the slice \<open>p\<close>: the three results, the slice and the connection afterwards. When the body is cut
  short, the bytes there were are in the slice.
\<close>

definition tp_ReadFrom ::
    "(nat \<Rightarrow> bytes) \<Rightarrow> 'w cwriter \<Rightarrow> (string \<Rightarrow> go_error + netip_addr) \<Rightarrow> (domain_cache \<Rightarrow> domain_cache) \<Rightarrow> int \<times> int \<times> int
     \<Rightarrow> 'w TrojanPacketConn \<Rightarrow> bytes \<Rightarrow> (nat \<times> addr_port \<times> go_error option) \<times> bytes \<times> 'w TrojanPacketConn" where
  "tp_ReadFrom fresh wr resolve rng ts pc p =
     (let rf = tc_ReadFull fresh wr;
          fail = (\<lambda>e c. ((0, noAddrPort, Some e), p, pc\<lparr>tp_conn := c\<rparr>));
          short = (\<lambda>e c2 c3. ((0, noAddrPort, Some e), go_copy p (tc_in c2), pc\<lparr>tp_conn := c3\<rparr>));
          finish = (\<lambda>m data err c.
            let (r, cache) = DomainIpMapping resolve rng ts m (Some (domainIpMapping pc));
                pc1 = pc\<lparr>tp_conn := c, domainIpMapping := the cache\<rparr>;
                p1 = go_copy p data in
            case r of
              Inl e \<Rightarrow> ((0, noAddrPort, Some e), p1, pc1)
            | Inr addr \<Rightarrow> ((length data, addr, err), p1, pc1)) in
      case tm_Unpack rf new_TrojanMetadata (tp_conn pc) of
        (Inl e, c1) \<Rightarrow> fail e c1
      | (Inr (_, m), c1) \<Rightarrow>
          (case rf 4 c1 of
             (Inl e, c2) \<Rightarrow> fail e c2
           | (Inr lengthAndCRLF, c2) \<Rightarrow>
               if drop 2 lengthAndCRLF \<noteq> CRLF then fail (Err ''invalid trojan UDP CRLF'') c2
               else
                 let len = unat (u16_at lengthAndCRLF 0) in
                 if len > length p then
                   (case rf (length p) c2 of
                      (Inl e, c3) \<Rightarrow> short e c2 c3
                    | (Inr data, c3) \<Rightarrow>
                        finish m data (Some DatagramDropped) (c3\<lparr>tc_in := drop (len - length p) (tc_in c3)\<rparr>))
                 else
                   (case rf len c2 of
                      (Inl e, c3) \<Rightarrow> short e c2 c3
                    | (Inr data, c3) \<Rightarrow> finish m data None c3)))"


section \<open>Correctness of the Trojan wire format\<close>

subsection \<open>The encoding of a destination\<close>

definition tm_addr :: "TrojanMetadata \<Rightarrow> bytes" where
  "tm_addr m =
     (case md_Type m of
        MetadataTypeIPv4 \<Rightarrow> the (ip_To4 (the (net_ParseIP (md_Hostname m))))
      | MetadataTypeIPv6 \<Rightarrow> the (net_ParseIP (md_Hostname m))
      | _ \<Rightarrow> map byte_of (md_Hostname m))"

definition tm_enc :: "TrojanMetadata \<Rightarrow> bytes" where
  "tm_enc m =
     (case md_Type m of
        MetadataTypeMsg \<Rightarrow> [2, md_Cmd m]
      | MetadataTypeDomain \<Rightarrow> [3, word_of_nat (length (md_Hostname m))] @ tm_addr m @ put_u16 (md_Port m)
      | typ \<Rightarrow> [trojan_MetadataTypeToByte typ] @ tm_addr m @ put_u16 (md_Port m))"

text \<open>Destinations that \<open>PackTo\<close> can carry.\<close>

definition tm_packable :: "TrojanMetadata \<Rightarrow> bool" where
  "tm_packable m =
     (case md_Type m of
        MetadataTypeIPv4 \<Rightarrow> (case net_ParseIP (md_Hostname m) of None \<Rightarrow> False | Some ip \<Rightarrow> ip_To4 ip \<noteq> None)
      | MetadataTypeIPv6 \<Rightarrow> net_ParseIP (md_Hostname m) \<noteq> None
      | MetadataTypeDomain \<Rightarrow> length (md_Hostname m) \<le> 253
      | MetadataTypeMsg \<Rightarrow> True
      | MetadataTypeInvalid \<Rightarrow> False)"

lemma length_tm_addr:
  "tm_packable m \<Longrightarrow> md_Type m = MetadataTypeIPv4 \<Longrightarrow> length (tm_addr m) = 4"
  "tm_packable m \<Longrightarrow> md_Type m = MetadataTypeIPv6 \<Longrightarrow> length (tm_addr m) = 16"
  "md_Type m = MetadataTypeDomain \<Longrightarrow> length (tm_addr m) = length (md_Hostname m)"
  by (auto simp: tm_packable_def tm_addr_def split: option.splits dest: To4_length net_ParseIP_length)

lemma length_tm_enc: "tm_packable m \<Longrightarrow> length (tm_enc m) = tm_Len m"
  using length_tm_addr [of m]
  by (cases "md_Type m") (simp_all add: tm_enc_def tm_Len_def tm_packable_def)

lemma unat_small: "n \<le> 253 \<Longrightarrow> unat (word_of_nat n :: byte) = n"
  by (simp add: unsigned_of_nat take_bit_nat_eq_self)

lemma unat_add2: "n \<le> 253 \<Longrightarrow> unat (2 + word_of_nat n :: byte) = 2 + n"
proof -
  assume "n \<le> 253"
  then have "unat (word_of_nat (2 + n) :: byte) = 2 + n"
    by (simp only: unsigned_of_nat) (simp add: take_bit_nat_eq_self)
  then show ?thesis by (simp only: of_nat_add of_nat_numeral)
qed

lemma put_at_first: "xs \<noteq> [] \<Longrightarrow> put_at xs 0 [b] = Some (b # drop 1 xs)"
  by (cases xs) (simp_all add: put_at_def)

lemma fill3:
  assumes "length a = n" "n + 3 \<le> length dst" "i = n + 1"
  shows "\<exists>k b1. copy_at (t # drop 1 dst) 1 a = Some (k, b1) \<and>
    put_at b1 i (put_u16 p) = Some (t # a @ put_u16 p @ drop (n + 3) dst)"
proof -
  have "copy_at ([t] @ drop 1 dst) 1 a = Some (length a, [t] @ a @ drop (length a) (drop 1 dst))"
    using assms by (intro copy_at_front) simp_all
  moreover have "put_at (([t] @ a) @ drop n (drop 1 dst)) (n + 1) (put_u16 p) =
      Some (([t] @ a) @ put_u16 p @ drop (length (put_u16 p)) (drop n (drop 1 dst)))"
    using assms by (intro put_at_front) simp_all
  ultimately show ?thesis using assms by (simp add: drop_drop add.commute numeral_3_eq_3)
qed

lemma tm_PackTo_domain:
  assumes "md_Type m = MetadataTypeDomain" "length (md_Hostname m) \<le> 253" "tm_Len m \<le> length dst"
  shows "tm_PackTo m dst = Some (tm_Len m, tm_enc m @ drop (tm_Len m) dst)"
proof -
  let ?h = "map byte_of (md_Hostname m)" and ?n = "length (md_Hostname m)"
  let ?l = "word_of_nat ?n :: byte"
  have len: "4 + ?n \<le> length dst" using assms by (simp add: tm_Len_def)
  obtain x y d where d: "dst = x # y # d" "2 + ?n \<le> length d"
    using len by (cases dst; cases "tl dst") auto
  have "copy_at ([3, ?l] @ d) 2 ?h = Some (length ?h, [3, ?l] @ ?h @ drop (length ?h) d)"
    using d by (intro copy_at_front) simp_all
  moreover have "put_at (([3, ?l] @ ?h) @ drop ?n d) (2 + ?n) (put_u16 (md_Port m)) =
      Some (([3, ?l] @ ?h) @ put_u16 (md_Port m) @ drop (length (put_u16 (md_Port m))) (drop ?n d))"
    using d by (intro put_at_front) simp_all
  moreover have "put_at (3 # y # d) 1 [?l] = Some (3 # ?l # d)" by (simp add: put_at_def)
  ultimately show ?thesis
    using assms(1,2) d
    by (simp add: tm_PackTo_def put_at_first trojan_MetadataTypeToByte_def unat_add2 unat_small tm_Len_def tm_enc_def
        tm_addr_def eval_nat_numeral)
qed

lemma tm_PackTo_enc:
  assumes "tm_packable m" "tm_Len m \<le> length dst"
  shows "tm_PackTo m dst = Some (tm_Len m, tm_enc m @ drop (tm_Len m) dst)"
proof (cases "md_Type m")
  case MetadataTypeIPv4
  then obtain ip b where ip: "net_ParseIP (md_Hostname m) = Some ip" "ip_To4 ip = Some b"
    using assms(1) by (auto simp: tm_packable_def split: option.splits)
  then show ?thesis
    using MetadataTypeIPv4 assms(2) fill3 [of b 4 dst 5 1 "md_Port m"] To4_length [OF ip(2)]
    by (cases dst) (auto simp: tm_PackTo_def tm_Len_def tm_enc_def tm_addr_def put_at_first trojan_MetadataTypeToByte_def)
next
  case MetadataTypeIPv6
  then obtain ip where ip: "net_ParseIP (md_Hostname m) = Some ip" using assms(1) by (auto simp: tm_packable_def)
  then show ?thesis
    using MetadataTypeIPv6 assms(2) fill3 [of ip 16 dst 17 4 "md_Port m"] net_ParseIP_length [OF ip]
    by (cases dst) (auto simp: tm_PackTo_def tm_Len_def tm_enc_def tm_addr_def put_at_first trojan_MetadataTypeToByte_def)
next
  case MetadataTypeDomain
  then show ?thesis using assms by (intro tm_PackTo_domain) (simp_all add: tm_packable_def)
next
  case MetadataTypeMsg
  then show ?thesis
    using assms by (cases dst; cases "tl dst")
      (auto simp: tm_PackTo_def tm_Len_def tm_enc_def put_at_def trojan_MetadataTypeToByte_def)
next
  case MetadataTypeInvalid
  then show ?thesis using assms(1) by (simp add: tm_packable_def)
qed

subsection \<open>Decoding a destination\<close>

text \<open>What the decoders ask of a reader whose state holds the bytes to come: a read that can be filled is filled.\<close>

locale full_reader =
  fixes rf :: "nat \<Rightarrow> ('s, bytes) reader"
    and ok :: "'s \<Rightarrow> bool"
    and inp :: "'s \<Rightarrow> bytes"
    and upd :: "bytes \<Rightarrow> 's \<Rightarrow> 's"
  assumes rf_full: "ok s \<Longrightarrow> inp s = xs @ rest \<Longrightarrow> length xs = n \<Longrightarrow> rf n s = (Inr xs, upd rest s)"
    and upd_ok: "ok s \<Longrightarrow> ok (upd bs s)"
    and inp_upd: "inp (upd bs s) = bs"
    and upd_upd: "upd bs (upd bs' s) = upd bs s"

text \<open>The destination as the receiver sees it: addresses are printed in their canonical form.\<close>

definition tm_received :: "TrojanMetadata \<Rightarrow> TrojanMetadata \<Rightarrow> TrojanMetadata" where
  "tm_received m0 m =
     (case md_Type m of
        MetadataTypeMsg \<Rightarrow> m0\<lparr>md_Type := MetadataTypeMsg, md_Cmd := md_Cmd m\<rparr>
      | MetadataTypeDomain \<Rightarrow> m0\<lparr>md_Type := MetadataTypeDomain, md_Hostname := md_Hostname m, md_Port := md_Port m\<rparr>
      | typ \<Rightarrow> m0\<lparr>md_Type := typ, md_Hostname := ip_String (tm_addr m), md_Port := md_Port m\<rparr>)"

definition tm_sendable :: "TrojanMetadata \<Rightarrow> bool" where
  "tm_sendable m =
     (case md_Type m of
        MetadataTypeIPv4 \<Rightarrow> length (tm_addr m) = 4
      | MetadataTypeIPv6 \<Rightarrow> length (tm_addr m) = 16
      | MetadataTypeDomain \<Rightarrow> length (md_Hostname m) \<le> 255
      | MetadataTypeMsg \<Rightarrow> True
      | MetadataTypeInvalid \<Rightarrow> False)"

lemma packable_sendable: "tm_packable m \<Longrightarrow> tm_sendable m"
  using length_tm_addr [of m] by (cases "md_Type m") (auto simp: tm_packable_def tm_sendable_def)

lemma length_tm_enc_sendable: "tm_sendable m \<Longrightarrow> length (tm_enc m) = tm_Len m"
  using length_tm_addr(3) [of m] by (cases "md_Type m") (simp_all add: tm_sendable_def tm_enc_def tm_Len_def)

lemma trojan_type_byte: "trojan_ParseMetadataType (trojan_MetadataTypeToByte t) = t"
  by (cases t) (simp_all add: trojan_ParseMetadataType_def trojan_MetadataTypeToByte_def)

lemma tm_enc_hd: "tm_sendable m \<Longrightarrow> trojan_ParseMetadataType (tm_enc m ! 0) = md_Type m"
  by (cases "md_Type m")
    (simp_all add: tm_enc_def tm_sendable_def trojan_type_byte, simp_all add: trojan_ParseMetadataType_def)

lemma unat_byte_len: "n \<le> 255 \<Longrightarrow> unat (word_of_nat n :: byte) = n"
  by (simp add: unsigned_of_nat take_bit_nat_eq_self)

lemma tm_Len_ge2: "tm_sendable m \<Longrightarrow> 2 \<le> tm_Len m"
  by (cases "md_Type m") (simp_all add: tm_Len_def tm_sendable_def)

lemma take_2_nth: "2 \<le> length xs \<Longrightarrow> take 2 xs ! 0 = xs ! 0 \<and> take 2 xs ! 1 = xs ! 1"
  by simp

lemma drop_addr_port:
  assumes "length h = k" "length a = n"
  shows "take n (drop k (h @ a @ put_u16 p)) = a" "u16_at (h @ a @ put_u16 p) (k + n) = p"
  using assms u16_at_append [of "h @ a" "put_u16 p" 0] by simp_all

lemma tm_enc_fields:
  assumes "tm_sendable m"
  shows "md_Type m = MetadataTypeIPv4 \<Longrightarrow> take 4 (drop 1 (tm_enc m)) = tm_addr m \<and> u16_at (tm_enc m) 5 = md_Port m"
    "md_Type m = MetadataTypeIPv6 \<Longrightarrow> take 16 (drop 1 (tm_enc m)) = tm_addr m \<and> u16_at (tm_enc m) 17 = md_Port m"
    "md_Type m = MetadataTypeDomain \<Longrightarrow> unat (tm_enc m ! 1) = length (md_Hostname m) \<and>
       take (length (md_Hostname m)) (drop 2 (tm_enc m)) = map byte_of (md_Hostname m) \<and>
       u16_at (tm_enc m) (2 + length (md_Hostname m)) = md_Port m"
    "md_Type m = MetadataTypeMsg \<Longrightarrow> tm_enc m ! 1 = md_Cmd m"
  using assms drop_addr_port [of "[trojan_MetadataTypeToByte (md_Type m)]" 1 "tm_addr m" _ "md_Port m"]
    drop_addr_port [of "[3, word_of_nat (length (md_Hostname m))]" 2 "tm_addr m" _ "md_Port m"]
  by (simp_all add: tm_sendable_def tm_enc_def unat_byte_len tm_addr_def)

lemma map_str_of_byte [simp]: "map (str_of_byte \<circ> byte_of) s = s"
  by (simp add: o_def)

context full_reader
begin

lemma Unpack_enc:
  assumes "ok s" "inp s = tm_enc m @ rest" "tm_sendable m"
  shows "tm_Unpack rf m0 s = (Inr (tm_Len m, tm_received m0 m), upd rest s)"
proof -
  have len: "length (tm_enc m) = tm_Len m" "2 \<le> tm_Len m"
    using length_tm_enc_sendable tm_Len_ge2 assms(3) by simp_all
  have "rf 2 s = (Inr (take 2 (tm_enc m)), upd (drop 2 (tm_enc m) @ rest) s)"
    using len assms(2) by (intro rf_full [OF assms(1)]) (simp_all add: append_assoc [symmetric])
  moreover have "rf (tm_Len m - 2) (upd (drop 2 (tm_enc m) @ rest) s) = (Inr (drop 2 (tm_enc m)), upd rest s)"
    using rf_full [OF upd_ok [OF assms(1)] inp_upd] len by (simp add: upd_upd)
  ultimately show ?thesis
    using assms(3) tm_enc_hd [OF assms(3)] take_2_nth [of "tm_enc m"] len tm_enc_fields [OF assms(3)]
    by (cases "md_Type m")
      (simp_all add: tm_Unpack_def rd_bind_def rd_return_def tm_sendable_def tm_received_def tm_Len_def Let_def
        del: take_append drop_append)
qed

end

interpretation stream: full_reader stream_ReadFull "\<lambda>_. True" "\<lambda>s. s" "\<lambda>bs _. bs"
  by unfold_locales (simp_all add: stream_ReadFull_def)

interpretation conn: full_reader conn_ReadFull "\<lambda>_. True" tc_in "\<lambda>bs. tc_in_update (\<lambda>_. bs)"
  by unfold_locales (simp_all add: conn_ReadFull_def stream_ReadFull_def)

subsection \<open>The request header\<close>

definition trojan_header :: "bytes \<Rightarrow> TrojanMetadata \<Rightarrow> bytes" where
  "trojan_header pass m = pass @ CRLF @ [trojan_NetworkToByte (tm_Network m)] @ tm_enc m @ CRLF"

lemma length_CRLF [simp]: "length CRLF = 2"
  by (simp add: CRLF_def)

text \<open>Fill a slice piece by piece, whatever it held before.\<close>

lemma copy_at_next:
  assumes "length pre = i" "i + length xs \<le> length b"
  shows "copy_at (pre @ drop i b) i xs = Some (length xs, (pre @ xs) @ drop (i + length xs) b)"
  using assms copy_at_front [of pre i xs "drop i b"] by (simp add: add.commute)

lemma put_at_next:
  assumes "length pre = i" "i + length xs \<le> length b"
  shows "put_at (pre @ drop i b) i xs = Some ((pre @ xs) @ drop (i + length xs) b)"
  using assms put_at_front [of pre i xs "drop i b"] by (simp add: add.commute)

lemma reqHeaderFromPool_ok:
  assumes "\<And>n. length (fresh n) = n" "length (tc_pass c) = 56" "tm_packable (tc_metadata c)"
  shows "reqHeaderFromPool fresh c = Some (trojan_header (tc_pass c) (tc_metadata c))"
proof -
  let ?m = "tc_metadata c" and ?p = "tc_pass c"
  let ?N = "[trojan_NetworkToByte (tm_Network ?m)]"
  define b where "b = fresh (61 + tm_Len ?m)"
  have b: "length b = 61 + tm_Len ?m" by (simp add: b_def assms(1))
  have 1: "copy_at b 0 ?p = Some (56, ?p @ drop 56 b)"
    using copy_at_next [of "[]" 0 ?p b] assms(2) b by simp
  have 2: "copy_at (?p @ drop 56 b) 56 CRLF = Some (2, (?p @ CRLF) @ drop 58 b)"
    using copy_at_next [of ?p 56 CRLF b] assms(2) b by simp
  have 3: "put_at ((?p @ CRLF) @ drop 58 b) 58 ?N = Some ((?p @ CRLF @ ?N) @ drop 59 b)"
    using put_at_next [of "?p @ CRLF" 58 ?N b] assms(2) b by simp
  have 4: "on_tail ((?p @ CRLF @ ?N) @ drop 59 b) 59 (tm_PackTo ?m) =
      Some (tm_Len ?m, (?p @ CRLF @ ?N @ tm_enc ?m) @ drop (59 + tm_Len ?m) b)"
    using on_tail_front [of "?p @ CRLF @ ?N" 59 "drop 59 b" "tm_PackTo ?m"] tm_PackTo_enc [OF assms(3), of "drop 59 b"]
      assms(2) b by (simp add: add.commute)
  have 5: "copy_at ((?p @ CRLF @ ?N @ tm_enc ?m) @ drop (59 + tm_Len ?m) b) (59 + tm_Len ?m) CRLF =
      Some (2, trojan_header ?p ?m)"
    using copy_at_next [of "?p @ CRLF @ ?N @ tm_enc ?m" "59 + tm_Len ?m" CRLF b] assms(2) b length_tm_enc [OF assms(3)]
    by (simp add: trojan_header_def)
  show ?thesis using 1 2 3 4 5 by (simp add: reqHeaderFromPool_def Let_def b_def [symmetric])
qed

lemma tc_in_metadata: "c\<lparr>tc_in := a, tc_metadata := b\<rparr> = c\<lparr>tc_metadata := b, tc_in := a\<rparr>"
  by (cases c) simp

lemma conn_reads:
  "tc_in c = xs @ rest \<Longrightarrow> length xs = n \<Longrightarrow> conn_ReadFull n c = (Inr xs, c\<lparr>tc_in := rest\<rparr>)"
  by (rule conn.rf_full) simp_all

text \<open>What the server has after the header: the network and the destination of the client.\<close>

definition trojan_accepted :: "TrojanMetadata \<Rightarrow> TrojanMetadata \<Rightarrow> TrojanMetadata" where
  "trojan_accepted m0 m = tm_received (m0\<lparr>tm_Network := trojan_ParseNetwork (trojan_NetworkToByte (tm_Network m))\<rparr>) m"

lemma ReadReqHeader_ok:
  assumes "tc_in c = trojan_header (tc_pass c) m @ rest" "length (tc_pass c) = 56" "tm_sendable m"
    "2 \<le> tm_Len (tc_metadata c)"
  shows "ReadReqHeader c = (Inr (), c\<lparr>tc_in := rest, tc_metadata := trojan_accepted (tc_metadata c) m\<rparr>)"
proof -
  let ?N = "[trojan_NetworkToByte (tm_Network m)]"
  let ?m0 = "(tc_metadata c)\<lparr>tm_Network := trojan_ParseNetwork (trojan_NetworkToByte (tm_Network m))\<rparr>"
  have 1: "conn_ReadFull 56 c = (Inr (tc_pass c), c\<lparr>tc_in := CRLF @ ?N @ tm_enc m @ CRLF @ rest\<rparr>)"
    using assms(1,2) by (intro conn_reads) (simp_all add: trojan_header_def)
  have 2: "conn_ReadFull 2 (c\<lparr>tc_in := CRLF @ ?N @ tm_enc m @ CRLF @ rest\<rparr>) = (Inr CRLF, c\<lparr>tc_in := ?N @ tm_enc m @ CRLF @ rest\<rparr>)"
    by (subst conn_reads [of _ CRLF]) simp_all
  have 3: "conn_ReadFull 1 (c\<lparr>tc_in := ?N @ tm_enc m @ CRLF @ rest\<rparr>) = (Inr ?N, c\<lparr>tc_in := tm_enc m @ CRLF @ rest\<rparr>)"
    by (subst conn_reads [of _ ?N]) simp_all
  have 4: "tm_Unpack conn_ReadFull ?m0 (c\<lparr>tc_in := tm_enc m @ CRLF @ rest, tc_metadata := ?m0\<rparr>) =
      (Inr (tm_Len m, tm_received ?m0 m), c\<lparr>tc_in := CRLF @ rest, tc_metadata := ?m0\<rparr>)"
    by (subst conn.Unpack_enc [OF _ _ assms(3), where rest = "CRLF @ rest"]) simp_all
  have 5: "conn_ReadFull 2 (c\<lparr>tc_in := CRLF @ rest, tc_metadata := tm_received ?m0 m\<rparr>) =
      (Inr CRLF, c\<lparr>tc_in := rest, tc_metadata := tm_received ?m0 m\<rparr>)"
    by (subst conn_reads [of _ CRLF]) (simp_all add: tc_in_metadata)
  have "tm_Len ?m0 = tm_Len (tc_metadata c)" by (cases "md_Type (tc_metadata c)") (simp_all add: tm_Len_def)
  with assms(4) 1 2 3 4 5 show ?thesis
    by (simp add: ReadReqHeader_def rd_bind_def Let_def conn_put_metadata_def rd_return_def trojan_accepted_def
        tc_in_metadata)
qed

subsection \<open>Datagrams\<close>

definition trojan_frame :: "TrojanMetadata \<Rightarrow> bytes \<Rightarrow> bytes" where
  "trojan_frame m data = tm_enc m @ put_u16 (word_of_nat (length data)) @ CRLF @ data"

lemma length_trojan_frame: "tm_packable m \<Longrightarrow> length (trojan_frame m data) = tm_Len m + 4 + length data"
  by (simp add: trojan_frame_def length_tm_enc)

lemma trojan_SealUDP_ok:
  assumes "tm_packable m" "tm_Len m + 4 + length data \<le> length dst"
  shows "trojan_SealUDP m data dst =
    Some (tm_Len m + 4 + length data, trojan_frame m data @ drop (tm_Len m + 4 + length data) dst)"
proof -
  let ?n = "tm_Len m" and ?len = "put_u16 (word_of_nat (length data))"
  let ?tail = "data @ drop (?n + 4 + length data) dst"
  have 1: "copy_at dst (?n + 4) data = Some (length data, take (?n + 4) dst @ ?tail)"
    using copy_at_next [of "take (?n + 4) dst" "?n + 4" data dst] assms(2) by simp
  have 2: "tm_PackTo m (take (?n + 4) dst @ ?tail) = Some (?n, tm_enc m @ drop ?n (take (?n + 4) dst) @ ?tail)"
    using tm_PackTo_enc [OF assms(1), of "take (?n + 4) dst @ ?tail"] assms(2) by simp
  have d: "length (drop ?n (take (?n + 4) dst)) = 4" using assms(2) by simp
  have 3: "put_at (tm_enc m @ drop ?n (take (?n + 4) dst) @ ?tail) ?n ?len =
      Some ((tm_enc m @ ?len) @ drop 2 (drop ?n (take (?n + 4) dst)) @ ?tail)"
    using put_at_front [of "tm_enc m" ?n ?len "drop ?n (take (?n + 4) dst) @ ?tail"] length_tm_enc [OF assms(1)] d by simp
  have 4: "copy_at ((tm_enc m @ ?len) @ drop 2 (drop ?n (take (?n + 4) dst)) @ ?tail) (?n + 2) CRLF =
      Some (2, (tm_enc m @ ?len) @ CRLF @ ?tail)"
    using copy_at_front [of "tm_enc m @ ?len" "?n + 2" CRLF "drop 2 (drop ?n (take (?n + 4) dst)) @ ?tail"]
      length_tm_enc [OF assms(1)] d by simp
  have 5: "go_slice ((tm_enc m @ ?len) @ CRLF @ ?tail) 0 (?n + 4 + length data) = Some (trojan_frame m data)"
    using length_tm_enc [OF assms(1)] by (simp add: go_slice_def trojan_frame_def)
  show ?thesis
    using length_trojan_frame [OF assms(1), of data]
    by (simp only: trojan_SealUDP_def Let_def 1 2 3 4 5 bind.bind_lunit prod.case) (simp add: trojan_frame_def)
qed

text \<open>A connection whose header is out of the way: its reads go straight to the stream.\<close>

definition tc_settled :: "'w TrojanConn \<Rightarrow> bool" where
  "tc_settled c \<longleftrightarrow>
     (if md_IsClient (tc_metadata c) then tm_Network (tc_metadata c) \<noteq> ''tcp'' \<or> tc_onceWrite c
      else tc_headerErr c = Some None)"

lemma tc_ReadFull_settled: "tc_settled c \<Longrightarrow> tc_ReadFull fresh wr n c = conn_ReadFull n c"
  by (auto simp: tc_ReadFull_def tc_before_read_def tc_settled_def conn_ReadFull_def stream_ReadFull_def split: if_splits)

interpretation settled: full_reader "tc_ReadFull fresh wr" tc_settled tc_in "\<lambda>bs. tc_in_update (\<lambda>_. bs)" for fresh wr
  by unfold_locales (simp_all add: tc_ReadFull_settled conn_reads, simp add: tc_settled_def split: if_splits)

lemma tp_ReadFrom_frame:
  assumes "tc_settled (tp_conn pc)" "tc_in (tp_conn pc) = trojan_frame m data @ rest" "tm_sendable m"
    "length data \<le> 65535"
    "DomainIpMapping resolve rng ts (tm_received new_TrojanMetadata m) (Some (domainIpMapping pc)) = (r, cache)"
  shows "tp_ReadFrom fresh wr resolve rng ts pc p =
    (case r of
       Inl e \<Rightarrow> (0, noAddrPort, Some e)
     | Inr addr \<Rightarrow> (min (length data) (length p), addr, if length data \<le> length p then None else Some DatagramDropped),
     go_copy p data,
     pc\<lparr>tp_conn := (tp_conn pc)\<lparr>tc_in := rest\<rparr>, domainIpMapping := the cache\<rparr>)"
proof -
  let ?c = "tp_conn pc" and ?rf = "tc_ReadFull fresh wr"
  let ?l = "put_u16 (word_of_nat (length data))"
  have s: "tc_settled (?c\<lparr>tc_in := bs\<rparr>)" for bs using assms(1) by (rule settled.upd_ok)
  have 1: "tm_Unpack ?rf new_TrojanMetadata ?c =
      (Inr (tm_Len m, tm_received new_TrojanMetadata m), ?c\<lparr>tc_in := ?l @ CRLF @ data @ rest\<rparr>)"
    using assms(2) by (intro settled.Unpack_enc assms) (simp add: trojan_frame_def)
  have 2: "?rf 4 (?c\<lparr>tc_in := ?l @ CRLF @ data @ rest\<rparr>) = (Inr (?l @ CRLF), ?c\<lparr>tc_in := data @ rest\<rparr>)"
    by (subst settled.rf_full [OF s, where xs = "?l @ CRLF" and rest = "data @ rest"]) simp_all
  have len: "unat (u16_at (?l @ CRLF) 0) = length data"
    using assms(4) by (simp add: unsigned_of_nat take_bit_nat_eq_self)
  have 3: "?rf n (?c\<lparr>tc_in := data @ rest\<rparr>) = (Inr (take n data), ?c\<lparr>tc_in := drop n data @ rest\<rparr>)"
    if "n \<le> length data" for n
    by (subst settled.rf_full [OF s, where xs = "take n data" and rest = "drop n data @ rest"])
      (use that in \<open>simp_all add: append_assoc [symmetric] del: append_assoc\<close>)
  have cp: "go_copy p (take (length p) data) = go_copy p data" by (simp add: go_copy_def min_def)
  show ?thesis
  proof (cases "length data \<le> length p")
    case True
    then show ?thesis
      using 1 2 len 3 [of "length data"] by (simp add: tp_ReadFrom_def Let_def assms(5) split: sum.splits)
  next
    case False
    then show ?thesis
      using 1 2 len 3 [of "length p"] by (simp add: tp_ReadFrom_def Let_def assms(5) cp split: sum.splits)
  qed
qed

end
