(* ===== verification/TrojanSession.thy ===== *)
theory TrojanSession
  imports TrojanWire
begin

section \<open>A Trojan UDP session, end to end\<close>

text \<open>
  The composition of the parts of \<open>protocol/trojanc\<close>: a client writes datagrams to a packet connection, the
  bytes it sends are read by a server's packet connection with the same password. The lemmas before
  describe each side alone; the last part holds the destinations that break the encoding.
\<close>

subsection \<open>Destinations that fit\<close>

definition trojan_addressable :: "string \<Rightarrow> bool" where
  "trojan_addressable addr =
     (case ParseMetadata addr of
        Inl _ \<Rightarrow> False
      | Inr m \<Rightarrow> length (md_Hostname m) \<le> 253 \<and> netip_Zone (md_IP m) = [])"

definition trojan_dest :: "string \<Rightarrow> TrojanMetadata" where
  "trojan_dest addr = udp_metadata (projr (ParseMetadata addr))"

lemma udp_metadata_simps [simp]:
  "md_Type (udp_metadata m) = md_Type m" "md_Hostname (udp_metadata m) = md_Hostname m" "md_Port (udp_metadata m) = md_Port m"
  "md_IP (udp_metadata m) = md_IP m" "md_Cmd (udp_metadata m) = md_Cmd m" "tm_Network (udp_metadata m) = ''udp''"
  by (simp_all add: udp_metadata_def Metadata.Metadata.extend_def TrojanMetadata.fields_def)

lemma ParseIP_addr: "netip_ParseAddr h = Some a \<Longrightarrow> netip_Zone a = [] \<Longrightarrow> net_ParseIP h = Some (netip_As16 a)"
  by (simp add: net_ParseIP_def)

lemma trojan_addressable_packable: "trojan_addressable addr \<Longrightarrow> tm_packable (trojan_dest addr)"
proof -
  assume a: "trojan_addressable addr"
  then obtain m where m: "ParseMetadata addr = Inr m" "length (md_Hostname m) \<le> 253" "netip_Zone (md_IP m) = []"
    by (auto simp: trojan_addressable_def split: sum.splits)
  from m(1) show ?thesis
  proof (cases rule: ParseMetadata_cases)
    case (addr a)
    then show ?thesis using m ParseIP_addr [OF addr(1)] by (cases a) (auto simp: trojan_dest_def tm_packable_def)
  next
    case domain
    then show ?thesis using m by (simp add: trojan_dest_def tm_packable_def)
  qed
qed

subsection \<open>The writing side\<close>

text \<open>A connection that takes everything it is given.\<close>

definition sink :: "bytes cwriter" where
  "sink w b = ((length b, None), w @ b)"

definition target_ok :: "Metadata last_string_value \<Rightarrow> bool" where
  "target_ok t \<longleftrightarrow> (\<forall>k m. t = Some (k, m) \<longrightarrow> ParseMetadata k = Inr m)"

lemma metadataForAddr_ok:
  assumes "target_ok t" "ParseMetadata addr = Inr m"
  shows "\<exists>t'. metadataForAddr t addr = (Inr m, t') \<and> target_ok t'"
  using assms by (auto simp: metadataForAddr_def target_ok_def lsv_Load_def lsv_Store_def split: option.splits)

lemma borrow_length: "length (fst (borrowPacketWriteBuffer scratch n)) = n"
  by (simp add: borrowPacketWriteBuffer_def Let_def)

definition pending_header :: "'w TrojanConn \<Rightarrow> bytes" where
  "pending_header c = (if tc_onceWrite c then [] else trojan_header (tc_pass c) (tc_metadata c))"

text \<open>A client connection that can send its header.\<close>

definition tc_client :: "'w TrojanConn \<Rightarrow> bool" where
  "tc_client c \<longleftrightarrow> length (tc_pass c) = 56 \<and> md_IsClient (tc_metadata c) \<and> tm_packable (tc_metadata c)"

lemma tc_writeLocked_sink:
  assumes "\<And>n. length (fresh n) = n" "tc_client c" "b \<noteq> []"
  shows "tc_writeLocked fresh sink c b =
    Some ((length b, None), c\<lparr>tc_onceWrite := True, tc_out := tc_out c @ pending_header c @ b\<rparr>)"
proof (cases "tc_onceWrite c")
  case True
  then show ?thesis by (simp add: tc_writeLocked_def sink_def pending_header_def)
next
  case False
  moreover have "reqHeaderFromPool fresh c = Some (trojan_header (tc_pass c) (tc_metadata c))"
    using assms by (intro reqHeaderFromPool_ok) (simp_all add: tc_client_def)
  ultimately show ?thesis
    using assms by (simp add: tc_writeLocked_def writeRequestHeader_def sink_def pending_header_def tc_client_def)
qed

lemma tp_WriteTo_sink:
  assumes "\<And>n. length (fresh n) = n" "tc_client (tp_conn pc)" "target_ok (writeTarget pc)" "trojan_addressable addr"
  shows "\<exists>pc'. tp_WriteTo fresh sink pc p addr = Some ((length p, None), pc') \<and>
    tc_out (tp_conn pc') = tc_out (tp_conn pc) @ pending_header (tp_conn pc) @ trojan_frame (trojan_dest addr) p \<and>
    tc_onceWrite (tp_conn pc') \<and> tc_client (tp_conn pc') \<and> target_ok (writeTarget pc')"
proof -
  let ?m = "trojan_dest addr" and ?c = "tp_conn pc"
  obtain m0 where m0: "ParseMetadata addr = Inr m0" "udp_metadata m0 = ?m"
    using assms(4) by (auto simp: trojan_addressable_def trojan_dest_def split: sum.splits)
  obtain t where t: "metadataForAddr (writeTarget pc) addr = (Inr m0, t)" "target_ok t"
    using metadataForAddr_ok [OF assms(3) m0(1)] by blast
  have pk: "tm_packable ?m" using assms(4) by (rule trojan_addressable_packable)
  obtain buf scratch where b: "borrowPacketWriteBuffer (packetWriteBuf ?c) (tm_Len ?m + 4 + length p) = (buf, scratch)"
    by fastforce
  have "length buf = tm_Len ?m + 4 + length p" using borrow_length b by (metis fst_conv)
  with trojan_SealUDP_ok [OF pk, of p buf]
  have seal: "trojan_SealUDP ?m p buf = Some (tm_Len ?m + 4 + length p, trojan_frame ?m p)" by simp
  let ?c1 = "?c\<lparr>packetWriteBuf := shared_scratch scratch (trojan_frame ?m p)\<rparr>"
  have "trojan_frame ?m p \<noteq> []" by (simp add: trojan_frame_def CRLF_def)
  then have w: "tc_writeLocked fresh sink ?c1 (trojan_frame ?m p) = Some ((length (trojan_frame ?m p), None),
      ?c1\<lparr>tc_onceWrite := True, tc_out := tc_out ?c @ pending_header ?c @ trojan_frame ?m p\<rparr>)"
    using tc_writeLocked_sink [of fresh ?c1] assms(1,2) by (simp add: tc_client_def pending_header_def)
  show ?thesis
    using assms(2) t by (simp add: tp_WriteTo_def m0(2) b seal w Let_def tc_client_def)
qed

primrec tp_WriteAll ::
    "(nat \<Rightarrow> bytes) \<Rightarrow> 'w cwriter \<Rightarrow> 'w TrojanPacketConn \<Rightarrow> (bytes \<times> string) list \<Rightarrow> 'w TrojanPacketConn option" where
  "tp_WriteAll fresh wr pc [] = Some pc"
| "tp_WriteAll fresh wr pc (x # xs) = do {
     ((n, err), pc1) \<leftarrow> tp_WriteTo fresh wr pc (fst x) (snd x);
     if n = length (fst x) \<and> err = None then tp_WriteAll fresh wr pc1 xs else None }"

abbreviation trojan_frames :: "(bytes \<times> string) list \<Rightarrow> bytes" where
  "trojan_frames xs \<equiv> concat (map (\<lambda>x. trojan_frame (trojan_dest (snd x)) (fst x)) xs)"

lemma tp_WriteAll_sink:
  assumes "\<And>n. length (fresh n) = n"
  shows "tc_client (tp_conn pc) \<Longrightarrow> target_ok (writeTarget pc) \<Longrightarrow> list_all (\<lambda>x. trojan_addressable (snd x)) xs \<Longrightarrow>
    \<exists>pc'. tp_WriteAll fresh sink pc xs = Some pc' \<and>
      tc_out (tp_conn pc') = tc_out (tp_conn pc) @ (if xs = [] then [] else pending_header (tp_conn pc)) @ trojan_frames xs"
proof (induction xs arbitrary: pc)
  case (Cons x xs)
  obtain pc1 where pc1: "tp_WriteTo fresh sink pc (fst x) (snd x) = Some ((length (fst x), None), pc1)"
      "tc_out (tp_conn pc1) = tc_out (tp_conn pc) @ pending_header (tp_conn pc) @ trojan_frame (trojan_dest (snd x)) (fst x)"
      "tc_onceWrite (tp_conn pc1)" "tc_client (tp_conn pc1)" "target_ok (writeTarget pc1)"
    using tp_WriteTo_sink [OF assms Cons.prems(1,2), of "snd x" "fst x"] Cons.prems(3) by auto
  have "pending_header (tp_conn pc1) = []" using pc1(3) by (simp add: pending_header_def)
  with Cons.IH [OF pc1(4,5)] Cons.prems(3) pc1 show ?case by auto
qed simp

text \<open>A batch is one write of the frames that single writes would send.\<close>

lemma batch_seal_ok:
  assumes "list_all (\<lambda>x. tm_packable (fst x)) xs" "length pre = offset"
    "length (concat (map (\<lambda>x. trojan_frame (fst x) (snd x)) xs)) \<le> length b"
  shows "batch_seal trojan_SealUDP xs (pre @ b) offset =
    Some (pre @ concat (map (\<lambda>x. trojan_frame (fst x) (snd x)) xs) @
      drop (length (concat (map (\<lambda>x. trojan_frame (fst x) (snd x)) xs))) b)"
  using assms
proof (induction xs arbitrary: pre offset b)
  case (Cons x xs)
  let ?f = "trojan_frame (fst x) (snd x)"
  have len: "length ?f = tm_Len (fst x) + 4 + length (snd x)" using Cons.prems(1) by (simp add: length_trojan_frame)
  have le: "length ?f \<le> length b" using Cons.prems(3) by simp
  have "on_tail (pre @ b) offset (trojan_SealUDP (fst x) (snd x)) = Some (length ?f, pre @ ?f @ drop (length ?f) b)"
    using on_tail_front [OF Cons.prems(2), of b] trojan_SealUDP_ok [of "fst x" "snd x" b] Cons.prems(1) le len by simp
  with Cons.IH [of "pre @ ?f" "offset + length ?f" "drop (length ?f) b"] Cons.prems show ?case
    by (simp add: add.commute)
qed simp

lemma batch_metadatas_ok:
  assumes "list_all (\<lambda>x. trojan_addressable (snd x) \<and> length (fst x) \<le> 65535) items" "target_ok t"
  shows "\<exists>t'. batch_metadatas t items = (Inr (map (\<lambda>x. trojan_dest (snd x)) items), t') \<and> target_ok t'"
  using assms
proof (induction items arbitrary: t)
  case (Cons x xs)
  obtain m where m: "ParseMetadata (snd x) = Inr m" "udp_metadata m = trojan_dest (snd x)"
    using Cons.prems(1) by (auto simp: trojan_addressable_def trojan_dest_def split: sum.splits)
  obtain t1 where "metadataForAddr t (snd x) = (Inr m, t1)" "target_ok t1"
    using metadataForAddr_ok [OF Cons.prems(2) m(1)] by blast
  with Cons.IH [of t1] Cons.prems(1) m(2) show ?case by auto
qed simp

lemma batch_total:
  assumes "list_all (\<lambda>x. trojan_addressable (snd x)) items"
  shows "sum_list (map2 (\<lambda>m item. tm_Len m + 4 + length (fst item)) (map (\<lambda>x. trojan_dest (snd x)) items) items) =
    length (trojan_frames items)"
  using assms by (induction items) (simp_all add: length_trojan_frame trojan_addressable_packable)

lemma tp_WriteBatch_sink:
  assumes "\<And>n. length (fresh n) = n" "tc_client (tp_conn pc)" "target_ok (writeTarget pc)" "items \<noteq> []"
    "list_all (\<lambda>x. trojan_addressable (snd x) \<and> length (fst x) \<le> 65535) items"
  shows "\<exists>pc'. tp_WriteBatch fresh sink pc items = Some ((length items, None), pc') \<and>
    tc_out (tp_conn pc') = tc_out (tp_conn pc) @ pending_header (tp_conn pc) @ trojan_frames items"
proof -
  obtain t where t: "batch_metadatas (writeTarget pc) items = (Inr (map (\<lambda>x. trojan_dest (snd x)) items), t)"
    using batch_metadatas_ok [OF assms(5,3)] by blast
  have adr: "list_all (\<lambda>x. trojan_addressable (snd x)) items" using assms(5) by (simp add: list_all_iff)
  let ?b = "fresh (length (trojan_frames items))"
  let ?xs = "zip (map (\<lambda>x. trojan_dest (snd x)) items) (map fst items)"
  have xs: "concat (map (\<lambda>x. trojan_frame (fst x) (snd x)) ?xs) = trojan_frames items"
    by (induction items) simp_all
  have "list_all (\<lambda>x. tm_packable (fst x)) ?xs"
    using adr by (induction items) (simp_all add: trojan_addressable_packable)
  then have seal: "batch_seal trojan_SealUDP ?xs ?b 0 = Some (trojan_frames items)"
    using batch_seal_ok [of ?xs "[]" 0 ?b] assms(1) by (simp add: xs)
  have "trojan_frames items \<noteq> []" using assms(4) by (cases items) (simp_all add: trojan_frame_def CRLF_def)
  then show ?thesis
    using tc_writeLocked_sink [OF assms(1,2), of "trojan_frames items"] assms(4) batch_total [OF adr]
    by (simp add: tp_WriteBatch_def t seal Let_def)
qed

subsection \<open>The reading side\<close>

text \<open>The first read of a server reads the header; a datagram is then read as from a settled connection.\<close>

lemma tc_ReadFull_header:
  assumes "tc_in c = trojan_header (tc_pass c) m @ rest" "length (tc_pass c) = 56" "tm_sendable m"
    "2 \<le> tm_Len (tc_metadata c)" "\<not> md_IsClient (tc_metadata c)" "tc_headerErr c = None" "0 < n"
  shows "tc_ReadFull fresh wr n c =
    conn_ReadFull n (c\<lparr>tc_metadata := trojan_accepted (tc_metadata c) m, tc_in := rest, tc_headerErr := Some None\<rparr>)"
  using assms ReadReqHeader_ok [OF assms(1-4)] by (simp add: tc_ReadFull_def tc_before_read_def tc_in_metadata)

lemma accepted_server: "md_IsClient (trojan_accepted m0 m) = md_IsClient m0"
  by (cases "md_Type m") (simp_all add: trojan_accepted_def tm_received_def)

definition tc_greeted :: "TrojanMetadata \<Rightarrow> bytes \<Rightarrow> 'w TrojanConn \<Rightarrow> 'w TrojanConn" where
  "tc_greeted m rest c = c\<lparr>tc_metadata := trojan_accepted (tc_metadata c) m, tc_in := rest, tc_headerErr := Some None\<rparr>"

lemma tp_ReadFrom_header:
  assumes "tc_in (tp_conn pc) = trojan_header (tc_pass (tp_conn pc)) m @ rest" "length (tc_pass (tp_conn pc)) = 56"
    "tm_sendable m" "2 \<le> tm_Len (tc_metadata (tp_conn pc))" "\<not> md_IsClient (tc_metadata (tp_conn pc))"
    "tc_headerErr (tp_conn pc) = None"
  shows "tp_ReadFrom fresh wr resolve rng ts pc p =
    tp_ReadFrom fresh wr resolve rng ts (pc\<lparr>tp_conn := tc_greeted m rest (tp_conn pc)\<rparr>) p"
proof -
  let ?c = "tp_conn pc" and ?c' = "tc_greeted m rest (tp_conn pc)"
  have "tc_settled ?c'" using assms(5) by (simp add: tc_greeted_def tc_settled_def accepted_server)
  then have "tc_ReadFull fresh wr 2 ?c = tc_ReadFull fresh wr 2 ?c'"
    using tc_ReadFull_header [OF assms, of 2 fresh wr] tc_ReadFull_settled [of ?c' fresh wr 2] by (simp add: tc_greeted_def)
  then have "tm_Unpack (tc_ReadFull fresh wr) new_TrojanMetadata ?c = tm_Unpack (tc_ReadFull fresh wr) new_TrojanMetadata ?c'"
    by (simp add: tm_Unpack_def rd_bind_def)
  then show ?thesis by (simp add: tp_ReadFrom_def Let_def)
qed

primrec tp_ReadAll ::
    "(nat \<Rightarrow> bytes) \<Rightarrow> 'w cwriter \<Rightarrow> (string \<Rightarrow> go_error + netip_addr) \<Rightarrow> (domain_cache \<Rightarrow> domain_cache)
     \<Rightarrow> 'w TrojanPacketConn \<Rightarrow> ((int \<times> int \<times> int) \<times> bytes) list
     \<Rightarrow> (((nat \<times> addr_port \<times> go_error option) \<times> bytes) list) \<times> 'w TrojanPacketConn" where
  "tp_ReadAll fresh wr resolve rng pc [] = ([], pc)"
| "tp_ReadAll fresh wr resolve rng pc (x # xs) =
     (let (r, p, pc1) = tp_ReadFrom fresh wr resolve rng (fst x) pc (snd x);
          (rs, pc2) = tp_ReadAll fresh wr resolve rng pc1 xs in
      ((r, take (fst r) p) # rs, pc2))"

text \<open>The source address that a datagram is delivered with, given what the resolver answers.\<close>

definition trojan_source :: "(string \<Rightarrow> netip_addr) \<Rightarrow> TrojanMetadata \<Rightarrow> addr_port" where
  "trojan_source ans m =
     (if md_Type m = MetadataTypeDomain then (ans (md_Hostname m), md_Port m)
      else (netip_Unmap (AddrFromSlice (tm_addr m)), md_Port m))"

lemma received_AddrPort:
  assumes "tm_sendable m" "md_Type m = MetadataTypeIPv4 \<or> md_Type m = MetadataTypeIPv6"
  shows "md_AddrPort (tm_received new_TrojanMetadata m) = Inr (netip_Unmap (AddrFromSlice (tm_addr m)), md_Port m)"
  using assms ParseAddr_String [of "tm_addr m"]
  by (auto simp: md_AddrPort_def tm_received_def tm_sendable_def netip_IsValid_def new_TrojanMetadata_def
      new_Metadata_def Metadata.Metadata.extend_def TrojanMetadata.fields_def)

lemma tp_ReadFrom_deliver:
  assumes "tc_settled (tp_conn pc)" "tc_in (tp_conn pc) = trojan_frame m data @ rest" "tm_sendable m"
    "md_Type m \<noteq> MetadataTypeMsg" "length data \<le> 65535" "length data \<le> length p" "cache_agrees ans (domainIpMapping pc)"
  shows "\<exists>pc'. tp_ReadFrom fresh wr (\<lambda>h. Inr (ans h)) rng ts pc p =
      ((length data, trojan_source ans m, None), go_copy p data, pc') \<and>
    tp_conn pc' = (tp_conn pc)\<lparr>tc_in := rest\<rparr> \<and> cache_agrees ans (domainIpMapping pc')"
proof -
  let ?m = "tm_received new_TrojanMetadata m"
  obtain c' where c': "DomainIpMapping (\<lambda>h. Inr (ans h)) rng ts ?m (Some (domainIpMapping pc)) =
      (if md_Type ?m = MetadataTypeDomain then Inr (ans (md_Hostname ?m), md_Port ?m)
       else sum_map_error (\<lambda>_. Err ''ReadFrom AddrPort: %w'') (md_AddrPort ?m), Some c')" "cache_agrees ans c'"
    using DomainIpMapping_agrees [OF assms(7)] by blast
  have "DomainIpMapping (\<lambda>h. Inr (ans h)) rng ts ?m (Some (domainIpMapping pc)) = (Inr (trojan_source ans m), Some c')"
    using c'(1) assms(3,4) received_AddrPort [OF assms(3)]
    by (cases "md_Type m") (simp_all add: tm_received_def trojan_source_def sum_map_error_def tm_sendable_def)
  from tp_ReadFrom_frame [OF assms(1-3,5) this, of fresh wr p] c'(2) assms(6) show ?thesis by simp
qed

lemma tp_ReadAll_frames:
  assumes "tc_settled (tp_conn pc)" "tc_in (tp_conn pc) = trojan_frames xs @ rest" "cache_agrees ans (domainIpMapping pc)"
    "list_all (\<lambda>x. trojan_addressable (snd x) \<and> length (fst x) \<le> 65535) xs"
    "list_all2 (\<lambda>x p. length (fst x) \<le> length (snd p)) xs ps"
  shows "\<exists>pc'. tp_ReadAll fresh wr (\<lambda>h. Inr (ans h)) rng pc ps =
      (map (\<lambda>x. ((length (fst x), trojan_source ans (trojan_dest (snd x)), None), fst x)) xs, pc') \<and>
    tp_conn pc' = (tp_conn pc)\<lparr>tc_in := rest\<rparr>"
  using assms
proof (induction xs arbitrary: pc ps)
  case Nil
  then show ?case by (cases "tp_conn pc") simp
next
  case (Cons x xs)
  let ?m = "trojan_dest (snd x)"
  obtain ts p qs where ps: "ps = (ts, p) # qs" "length (fst x) \<le> length p"
      "list_all2 (\<lambda>x p. length (fst x) \<le> length (snd p)) xs qs"
    using Cons.prems(5) by (auto simp: list_all2_Cons1)
  have adr: "trojan_addressable (snd x)" "length (fst x) \<le> 65535" using Cons.prems(4) by simp_all
  have m: "tm_sendable ?m" using packable_sendable [OF trojan_addressable_packable [OF adr(1)]] .
  have "md_Type ?m \<noteq> MetadataTypeMsg"
    using adr(1) by (auto simp: trojan_addressable_def trojan_dest_def split: sum.splits if_splits elim!: ParseMetadata_cases)
  moreover have inn: "tc_in (tp_conn pc) = trojan_frame ?m (fst x) @ trojan_frames xs @ rest" using Cons.prems(2) by simp
  ultimately obtain pc1 where pc1: "tp_ReadFrom fresh wr (\<lambda>h. Inr (ans h)) rng ts pc p =
      ((length (fst x), trojan_source ans ?m, None), go_copy p (fst x), pc1)"
      "tp_conn pc1 = (tp_conn pc)\<lparr>tc_in := trojan_frames xs @ rest\<rparr>" "cache_agrees ans (domainIpMapping pc1)"
    using tp_ReadFrom_deliver [OF Cons.prems(1) inn m _ adr(2) ps(2) Cons.prems(3), of fresh wr rng ts] by blast
  have "tc_settled (tp_conn pc1)" unfolding pc1(2) using Cons.prems(1) by (rule settled.upd_ok)
  with Cons.IH [of pc1 qs] pc1 Cons.prems(4) ps show ?case by (auto simp: go_copy_def)
qed

lemma trojan_source_addr:
  assumes "ParseMetadata addr = Inr m" "netip_Zone (md_IP m) = []"
  shows "trojan_source ans (trojan_dest addr) =
    (if md_Type m = MetadataTypeDomain then (ans (md_Hostname m), md_Port m) else (netip_Unmap (md_IP m), md_Port m))"
  using assms(1)
proof (cases rule: ParseMetadata_cases)
  case (addr a)
  then show ?thesis
    using assms ParseIP_addr [OF addr(1)]
    by (cases a) (auto simp: trojan_source_def trojan_dest_def tm_addr_def AddrFromSlice_def)
next
  case domain
  then show ?thesis using assms by (simp add: trojan_source_def trojan_dest_def)
qed

definition new_packet_conn :: "'w TrojanConn \<Rightarrow> 'w TrojanPacketConn" where
  "new_packet_conn c = \<lparr>tp_conn = c, domainIpMapping = [], writeTarget = None\<rparr>"

text \<open>
  C4: A UDP session delivers every datagram. The client writes any datagrams of at most 65535 bytes to any destinations that are
  addresses without a zone or domains of at most 253 bytes; it reports each as sent. A server with the same password that reads
  as many datagrams, into slices that are large enough, accepts the session, learns the client's network and destination,
  and gets the same payloads in the same order, each with its own destination: the address itself, IPv4-mapped ones
  as IPv4, or what the resolver answers for the domain. Nothing is left over in the stream.
  The frames of a batch are the same bytes. Stale contents of pooled slices never matter.
\<close>

theorem trojan_udp_session:
  assumes "\<And>n. length (fresh n) = n" "length pass = 56" "md_IsClient dest" "tm_packable dest" "\<not> md_IsClient srv"
    "2 \<le> tm_Len srv" "xs \<noteq> []"
    "list_all (\<lambda>x. trojan_addressable (snd x) \<and> length (fst x) \<le> 65535) xs"
    "list_all2 (\<lambda>x p. length (fst x) \<le> length (snd p)) xs ps"
  shows "\<exists>pc pc2 sc.
    tp_WriteAll fresh sink (new_packet_conn (NewTrojanConn inp [] dest pass)) xs = Some pc \<and>
    tp_WriteBatch fresh sink (new_packet_conn (NewTrojanConn inp [] dest pass)) xs = Some ((length xs, None), pc2) \<and>
    tc_out (tp_conn pc2) = tc_out (tp_conn pc) \<and>
    tp_ReadAll fresh' wr (\<lambda>h. Inr (ans h)) rng (new_packet_conn (NewTrojanConn (tc_out (tp_conn pc)) w srv pass)) ps =
      (map (\<lambda>x. ((length (fst x), trojan_source ans (trojan_dest (snd x)), None), fst x)) xs, sc) \<and>
    tc_in (tp_conn sc) = [] \<and> tc_metadata (tp_conn sc) = trojan_accepted srv dest"
proof -
  let ?c = "new_packet_conn (NewTrojanConn inp [] dest pass)"
  have adr: "list_all (\<lambda>x. trojan_addressable (snd x)) xs" using assms(8) by (simp add: list_all_iff)
  have c: "tc_client (tp_conn ?c)" "target_ok (writeTarget ?c)" "tc_out (tp_conn ?c) = []"
    "pending_header (tp_conn ?c) = trojan_header pass dest"
    using assms by (simp_all add: new_packet_conn_def NewTrojanConn_def tc_client_def target_ok_def pending_header_def)
  obtain pc where pc: "tp_WriteAll fresh sink ?c xs = Some pc" "tc_out (tp_conn pc) = trojan_header pass dest @ trojan_frames xs"
    using tp_WriteAll_sink [OF assms(1) c(1,2) adr] assms(7) by (auto simp: c(3,4))
  obtain pc2 where pc2: "tp_WriteBatch fresh sink ?c xs = Some ((length xs, None), pc2)" "tc_out (tp_conn pc2) = tc_out (tp_conn pc)"
    using tp_WriteBatch_sink [OF assms(1) c(1,2) assms(7,8)] pc(2) by (auto simp: c(3,4))
  let ?s = "new_packet_conn (NewTrojanConn (tc_out (tp_conn pc)) w srv pass)"
  let ?g = "?s\<lparr>tp_conn := tc_greeted dest (trojan_frames xs) (tp_conn ?s)\<rparr>"
  have g: "tc_settled (tp_conn ?g)" "tc_in (tp_conn ?g) = trojan_frames xs @ []" "cache_agrees ans (domainIpMapping ?g)"
    "tc_metadata (tp_conn ?g) = trojan_accepted srv dest"
    using assms(5)
    by (simp_all add: new_packet_conn_def NewTrojanConn_def tc_greeted_def tc_settled_def accepted_server cache_agrees_def)
  have "tp_ReadFrom fresh' wr (\<lambda>h. Inr (ans h)) rng ts ?s p = tp_ReadFrom fresh' wr (\<lambda>h. Inr (ans h)) rng ts ?g p" for ts p
    using assms(2,5,6) packable_sendable [OF assms(4)] pc(2)
    by (intro tp_ReadFrom_header) (simp_all add: new_packet_conn_def NewTrojanConn_def)
  then have "tp_ReadAll fresh' wr (\<lambda>h. Inr (ans h)) rng ?s ps = tp_ReadAll fresh' wr (\<lambda>h. Inr (ans h)) rng ?g ps"
    using assms(7,9) by (cases ps) auto
  then show ?thesis
    using tp_ReadAll_frames [OF g(1-3) assms(8,9), of fresh' wr rng] pc pc2 g(4) by (auto simp del: tp_ReadAll.simps)
qed

lemma addressable_examples:
  "ParseMetadata ''[::1]:443'' = Inr (new_Metadata\<lparr>md_Type := MetadataTypeIPv6, md_Hostname := ''::1'', md_Port := 443,
     md_IP := Addr6 (replicate 15 0 @ [1]) []\<rparr>)"
  "ParseMetadata ''a:443'' = Inr (new_Metadata\<lparr>md_Type := MetadataTypeDomain, md_Hostname := ''a'', md_Port := 443\<rparr>)"
  "trojan_addressable ''[::1]:443''" "trojan_addressable ''a:443''"
proof -
  have s: "net_SplitHostPort ''[::1]:443'' = Some (''::1'', ''443'')" "net_SplitHostPort ''a:443'' = Some (''a'', ''443'')"
    "netip_ParseAddr ''a'' = None"
    by code_simp+
  show p: "ParseMetadata ''[::1]:443'' = Inr (new_Metadata\<lparr>md_Type := MetadataTypeIPv6, md_Hostname := ''::1'', md_Port := 443,
      md_IP := Addr6 (replicate 15 0 @ [1]) []\<rparr>)"
    "ParseMetadata ''a:443'' = Inr (new_Metadata\<lparr>md_Type := MetadataTypeDomain, md_Hostname := ''a'', md_Port := 443\<rparr>)"
    by (simp_all add: ParseMetadata_def s port_443 loopback6) (simp add: new_Metadata_def)
  show "trojan_addressable ''[::1]:443''" "trojan_addressable ''a:443''"
    by (simp_all add: trojan_addressable_def p) (simp add: new_Metadata_def)
qed

lemma trojan_source_examples:
  "trojan_source ans (trojan_dest ''[::1]:443'') = (Addr6 (replicate 15 0 @ [1]) [], 443)"
  "trojan_source ans (trojan_dest ''a:443'') = (ans ''a'', 443)"
proof -
  have "netip_Unmap (Addr6 (replicate 15 0 @ [1]) []) = Addr6 (replicate 15 0 @ [1]) []" by code_simp
  then show "trojan_source ans (trojan_dest ''[::1]:443'') = (Addr6 (replicate 15 0 @ [1]) [], 443)"
    using trojan_source_addr [OF addressable_examples(1), of ans] by simp
  show "trojan_source ans (trojan_dest ''a:443'') = (ans ''a'', 443)"
    using trojan_source_addr [OF addressable_examples(2), of ans] by (simp add: new_Metadata_def)
qed

abbreviation example_dest :: TrojanMetadata where
  "example_dest \<equiv> new_TrojanMetadata\<lparr>md_Type := MetadataTypeDomain, md_Hostname := ''a'', md_Port := 443, md_IsClient := True,
     tm_Network := ''udp''\<rparr>"

theorem trojan_udp_session_witness:
  "\<exists>pc sc.
    tp_WriteAll (\<lambda>n. replicate n 9) sink (new_packet_conn (NewTrojanConn [] [] example_dest (replicate 56 7)))
      [([1, 2, 3], ''[::1]:443''), ([], ''a:443'')] = Some pc \<and>
    tp_ReadAll (\<lambda>n. []) sink (\<lambda>h. Inr (Addr4 [9, 9, 9, 9])) id
      (new_packet_conn (NewTrojanConn (tc_out (tp_conn pc)) [] new_TrojanMetadata (replicate 56 7)))
      [((0, 0, 0), [0, 0, 0, 0]), ((1, 2, 3), [])] =
    ([((3, (Addr6 (replicate 15 0 @ [1]) [], 443), None), [1, 2, 3]), ((0, (Addr4 [9, 9, 9, 9], 443), None), [])], sc) \<and>
    tc_in (tp_conn sc) = []"
proof -
  have "md_IsClient example_dest" "tm_packable example_dest" "\<not> md_IsClient new_TrojanMetadata" "2 \<le> tm_Len new_TrojanMetadata"
    by (simp_all add: tm_packable_def tm_Len_def new_TrojanMetadata_def new_Metadata_def Metadata.Metadata.extend_def
        TrojanMetadata.fields_def)
  with trojan_udp_session [of "\<lambda>n. replicate n 9" "replicate 56 7" example_dest new_TrojanMetadata
      "[([1, 2, 3], ''[::1]:443''), ([], ''a:443'')]" "[((0, 0, 0), [0, 0, 0, 0]), ((1, 2, 3), [])]" "[]" "\<lambda>n. []" sink
      "\<lambda>_. Addr4 [9, 9, 9, 9]" id "[]"]
  show ?thesis by (auto simp: addressable_examples(3,4) trojan_source_examples simp del: tp_ReadAll.simps tp_WriteAll.simps)
qed

subsection \<open>Reading never loses the framing\<close>

text \<open>
  C12: A datagram that cannot be delivered costs only itself. Whatever the size of the caller's slice and whatever the resolver
  does, one \<open>ReadFrom\<close> consumes exactly one frame: it delivers the payload with its source, or reports that the
  datagram was dropped because the slice is too small, filling it all the same, or returns the resolver's error; the next
  read starts at the next frame in each case.
\<close>

theorem trojan_ReadFrom_framed:
  assumes "tc_settled (tp_conn pc)" "tc_in (tp_conn pc) = trojan_frame m data @ rest" "tm_sendable m" "length data \<le> 65535"
  shows "\<exists>res pc'. tp_ReadFrom fresh wr resolve rng ts pc p = (res, go_copy p data, pc') \<and>
    tp_conn pc' = (tp_conn pc)\<lparr>tc_in := rest\<rparr> \<and>
    ((\<exists>addr. fst (DomainIpMapping resolve rng ts (tm_received new_TrojanMetadata m) (Some (domainIpMapping pc))) = Inr addr \<and>
        res = (if length data \<le> length p then (length data, addr, None) else (length p, addr, Some DatagramDropped))) \<or>
     (\<exists>e. fst (DomainIpMapping resolve rng ts (tm_received new_TrojanMetadata m) (Some (domainIpMapping pc))) = Inl e \<and>
        res = (0, noAddrPort, Some e)))"
proof -
  obtain r cache where d: "DomainIpMapping resolve rng ts (tm_received new_TrojanMetadata m) (Some (domainIpMapping pc)) = (r, cache)"
    by fastforce
  show ?thesis using tp_ReadFrom_frame [OF assms d, of fresh wr p] d by (cases r) auto
qed

theorem trojan_ReadFrom_framed_witness:
  "\<exists>pc'. tp_ReadFrom (\<lambda>n. []) sink (\<lambda>_. Inl EOF) id (0, 0, 0)
      (new_packet_conn (NewTrojanConn (trojan_frame example_dest [1, 2] @ [5]) [] example_dest [])) [0] =
      ((0, noAddrPort, Some (Err ''datapath domain resolution failed: %s: %w'')), [1], pc') \<and>
    tc_in (tp_conn pc') = [5]"
proof -
  let ?pc = "new_packet_conn (NewTrojanConn (trojan_frame example_dest [1, 2] @ [5]) [] example_dest [])"
  have c: "tc_settled (tp_conn ?pc)" "tc_in (tp_conn ?pc) = trojan_frame example_dest [1, 2] @ [5]" "tm_sendable example_dest"
    and d: "fst (DomainIpMapping (\<lambda>_. Inl EOF) id (0, 0, 0) (tm_received new_TrojanMetadata example_dest) (Some (domainIpMapping ?pc))) =
       Inl (Err ''datapath domain resolution failed: %s: %w'')"
    by (simp_all add: new_packet_conn_def NewTrojanConn_def tc_settled_def tm_sendable_def DomainIpMapping_def loadDomainIP_def
        tm_received_def)
  have "length [1 :: byte, 2] \<le> 65535" by simp
  from trojan_ReadFrom_framed [OF c this, of "\<lambda>n. []" sink "\<lambda>_. Inl EOF" id "(0, 0, 0)" "[0]"]
  show ?thesis unfolding d by (elim exE conjE disjE) (simp_all add: go_copy_def)
qed

subsection \<open>Destinations that do not fit\<close>

lemma tm_PackTo_no_ip:
  assumes "md_Type m = MetadataTypeIPv6" "net_ParseIP (md_Hostname m) = None"
  shows "tm_PackTo m dst = None"
  using assms by (simp add: tm_PackTo_def split: Option.bind_split)

text \<open>
  C37: Writing to an IPv6 address with a zone, which the destination parser accepts, panics: \<open>PackTo\<close> slices the nil result of
  \<open>net.ParseIP\<close>. No state of the connection, no payload and no transport avoids it.
\<close>

theorem trojan_zone_panics:
  assumes "ParseMetadata addr = Inr m" "netip_Zone (md_IP m) \<noteq> []" "target_ok (writeTarget pc)"
  shows "tp_WriteTo fresh wr pc p addr = None"
proof -
  obtain t where t: "metadataForAddr (writeTarget pc) addr = (Inr m, t)" using metadataForAddr_ok [OF assms(3,1)] by blast
  from assms(1) have "md_Type m = MetadataTypeIPv6 \<and> net_ParseIP (md_Hostname m) = None"
  proof (cases rule: ParseMetadata_cases)
    case (addr a)
    then show ?thesis using assms(2) by (cases a) (simp_all add: net_ParseIP_def)
  next
    case domain
    then show ?thesis using assms(2) by simp
  qed
  then have "tm_PackTo (udp_metadata m) b = None" for b by (intro tm_PackTo_no_ip) simp_all
  then have "trojan_SealUDP (udp_metadata m) p b = None" for b by (simp add: trojan_SealUDP_def Let_def split: Option.bind_split)
  then show ?thesis by (simp add: tp_WriteTo_def t Let_def split: prod.split)
qed

theorem trojan_zone_panics_witness:
  "tp_WriteTo (\<lambda>n. replicate n 0) sink (new_packet_conn (NewTrojanConn [] [] example_dest (replicate 56 7))) [1] ''[::1%eth0]:443'' = None"
proof -
  have s: "net_SplitHostPort ''[::1%eth0]:443'' = Some (''::1%eth0'', ''443'')"
    "netip_ParseAddr ''::1%eth0'' = Some (Addr6 (replicate 15 0 @ [1]) ''eth0'')"
    by code_simp+
  then obtain m where "ParseMetadata ''[::1%eth0]:443'' = Inr m" "netip_Zone (md_IP m) \<noteq> []"
    by (simp add: ParseMetadata_def port_443)
  then show ?thesis by (rule trojan_zone_panics) (simp add: new_packet_conn_def target_ok_def)
qed

text \<open>
  C38: A domain of 254 bytes is packed over its own header: the position of the port is computed in a byte and wraps to zero, so
  the port overwrites the type and the length, its old place keeps whatever the slice held, and the count that is returned depends on the port. The decoder,
  in contrast, accepts domains of up to 255 bytes.
\<close>

theorem trojan_domain_254:
  assumes "md_Type m = MetadataTypeDomain" "length (md_Hostname m) = 254" "length dst = tm_Len m"
  shows "tm_PackTo m dst =
      Some (4 + unat (put_u16 (md_Port m) ! 1), put_u16 (md_Port m) @ map byte_of (md_Hostname m) @ drop 256 dst) \<and>
    tm_Unpack stream_ReadFull m0 (tm_enc m @ rest) = (Inr (258, tm_received m0 m), rest)"
proof -
  let ?h = "map byte_of (md_Hostname m)"
  obtain x y d where d: "dst = x # y # d" "length d = 256"
    using assms by (cases dst; cases "tl dst") (auto simp: tm_Len_def)
  have 1: "copy_at ([3, 254] @ d) 2 ?h = Some (length ?h, [3, 254] @ ?h @ drop (length ?h) d)"
    using d assms(2) by (intro copy_at_front) simp_all
  have 2: "put_at (3 # 254 # ?h @ drop 254 d) 0 (put_u16 (md_Port m)) = Some (put_u16 (md_Port m) @ ?h @ drop 254 d)"
    by (simp add: put_at_def put_u16_def)
  have 3: "put_at (3 # y # d) 1 [254] = Some (3 # 254 # d)" by (simp add: put_at_def)
  have "tm_PackTo m dst =
      Some (4 + unat (put_u16 (md_Port m) ! 1), put_u16 (md_Port m) @ map byte_of (md_Hostname m) @ drop 256 dst)"
    using 1 2 3 assms(1,2) d
    by (simp add: tm_PackTo_def put_at_first trojan_MetadataTypeToByte_def nth_append put_u16_def drop_Cons')
  moreover have "tm_Unpack stream_ReadFull m0 (tm_enc m @ rest) = (Inr (tm_Len m, tm_received m0 m), rest)"
    using assms(1,2) by (intro stream.Unpack_enc) (simp_all add: tm_sendable_def)
  ultimately show ?thesis using assms(1,2) by (simp add: tm_Len_def)
qed

theorem trojan_domain_254_witness:
  "\<exists>n b. tm_PackTo (example_dest\<lparr>md_Hostname := replicate 254 (CHR ''a'')\<rparr>) (replicate 258 0) = Some (n, b) \<and>
     n = 4 + unat (put_u16 443 ! 1) \<and> take 2 b = put_u16 443"
  using trojan_domain_254 [of "example_dest\<lparr>md_Hostname := replicate 254 (CHR ''a'')\<rparr>" "replicate 258 0"
      new_TrojanMetadata "[]"]
  by (simp add: tm_Len_def)

text \<open>A datagram of 65536 bytes, which \<open>WriteTo\<close> does not refuse, announces no payload at all.\<close>

lemma trojan_frame_oversize: "length data = 65536 \<Longrightarrow> trojan_frame m data = tm_enc m @ [0, 0] @ CRLF @ data"
  by (simp add: trojan_frame_def put_u16_def)

end
