(* ===== verification/ReplayWindow.thy ===== *)
theory ReplayWindow
  imports Prelude
begin

unbundle bit_operations_syntax

section \<open>The replay window of Shadowsocks 2022\<close>

text \<open>
  Models the \<open>SlidingWindowFilter\<close> of \<open>ciphers/aead_2022_cipher.go\<close>: a bitmap of 64-bit words in which bit \<open>d\<close> records whether the packet
  \<open>latest - d\<close> was seen. Packet numbers, distances and the window size keep their 64 bits; an index out of the
  bitmap is a panic, \<open>None\<close>. The mutex makes calls one at a time. The theory refines the bitmap to the set
  of the packet numbers accepted so far, whatever the distance a packet moves the window by.
\<close>

record SlidingWindowFilter =
  window :: "64 word list"
  windowSize :: "64 word"
  latest :: "64 word"
  initialized :: bool

text \<open>The argument is an \<open>int\<close> of 64 bits; \<open>make\<close> panics when the rounding up overflows to a negative count.\<close>

definition NewSlidingWindowFilter :: "int \<Rightarrow> SlidingWindowFilter option" where
  "NewSlidingWindowFilter size0 =
     (let sz = (if size0 \<le> 0 then 1024 else size0);
          rounded = (if sz + 63 < 2 ^ 63 then sz + 63 else sz + 63 - 2 ^ 64);
          wordCount = go_quot rounded 64 in
      if wordCount < 0 then None
      else Some \<lparr>window = replicate (nat wordCount) 0, windowSize = word_of_int sz, latest = 0, initialized = False\<rparr>)"

definition sw_getBit :: "SlidingWindowFilter \<Rightarrow> 64 word \<Rightarrow> bool option" where
  "sw_getBit f index = do {
     w \<leftarrow> go_index (window f) (unat (index div 64));
     Some (w AND push_bit (unat (index mod 64)) 1 \<noteq> 0) }"

definition sw_setBit :: "SlidingWindowFilter \<Rightarrow> 64 word \<Rightarrow> SlidingWindowFilter option" where
  "sw_setBit f index = do {
     w \<leftarrow> go_index (window f) (unat (index div 64));
     Some (f\<lparr>window := (window f)[unat (index div 64) := w OR push_bit (unat (index mod 64)) 1]\<rparr>) }"

text \<open>The loops of \<open>shiftWindow\<close> that run down the bitmap in place: the first argument is one more than the loop's index.\<close>

primrec sw_shift_words :: "nat \<Rightarrow> nat \<Rightarrow> 64 word list \<Rightarrow> 64 word list" where
  "sw_shift_words 0 k w = w"
| "sw_shift_words (Suc i) k w = (if k \<le> i then sw_shift_words i k (w[i := w ! (i - k)]) else w)"

primrec sw_zero_words :: "nat \<Rightarrow> 64 word list \<Rightarrow> 64 word list option" where
  "sw_zero_words 0 w = Some w"
| "sw_zero_words (Suc i) w = do {
     w' \<leftarrow> sw_zero_words i w;
     if i < length w' then Some (w'[i := 0]) else None }"

primrec sw_shift_bits :: "nat \<Rightarrow> nat \<Rightarrow> 64 word list \<Rightarrow> 64 word list" where
  "sw_shift_bits 0 b w = w"
| "sw_shift_bits (Suc i) b w =
     (if 0 < i then sw_shift_bits i b (w[i := push_bit b (w ! i) OR drop_bit (64 - b) (w ! (i - 1))]) else w)"

definition sw_shiftWindow :: "SlidingWindowFilter \<Rightarrow> 64 word \<Rightarrow> SlidingWindowFilter option" where
  "sw_shiftWindow f shift =
     (if shift \<ge> windowSize f then Some (f\<lparr>window := map (\<lambda>_. 0) (window f)\<rparr>)
      else do {
        let wordShift = unat (shift div 64);
        let bitShift = unat (shift mod 64);
        w1 \<leftarrow> (if wordShift > 0 then sw_zero_words wordShift (sw_shift_words (length (window f)) wordShift (window f))
               else Some (window f));
        w2 \<leftarrow> (if bitShift > 0 then do {
                 let w = sw_shift_bits (length w1) bitShift w1;
                 w0 \<leftarrow> go_index w 0;
                 Some (w[0 := push_bit bitShift w0]) }
               else Some w1);
        Some (f\<lparr>window := w2\<rparr>) })"

definition CheckAndUpdate :: "SlidingWindowFilter \<Rightarrow> 64 word \<Rightarrow> (bool \<times> SlidingWindowFilter) option" where
  "CheckAndUpdate f packetID =
     (if \<not> initialized f then do {
        g \<leftarrow> sw_setBit (f\<lparr>initialized := True, latest := packetID\<rparr>) 0;
        Some (True, g) }
      else if packetID > latest f then do {
        g \<leftarrow> sw_shiftWindow f (packetID - latest f);
        g \<leftarrow> sw_setBit (g\<lparr>latest := packetID\<rparr>) 0;
        Some (True, g) }
      else
        let distance = latest f - packetID in
        if distance \<ge> windowSize f then Some (False, f)
        else do {
          seen \<leftarrow> sw_getBit f distance;
          if seen then Some (False, f)
          else do {
            g \<leftarrow> sw_setBit f distance;
            Some (True, g) } })"

subsection \<open>The bitmap as a set of distances\<close>

definition sw_bit :: "64 word list \<Rightarrow> nat \<Rightarrow> bool" where
  "sw_bit w d \<longleftrightarrow> bit (w ! (d div 64)) (d mod 64)"

lemma getBit_ok:
  "unat i < 64 * length (window f) \<Longrightarrow> sw_getBit f i = Some (sw_bit (window f) (unat i))"
  by (simp add: sw_getBit_def sw_bit_def and_exp_eq_0_iff_not_bit unat_div_distrib unat_mod_distrib less_mult_imp_div_less mult.commute)

lemma setBit_ok:
  assumes "unat i < 64 * length (window f)"
  shows "\<exists>w. sw_setBit f i = Some (f\<lparr>window := w\<rparr>) \<and> length w = length (window f) \<and>
    (\<forall>d. d < 64 * length w \<longrightarrow> sw_bit w d = (d = unat i \<or> sw_bit (window f) d))"
proof -
  let ?k = "unat i div 64" and ?m = "unat i mod 64"
  let ?w = "(window f)[?k := window f ! ?k OR push_bit ?m 1]"
  have k: "?k < length (window f)" using assms by (simp add: less_mult_imp_div_less mult.commute)
  have "sw_setBit f i = Some (f\<lparr>window := ?w\<rparr>)"
    using k by (simp add: sw_setBit_def unat_div_distrib unat_mod_distrib)
  moreover have "sw_bit ?w d = (d = unat i \<or> sw_bit (window f) d)" if "d < 64 * length (window f)" for d
  proof (cases "d div 64 = ?k")
    case True
    then have "d = unat i \<longleftrightarrow> d mod 64 = ?m" by (metis div_mult_mod_eq)
    with True k show ?thesis by (auto simp: sw_bit_def bit_simps)
  next
    case False
    then show ?thesis by (auto simp: sw_bit_def)
  qed
  ultimately show ?thesis by (intro exI [of _ ?w]) simp
qed

subsection \<open>Shifting the bitmap\<close>

lemma length_shift_words [simp]: "length (sw_shift_words i k w) = length w"
  by (induction i arbitrary: w) auto

lemma shift_words_nth:
  "i \<le> length w \<Longrightarrow> j < length w \<Longrightarrow> sw_shift_words i k w ! j = (if k \<le> j \<and> j < i then w ! (j - k) else w ! j)"
proof (induction i arbitrary: w)
  case (Suc i)
  then show ?case by (cases "k = 0") (auto simp: nth_list_update less_Suc_eq)
qed simp

lemma zero_words_ok:
  "k \<le> length w \<Longrightarrow> \<exists>w'. sw_zero_words k w = Some w' \<and> length w' = length w \<and>
     (\<forall>j < length w. w' ! j = (if j < k then 0 else w ! j))"
proof (induction k)
  case (Suc k)
  then obtain w' where "sw_zero_words k w = Some w'" "length w' = length w"
      "\<forall>j < length w. w' ! j = (if j < k then 0 else w ! j)" by auto
  with Suc.prems show ?case by (auto simp: nth_list_update)
qed simp

lemma length_shift_bits [simp]: "length (sw_shift_bits i b w) = length w"
  by (induction i arbitrary: w) auto

lemma shift_bits_nth:
  "i \<le> length w \<Longrightarrow> j < length w \<Longrightarrow> sw_shift_bits i b w ! j =
     (if 0 < j \<and> j < i then push_bit b (w ! j) OR drop_bit (64 - b) (w ! (j - 1)) else w ! j)"
proof (induction i arbitrary: w)
  case (Suc i)
  then show ?case by (auto simp: nth_list_update less_Suc_eq)
qed simp

lemma sw_bit_words:
  assumes "\<forall>j < n. w' ! j = (if j < k then 0 else w ! (j - k))" "d < 64 * n"
  shows "sw_bit w' d = (64 * k \<le> d \<and> sw_bit w (d - 64 * k))"
proof -
  have "d div 64 < n" using assms(2) by (simp add: less_mult_imp_div_less mult.commute)
  moreover have "64 * k \<le> d \<longleftrightarrow> k \<le> d div 64" by (simp add: less_eq_div_iff_mult_less_eq mult.commute)
  moreover have "(d - 64 * k) div 64 = d div 64 - k" "(d - 64 * k) mod 64 = d mod 64" if "64 * k \<le> d"
    using that by (auto simp: le_iff_add)
  ultimately show ?thesis using assms(1) by (auto simp: sw_bit_def)
qed

lemma sw_bit_bits:
  assumes "\<forall>j < n. w' ! j = (if j = 0 then push_bit b (w ! 0) else push_bit b (w ! j) OR drop_bit (64 - b) (w ! (j - 1)))"
    "0 < b" "b < 64" "d < 64 * n"
  shows "sw_bit w' d = (b \<le> d \<and> sw_bit w (d - b))"
proof -
  define i m where "i = d div 64" and "m = d mod 64"
  then have d: "d = 64 * i + m" "m < 64" "i < n" using assms(4) by (auto simp: less_mult_imp_div_less mult.commute)
  show ?thesis
  proof (cases "b \<le> m")
    case True
    then have "d - b = 64 * i + (m - b)" using d(1) by simp
    with d have "sw_bit w (d - b) = bit (w ! i) (m - b)" by (simp add: sw_bit_def)
    moreover have "\<not> bit (x :: 64 word) (m + (64 - b))" for x using True assms(3) bit_imp_le_length [of x] by fastforce
    ultimately show ?thesis using d assms(1) True
      by (cases "i = 0") (auto simp: sw_bit_def bit_simps ac_simps)
  next
    case False
    show ?thesis
    proof (cases "i = 0")
      case True
      with False d assms(1) show ?thesis by (auto simp: sw_bit_def bit_simps)
    next
      case False
      then have "d - b = 64 * (i - 1) + (m + (64 - b))" using d(1) \<open>\<not> b \<le> m\<close> assms(3) by (cases i) auto
      moreover have "m + (64 - b) < 64" using \<open>\<not> b \<le> m\<close> assms(3) by simp
      ultimately have "sw_bit w (d - b) = bit (w ! (i - 1)) (m + (64 - b))" by (simp add: sw_bit_def)
      with False \<open>\<not> b \<le> m\<close> d assms(1,3) show ?thesis by (auto simp: sw_bit_def bit_simps ac_simps)
    qed
  qed
qed

lemma shiftWindow_ok:
  assumes "unat (windowSize f) \<le> 64 * length (window f)"
  shows "\<exists>w. sw_shiftWindow f s = Some (f\<lparr>window := w\<rparr>) \<and> length w = length (window f) \<and>
    (\<forall>d < unat (windowSize f). sw_bit w d = (unat s \<le> d \<and> sw_bit (window f) (d - unat s)))"
proof (cases "s \<ge> windowSize f")
  case True
  have "\<not> sw_bit (map (\<lambda>_. 0) (window f)) d" if "d < unat (windowSize f)" for d
    using that assms by (simp add: sw_bit_def less_mult_imp_div_less mult.commute)
  with True show ?thesis by (auto simp: sw_shiftWindow_def word_le_nat_alt)
next
  case False
  let ?w = "window f" and ?n = "length (window f)"
  let ?k = "unat s div 64" and ?b = "unat s mod 64"
  have s: "unat s < unat (windowSize f)" using False by (simp add: word_le_nat_alt)
  then have k: "?k < ?n" using assms by (simp add: less_mult_imp_div_less mult.commute)
  obtain w1 where w1: "(if ?k > 0 then sw_zero_words ?k (sw_shift_words ?n ?k ?w) else Some ?w) = Some w1" "length w1 = ?n"
      "\<forall>j < ?n. w1 ! j = (if j < ?k then 0 else ?w ! (j - ?k))"
    using zero_words_ok [of ?k "sw_shift_words ?n ?k ?w"] k
    by (cases "?k = 0") (auto simp: shift_words_nth)
  define w2 where "w2 = (if ?b > 0 then (sw_shift_bits ?n ?b w1)[0 := push_bit ?b (sw_shift_bits ?n ?b w1 ! 0)] else w1)"
  have "0 < length (sw_shift_bits ?n ?b w1)" using k w1(2) by auto
  then have "go_index (sw_shift_bits ?n ?b w1) 0 = Some (sw_shift_bits ?n ?b w1 ! 0)" by (rule go_index_Some)
  then have step: "sw_shiftWindow f s = Some (f\<lparr>window := w2\<rparr>)" "length w2 = ?n"
    using False w1 k by (auto simp: sw_shiftWindow_def Let_def unat_div_distrib unat_mod_distrib w2_def)
  have bits: "sw_bit w2 d = (?b \<le> d \<and> sw_bit w1 (d - ?b))" if "d < 64 * ?n" for d
  proof (cases "?b > 0")
    case True
    have "\<forall>j < ?n. w2 ! j = (if j = 0 then push_bit ?b (w1 ! 0) else push_bit ?b (w1 ! j) OR drop_bit (64 - ?b) (w1 ! (j - 1)))"
      using True w1(2) by (auto simp: w2_def nth_list_update shift_bits_nth)
    with True that show ?thesis by (intro sw_bit_bits) simp_all
  qed (simp add: w2_def)
  have "sw_bit w2 d = (unat s \<le> d \<and> sw_bit ?w (d - unat s))" if "d < unat (windowSize f)" for d
  proof -
    have d: "d < 64 * ?n" using that assms by simp
    have "unat s = 64 * ?k + ?b" by simp
    then have "unat s \<le> d \<longleftrightarrow> ?b \<le> d \<and> 64 * ?k \<le> d - ?b" "d - unat s = d - ?b - 64 * ?k" by linarith+
    moreover have "sw_bit w1 (d - ?b) = (64 * ?k \<le> d - ?b \<and> sw_bit ?w (d - ?b - 64 * ?k))"
      using sw_bit_words [OF w1(3), of "d - ?b"] d by simp
    ultimately show ?thesis using bits [OF d] by auto
  qed
  with step show ?thesis by blast
qed

subsection \<open>The filter as a set of packet numbers\<close>

definition sw_rep :: "SlidingWindowFilter \<Rightarrow> nat set \<Rightarrow> bool" where
  "sw_rep f S \<longleftrightarrow>
     0 < windowSize f \<and> unat (windowSize f) \<le> 64 * length (window f) \<and> finite S \<and>
     (if S = {} then \<not> initialized f \<and> (\<forall>d < unat (windowSize f). \<not> sw_bit (window f) d)
      else initialized f \<and> unat (latest f) = Max S \<and>
        (\<forall>d < unat (windowSize f). sw_bit (window f) d = (d \<le> Max S \<and> Max S - d \<in> S)))"

definition sw_accepts :: "nat \<Rightarrow> nat set \<Rightarrow> nat \<Rightarrow> bool" where
  "sw_accepts n S x \<longleftrightarrow> S = {} \<or> Max S < x \<or> (Max S < x + n \<and> x \<notin> S)"

lemma Max_insert_le: "finite S \<Longrightarrow> S \<noteq> {} \<Longrightarrow> x \<le> Max S \<Longrightarrow> Max (insert x S) = (Max S :: nat)"
  by (simp add: max_def)

lemma Max_insert_gt: "finite S \<Longrightarrow> Max S < x \<Longrightarrow> Max (insert x S) = (x :: nat)"
  by (cases "S = {}") (auto intro!: Max_eqI dest: Max_ge)

lemma CheckAndUpdate_first:
  assumes "sw_rep f {}"
  shows "\<exists>g. CheckAndUpdate f x = Some (True, g) \<and> windowSize g = windowSize f \<and> sw_rep g {unat x}"
proof -
  from assms have f: "\<not> initialized f" "0 < windowSize f" "unat (windowSize f) \<le> 64 * length (window f)"
    "\<forall>d < unat (windowSize f). \<not> sw_bit (window f) d" by (simp_all add: sw_rep_def)
  let ?f = "f\<lparr>initialized := True, latest := x\<rparr>"
  have "unat (0 :: 64 word) < 64 * length (window ?f)" using f(2,3) by (auto simp: word_less_nat_alt)
  then obtain w where w: "sw_setBit ?f 0 = Some (?f\<lparr>window := w\<rparr>)" "length w = length (window f)"
      "\<forall>d. d < 64 * length w \<longrightarrow> sw_bit w d = (d = 0 \<or> sw_bit (window f) d)"
    using setBit_ok [of 0 ?f] by auto
  have "sw_bit w d = (d \<le> unat x \<and> unat x - d = unat x)" if "d < unat (windowSize f)" for d
    using that f w by auto
  with f w show ?thesis by (auto simp: CheckAndUpdate_def sw_rep_def)
qed

lemma CheckAndUpdate_newer:
  assumes "sw_rep f S" "S \<noteq> {}" "Max S < unat x"
  shows "\<exists>g. CheckAndUpdate f x = Some (True, g) \<and> windowSize g = windowSize f \<and> sw_rep g (insert (unat x) S)"
proof -
  from assms have f: "initialized f" "0 < windowSize f" "unat (windowSize f) \<le> 64 * length (window f)" "finite S"
    "unat (latest f) = Max S" "\<And>d. d < unat (windowSize f) \<Longrightarrow> sw_bit (window f) d = (d \<le> Max S \<and> Max S - d \<in> S)"
    by (simp_all add: sw_rep_def)
  have lt: "latest f < x" using assms(3) f(5) by (simp add: word_less_nat_alt)
  then have sh: "unat (x - latest f) = unat x - Max S" using f(5) by (simp add: unat_sub)
  obtain w where w: "sw_shiftWindow f (x - latest f) = Some (f\<lparr>window := w\<rparr>)" "length w = length (window f)"
      "\<forall>d < unat (windowSize f). sw_bit w d = (unat x - Max S \<le> d \<and> sw_bit (window f) (d - (unat x - Max S)))"
    using shiftWindow_ok [OF f(3), of "x - latest f"] sh by auto
  let ?f = "f\<lparr>window := w, latest := x\<rparr>"
  have "unat (0 :: 64 word) < 64 * length (window ?f)" using f(2,3) w(2) by (auto simp: word_less_nat_alt)
  then obtain w' where w': "sw_setBit ?f 0 = Some (?f\<lparr>window := w'\<rparr>)" "length w' = length w"
      "\<forall>d. d < 64 * length w' \<longrightarrow> sw_bit w' d = (d = 0 \<or> sw_bit w d)"
    using setBit_ok [of 0 ?f] by auto
  have le: "y \<le> Max S" if "y \<in> S" for y using that f(4) by simp
  have "sw_bit w' d = (d \<le> unat x \<and> unat x - d \<in> insert (unat x) S)" if d: "d < unat (windowSize f)" for d
  proof -
    have "sw_bit w' d = (d = 0 \<or> unat x - Max S \<le> d \<and> sw_bit (window f) (d - (unat x - Max S)))"
      using d f(3) w w' by simp
    also have "\<dots> = (d = 0 \<or> unat x - Max S \<le> d \<and> d \<le> unat x \<and> unat x - d \<in> S)"
      using f(6) [of "d - (unat x - Max S)"] d assms(3) by (auto simp: le_diff_conv)
    also have "\<dots> = (d \<le> unat x \<and> unat x - d \<in> insert (unat x) S)"
      using le [of "unat x - d"] by auto
    finally show ?thesis .
  qed
  with f w w' lt assms(3) Max_insert_gt [OF f(4) assms(3)] show ?thesis by (auto simp: CheckAndUpdate_def sw_rep_def)
qed

lemma CheckAndUpdate_older:
  assumes "sw_rep f S" "S \<noteq> {}" "unat x \<le> Max S"
  shows "\<exists>g. CheckAndUpdate f x = Some (sw_accepts (unat (windowSize f)) S (unat x), g) \<and> windowSize g = windowSize f \<and>
    sw_rep g (if sw_accepts (unat (windowSize f)) S (unat x) then insert (unat x) S else S)"
proof -
  from assms have f: "initialized f" "0 < windowSize f" "unat (windowSize f) \<le> 64 * length (window f)" "finite S"
    "unat (latest f) = Max S" "\<And>d. d < unat (windowSize f) \<Longrightarrow> sw_bit (window f) d = (d \<le> Max S \<and> Max S - d \<in> S)"
    by (simp_all add: sw_rep_def)
  have le: "x \<le> latest f" using assms(3) f(5) by (simp add: word_le_nat_alt)
  then have dist: "unat (latest f - x) = Max S - unat x" using f(5) by (simp add: unat_sub)
  have acc: "sw_accepts (unat (windowSize f)) S (unat x) \<longleftrightarrow> Max S - unat x < unat (windowSize f) \<and> unat x \<notin> S"
    using assms(2,3) by (auto simp: sw_accepts_def)
  show ?thesis
  proof (cases "Max S - unat x < unat (windowSize f)")
    case False
    with acc dist le f assms(1) show ?thesis by (simp add: CheckAndUpdate_def word_le_nat_alt word_less_nat_alt Let_def)
  next
    case True
    then have i: "unat (latest f - x) < 64 * length (window f)" using f(3) dist by simp
    have seen: "sw_getBit f (latest f - x) = Some (unat x \<in> S)"
      using getBit_ok [OF i] f(6) [OF True] assms(3) dist by simp
    have run: "CheckAndUpdate f x = (if unat x \<in> S then Some (False, f)
        else Option.bind (sw_setBit f (latest f - x)) (\<lambda>g. Some (True, g)))"
      using True le f(1) dist seen by (simp add: CheckAndUpdate_def word_le_nat_alt word_less_nat_alt Let_def)
    obtain w where w: "sw_setBit f (latest f - x) = Some (f\<lparr>window := w\<rparr>)" "length w = length (window f)"
        "\<forall>d. d < 64 * length w \<longrightarrow> sw_bit w d = (d = Max S - unat x \<or> sw_bit (window f) d)"
      using setBit_ok [OF i] dist by auto
    have "sw_bit w d = (d \<le> Max S \<and> Max S - d \<in> insert (unat x) S)" if "d < unat (windowSize f)" for d
      using that w f(3,6) assms(3) by auto
    with run w f acc True assms Max_insert_le [OF f(4) assms(2,3)] show ?thesis
      by (cases "unat x \<in> S") (simp_all add: sw_rep_def)
  qed
qed

lemma CheckAndUpdate_ok:
  assumes "sw_rep f S"
  shows "\<exists>g. CheckAndUpdate f x = Some (sw_accepts (unat (windowSize f)) S (unat x), g) \<and> windowSize g = windowSize f \<and>
    sw_rep g (if sw_accepts (unat (windowSize f)) S (unat x) then insert (unat x) S else S)"
proof -
  consider "S = {}" | "S \<noteq> {}" "Max S < unat x" | "S \<noteq> {}" "unat x \<le> Max S" by linarith
  then show ?thesis
  proof cases
    case 1
    with CheckAndUpdate_first [of f x] assms show ?thesis by (simp add: sw_accepts_def)
  next
    case 2
    with CheckAndUpdate_newer [OF assms 2] show ?thesis by (simp add: sw_accepts_def)
  next
    case 3
    with CheckAndUpdate_older [OF assms 3] show ?thesis by blast
  qed
qed

subsection \<open>Sequences of packets\<close>

primrec sw_run :: "SlidingWindowFilter \<Rightarrow> 64 word list \<Rightarrow> bool list option" where
  "sw_run f [] = Some []"
| "sw_run f (x # xs) = do {
     (ok, g) \<leftarrow> CheckAndUpdate f x;
     oks \<leftarrow> sw_run g xs;
     Some (ok # oks) }"

text \<open>The packets that were accepted.\<close>

definition accepted :: "64 word list \<Rightarrow> bool list \<Rightarrow> 64 word list" where
  "accepted xs oks = map fst (filter snd (zip xs oks))"

lemma accepted_simps [simp]:
  "accepted [] oks = []" "accepted (x # xs) (ok # oks) = (if ok then x # accepted xs oks else accepted xs oks)"
  by (simp_all add: accepted_def)

lemma sw_rep_new:
  assumes "0 < n" "n < 2 ^ 63 - 63"
  shows "\<exists>f. NewSlidingWindowFilter n = Some f \<and> windowSize f = word_of_int n \<and> sw_rep f {}"
proof -
  have w: "unat (word_of_int n :: 64 word) = nat n" using assms by (simp add: unat_eq_nat_uint uint_word_of_int)
  have "nat n \<le> 64 * nat ((n + 63) div 64)" using assms by linarith
  moreover have "\<not> sw_bit (replicate (nat ((n + 63) div 64)) 0) d" if "d < nat n" for d
    using that calculation by (simp add: sw_bit_def less_mult_imp_div_less mult.commute)
  moreover have "(0 :: 64 word) < word_of_int n" using assms w by (simp add: word_less_nat_alt)
  ultimately show ?thesis using assms w by (auto simp: NewSlidingWindowFilter_def sw_rep_def Let_def)
qed

lemma sw_accepts_new: "finite S \<Longrightarrow> sw_accepts n S x \<Longrightarrow> x \<notin> S"
  by (auto simp: sw_accepts_def dest: Max_ge)

lemma sw_run_ok:
  "sw_rep f S \<Longrightarrow> \<exists>oks. sw_run f xs = Some oks \<and> length oks = length xs \<and> distinct (accepted xs oks) \<and>
     (\<forall>x \<in> set (accepted xs oks). unat x \<notin> S) \<and>
     (\<forall>i < length xs. xs ! i \<notin> set (take i xs) \<and> unat (xs ! i) \<notin> S \<and>
        (\<forall>y \<in> unat ` set (take i xs) \<union> S. y < unat (xs ! i) + unat (windowSize f)) \<longrightarrow> oks ! i)"
proof (induction xs arbitrary: f S)
  case (Cons x xs)
  let ?W = "unat (windowSize f)"
  define ok where "ok = sw_accepts ?W S (unat x)"
  define S' where "S' = (if ok then insert (unat x) S else S)"
  have fin: "finite S" using Cons.prems by (simp add: sw_rep_def)
  obtain g where g: "CheckAndUpdate f x = Some (ok, g)" "windowSize g = windowSize f" "sw_rep g S'"
    using CheckAndUpdate_ok [OF Cons.prems, of x] by (auto simp: ok_def S'_def)
  obtain oks where oks: "sw_run g xs = Some oks" "length oks = length xs" "distinct (accepted xs oks)"
      "\<forall>y \<in> set (accepted xs oks). unat y \<notin> S'"
      "\<forall>i < length xs. xs ! i \<notin> set (take i xs) \<and> unat (xs ! i) \<notin> S' \<and>
        (\<forall>y \<in> unat ` set (take i xs) \<union> S'. y < unat (xs ! i) + ?W) \<longrightarrow> oks ! i"
    using Cons.IH [OF g(3)] g(2) by auto
  have new: "unat x \<notin> S" if ok using that sw_accepts_new [OF fin] by (simp add: ok_def)
  have first: ok if "unat x \<notin> S" "\<forall>y \<in> S. y < unat x + ?W"
    using that fin by (cases "S = {}") (auto simp: ok_def sw_accepts_def)
  have later: "oks ! i" if "i < length xs" "xs ! i \<notin> set (take i xs)" "xs ! i \<noteq> x" "unat (xs ! i) \<notin> S"
      "\<forall>y \<in> insert (unat x) (unat ` set (take i xs) \<union> S). y < unat (xs ! i) + ?W" for i
  proof -
    have "unat (xs ! i) \<noteq> unat x" using that(3) by (simp add: word_unat_eq_iff)
    then have "unat (xs ! i) \<notin> S'" "\<forall>y \<in> unat ` set (take i xs) \<union> S'. y < unat (xs ! i) + ?W"
      using that(4,5) by (simp_all add: S'_def)
    with oks(5) that(1,2) show ?thesis by blast
  qed
  have "distinct (accepted (x # xs) (ok # oks)) \<and> (\<forall>y \<in> set (accepted (x # xs) (ok # oks)). unat y \<notin> S)"
    using oks(3,4) new by (auto simp: S'_def)
  moreover have "(ok # oks) ! i" if "i < length (x # xs)" "(x # xs) ! i \<notin> set (take i (x # xs))" "unat ((x # xs) ! i) \<notin> S"
      "\<forall>y \<in> unat ` set (take i (x # xs)) \<union> S. y < unat ((x # xs) ! i) + ?W" for i
    using that first later [of "i - 1"] by (cases i) auto
  ultimately show ?case using g(1) oks(1,2) by auto
qed simp

text \<open>
  C10: The bitmap implements the set of the packet numbers accepted so far. A packet is accepted exactly if it is the first, is newer
  than all of them, or lies less than the window behind the newest and was not accepted before; then it is in
  the set. No call panics, and the shift of the bitmap is right for every distance, across words and for a window that is not a multiple of 64.
\<close>

theorem CheckAndUpdate_refines:
  assumes "sw_rep f S"
  shows "\<exists>g. CheckAndUpdate f x = Some (sw_accepts (unat (windowSize f)) S (unat x), g) \<and> windowSize g = windowSize f \<and>
    sw_rep g (if sw_accepts (unat (windowSize f)) S (unat x) then insert (unat x) S else S)"
  using assms by (rule CheckAndUpdate_ok)

definition sw_example :: SlidingWindowFilter where
  "sw_example = \<lparr>window = [0b101, 0], windowSize = 100, latest = 70, initialized = True\<rparr>"

lemma sw_example_rep: "sw_rep sw_example {70, 68}"
proof -
  have "sw_bit [0b101, 0] d = (d \<le> 70 \<and> 70 - d \<in> {70, 68})" if "d < 100" for d
  proof -
    have "\<forall>d \<in> {..<100}. sw_bit [0b101, 0] d = (d \<le> 70 \<and> (70 - d = 70 \<or> 70 - d = 68))" by code_simp
    with that show ?thesis by simp
  qed
  then show ?thesis by (simp add: sw_rep_def sw_example_def)
qed

theorem CheckAndUpdate_refines_witness:
  "\<exists>g. CheckAndUpdate sw_example 135 = Some (True, g) \<and> sw_rep g {135, 70, 68}"
  using CheckAndUpdate_refines [OF sw_example_rep, of 135] by (auto simp: sw_accepts_def)

text \<open>
  C5: Replay protection. Whatever packet numbers arrive at a new filter, in whatever order, no number is accepted twice; and no fresh packet
  is refused that is less than the window behind every earlier one.
\<close>

theorem replay_protection:
  assumes "0 < n" "n < 2 ^ 63 - 63"
  shows "\<exists>f oks. NewSlidingWindowFilter n = Some f \<and> sw_run f xs = Some oks \<and> length oks = length xs \<and>
    distinct (accepted xs oks) \<and>
    (\<forall>i < length xs. xs ! i \<notin> set (take i xs) \<and> (\<forall>y \<in> set (take i xs). uint y < uint (xs ! i) + n) \<longrightarrow> oks ! i)"
proof -
  obtain f where f: "NewSlidingWindowFilter n = Some f" "windowSize f = word_of_int n" "sw_rep f {}"
    using sw_rep_new [OF assms] by blast
  have w: "int (unat (windowSize f)) = n" unfolding f(2) using assms by (simp add: unat_eq_nat_uint uint_word_of_int)
  obtain oks where oks: "sw_run f xs = Some oks" "length oks = length xs" "distinct (accepted xs oks)"
      "\<forall>i < length xs. xs ! i \<notin> set (take i xs) \<and> (\<forall>y \<in> unat ` set (take i xs). y < unat (xs ! i) + unat (windowSize f)) \<longrightarrow> oks ! i"
    using sw_run_ok [OF f(3), of xs] by auto
  have "unat y < unat x + unat (windowSize f)" if "uint y < uint x + n" for x y :: "64 word"
    using that unfolding w [symmetric] by (metis of_nat_add of_nat_less_iff uint_nat)
  then have "oks ! i" if "i < length xs" "xs ! i \<notin> set (take i xs)" "\<forall>y \<in> set (take i xs). uint y < uint (xs ! i) + n" for i
    using oks(4) that by blast
  with oks f(1) show ?thesis by (intro exI [of _ f] exI [of _ oks]) simp
qed

theorem replay_protection_witness:
  "\<exists>f oks. NewSlidingWindowFilter 100 = Some f \<and> sw_run f [7, 80, 7, 8, 200] = Some oks \<and>
     distinct (accepted [7, 80, 7, 8, 200] oks)"
  using replay_protection [of 100 "[7, 80, 7, 8, 200]"] by auto

end
