(* ===== verification/UdpHop.thy ===== *)
theory UdpHop
  imports NetAddr "HOL-Library.Product_Lexorder"
begin

section \<open>Port hopping addresses of Hysteria 2\<close>

text \<open>
  Models \<open>protocol/hysteria2/udphop/addr.go\<close>: unions of port ranges, their normal form, and addresses with such a union for a port.
  A nil union is \<open>None\<close>. The resolver of the system is an argument.
\<close>

record PortRange =
  Start :: "16 word"
  End :: "16 word"

type_synonym PortUnion = "PortRange list"

text \<open>The loop body of \<open>Normalize\<close>, which writes through a pointer to the last range; bounds are compared as 32-bit integers, so that 65535 + 1 does not wrap.\<close>

definition pu_add :: "PortUnion \<Rightarrow> PortRange \<Rightarrow> PortUnion" where
  "pu_add normalized current =
     (let l = last normalized in
      if (ucast (Start current) :: 32 word) \<le> ucast (End l) + 1
      then (if End current > End l then butlast normalized @ [l\<lparr>End := End current\<rparr>] else normalized)
      else normalized @ [current])"

text \<open>\<open>sort.Slice\<close> by start, then by end. Ranges that compare equal are equal, so the order it leaves is determined.\<close>

definition pu_Normalize :: "PortUnion \<Rightarrow> PortUnion" where
  "pu_Normalize u =
     (case sort_key (\<lambda>r. (Start r, End r)) u of [] \<Rightarrow> u | r # rs \<Rightarrow> foldl pu_add [r] rs)"

text \<open>The counter of the loop has 32 bits and stops after 65535.\<close>

definition range_ports :: "PortRange \<Rightarrow> 16 word list" where
  "range_ports r = map word_of_nat [unat (Start r)..<Suc (unat (End r))]"

definition pu_Ports :: "PortUnion \<Rightarrow> 16 word list" where
  "pu_Ports u = concat (map range_ports u)"

fun str_Split :: "char \<Rightarrow> string \<Rightarrow> string list" where
  "str_Split c [] = [[]]"
| "str_Split c (x # xs) =
     (if x = c then [] # str_Split c xs
      else case str_Split c xs of [] \<Rightarrow> [[x]] | y # ys \<Rightarrow> (x # y) # ys)"

definition parse_range :: "string \<Rightarrow> PortRange option" where
  "parse_range portStr =
     (if str_Contains portStr (CHR ''-'') then
        (case str_Split (CHR ''-'') portStr of
           [a, b] \<Rightarrow> do {
             start \<leftarrow> ParseUint16 a;
             end \<leftarrow> ParseUint16 b;
             Some (if start > end then \<lparr>Start = end, End = start\<rparr> else \<lparr>Start = start, End = end\<rparr>) }
         | _ \<Rightarrow> None)
      else do {
        port \<leftarrow> ParseUint16 portStr;
        Some \<lparr>Start = port, End = port\<rparr> })"

primrec parse_ranges :: "string list \<Rightarrow> PortUnion \<Rightarrow> PortUnion option" where
  "parse_ranges [] result = Some result"
| "parse_ranges (s # ss) result = do {
     r \<leftarrow> parse_range s;
     parse_ranges ss (result @ [r]) }"

definition ParsePortUnion :: "string \<Rightarrow> PortUnion option" where
  "ParsePortUnion s =
     (if s = ''all'' \<or> s = ''*'' then Some [\<lparr>Start = 0, End = 65535\<rparr>]
      else do {
        result \<leftarrow> parse_ranges (str_Split (CHR '','') s) [];
        if result = [] then None else Some (pu_Normalize result) })"

subsection \<open>Addresses\<close>

record UDPHopAddr =
  Host :: string
  IP :: "bytes option"
  Ports :: "16 word list"
  PortStr :: string

datatype hop_error = SplitError | InvalidPortError string | ResolveError string

definition hostString :: "UDPHopAddr \<Rightarrow> string" where
  "hostString a =
     (if Host a \<noteq> [] then Host a else case IP a of Some ip \<Rightarrow> ip_String ip | None \<Rightarrow> [])"

definition hop_String :: "UDPHopAddr \<Rightarrow> string" where
  "hop_String a = net_JoinHostPort (hostString a) (PortStr a)"

datatype hop_net_addr = UDPAddr bytes "16 word" | hostPortAddr string "16 word"

definition hostPortAddr_String :: "string \<Rightarrow> 16 word \<Rightarrow> string" where
  "hostPortAddr_String host port = net_JoinHostPort host (Itoa (unat port))"

definition hop_addrs :: "UDPHopAddr \<Rightarrow> hop_net_addr list" where
  "hop_addrs a =
     (let host = hostString a; ip = net_ParseIP host in
      map (\<lambda>port. case ip of Some i \<Rightarrow> UDPAddr i port | None \<Rightarrow> hostPortAddr host port) (Ports a))"

definition ParseUDPHopAddr :: "string \<Rightarrow> hop_error + UDPHopAddr" where
  "ParseUDPHopAddr addr =
     (case net_SplitHostPort addr of
        None \<Rightarrow> Inl SplitError
      | Some (host, portStr) \<Rightarrow>
          (case ParsePortUnion portStr of
             None \<Rightarrow> Inl (InvalidPortError portStr)
           | Some pu \<Rightarrow> Inr \<lparr>Host = host, IP = net_ParseIP host, Ports = pu_Ports pu, PortStr = portStr\<rparr>))"

definition ResolveUDPHopAddr :: "(string \<Rightarrow> string + bytes) \<Rightarrow> string \<Rightarrow> hop_error + UDPHopAddr" where
  "ResolveUDPHopAddr resolve addr =
     (case ParseUDPHopAddr addr of
        Inl e \<Rightarrow> Inl e
      | Inr a \<Rightarrow>
          (case IP a of
             Some ip \<Rightarrow> Inr (a\<lparr>Host := ip_String ip\<rparr>)
           | None \<Rightarrow>
               (case resolve (Host a) of
                  Inl e \<Rightarrow> Inl (ResolveError e)
                | Inr ip \<Rightarrow> Inr (a\<lparr>IP := Some ip, Host := ip_String ip\<rparr>))))"

subsection \<open>Normal form\<close>

definition range_set :: "PortRange \<Rightarrow> nat set" where
  "range_set r = {unat (Start r)..unat (End r)}"

definition pu_set :: "PortUnion \<Rightarrow> nat set" where
  "pu_set u = (\<Union>r \<in> set u. range_set r)"

definition pu_valid :: "PortUnion \<Rightarrow> bool" where
  "pu_valid u \<longleftrightarrow> (\<forall>r \<in> set u. Start r \<le> End r)"

text \<open>Sorted, and with a gap between any two ranges.\<close>

definition pu_normal :: "PortUnion \<Rightarrow> bool" where
  "pu_normal u \<longleftrightarrow> pu_valid u \<and> sorted_wrt (\<lambda>a b. unat (End a) + 1 < unat (Start b)) u"

lemma adjacent_iff: "(ucast (a :: 16 word) :: 32 word) \<le> ucast (b :: 16 word) + 1 \<longleftrightarrow> unat a \<le> unat b + 1"
proof -
  have "unat x < 2 ^ 16" for x :: "16 word" using unsigned_less [of x, where ?'a = nat] by simp
  then have cast: "unat (ucast x :: 32 word) = unat x" for x :: "16 word"
    by (simp add: unsigned_ucast_eq take_bit_nat_eq_self order_less_trans [of _ "2 ^ 16"])
  have "unat b < 65536" using unsigned_less [of b, where ?'a = nat] by simp
  then have "unat (ucast b + 1 :: 32 word) = unat b + 1" by (simp add: unat_word_ariths cast)
  then show ?thesis by (simp add: word_le_nat_alt cast)
qed

lemma pu_add_ok:
  assumes "pu_normal (ys @ [l])" "Start l \<le> Start c" "Start c \<le> End c"
  shows "\<exists>zs m. pu_add (ys @ [l]) c = zs @ [m] \<and> pu_normal (zs @ [m]) \<and>
    pu_set (zs @ [m]) = pu_set (ys @ [l]) \<union> range_set c \<and> Start m \<le> Start c"
proof (cases "unat (Start c) \<le> unat (End l) + 1")
  case True
  let ?m = "if End c > End l then l\<lparr>End := End c\<rparr> else l"
  have "pu_add (ys @ [l]) c = ys @ [?m]" using True by (simp add: pu_add_def adjacent_iff)
  moreover have "pu_normal (ys @ [?m])" using assms(1) by (auto simp: pu_normal_def pu_valid_def sorted_wrt_append)
  moreover have "range_set ?m = range_set l \<union> range_set c"
    using True assms(2,3) by (auto simp: range_set_def word_le_nat_alt word_less_nat_alt)
  then have "pu_set (ys @ [?m]) = pu_set (ys @ [l]) \<union> range_set c" by (auto simp: pu_set_def)
  ultimately show ?thesis using assms(2) by (intro exI [of _ ys] exI [of _ ?m]) simp
next
  case False
  then have "pu_add (ys @ [l]) c = (ys @ [l]) @ [c]" by (simp add: pu_add_def adjacent_iff)
  moreover have "Start l \<le> End l" using assms(1) by (simp add: pu_normal_def pu_valid_def)
  then have "pu_normal ((ys @ [l]) @ [c])"
    using assms False by (fastforce simp: pu_normal_def pu_valid_def sorted_wrt_append word_le_nat_alt)
  ultimately show ?thesis by (intro exI [of _ "ys @ [l]"] exI [of _ c]) (auto simp: pu_set_def)
qed

lemma foldl_pu_add_ok:
  "pu_normal (ys @ [l]) \<Longrightarrow> pu_valid rs \<Longrightarrow> sorted (map Start (l # rs)) \<Longrightarrow>
     pu_normal (foldl pu_add (ys @ [l]) rs) \<and> pu_set (foldl pu_add (ys @ [l]) rs) = pu_set (ys @ [l]) \<union> pu_set rs"
proof (induction rs arbitrary: ys l)
  case (Cons c rs)
  then obtain zs m where m: "pu_add (ys @ [l]) c = zs @ [m]" "pu_normal (zs @ [m])"
      "pu_set (zs @ [m]) = pu_set (ys @ [l]) \<union> range_set c" "Start m \<le> Start c"
    using pu_add_ok [of ys l c] by (auto simp: pu_valid_def)
  have "sorted (map Start (m # rs))" using Cons.prems(3) m(4) by fastforce
  with Cons.IH [OF m(2)] Cons.prems(2) m(1,3) show ?case by (auto simp: pu_valid_def pu_set_def)
qed (simp add: pu_set_def)

lemma pu_Normalize_ok:
  assumes "pu_valid u"
  shows "pu_normal (pu_Normalize u) \<and> pu_set (pu_Normalize u) = pu_set u"
proof (cases "sort_key (\<lambda>r. (Start r, End r)) u")
  case Nil
  then have "u = []" by (metis set_empty set_sort)
  then show ?thesis by (simp add: pu_Normalize_def pu_normal_def pu_valid_def)
next
  case (Cons r rs)
  have set: "set u = set (r # rs)" using Cons by (metis set_sort)
  have "sorted (map (\<lambda>r. (Start r, End r)) (r # rs))" using sorted_sort_key [of "\<lambda>r. (Start r, End r)" u] Cons by simp
  then have "sorted (map Start (r # rs))"
    by (simp add: sorted_wrt_map less_eq_prod_def) (auto elim!: sorted_wrt_mono_rel [rotated])
  moreover have "pu_normal ([] @ [r])" "pu_valid rs" using assms set by (auto simp: pu_normal_def pu_valid_def)
  ultimately have "pu_normal (foldl pu_add [r] rs) \<and> pu_set (foldl pu_add [r] rs) = pu_set [r] \<union> pu_set rs"
    using foldl_pu_add_ok [of "[]" r rs] by simp
  then show ?thesis using Cons set by (simp add: pu_Normalize_def pu_set_def)
qed

lemma pu_Ports_normal: "pu_normal u \<Longrightarrow> map unat (pu_Ports u) = sorted_list_of_set (pu_set u)"
proof -
  have range: "map unat (range_ports r) = [unat (Start r)..<Suc (unat (End r))]" for r
  proof -
    have "unat (word_of_nat i :: 16 word) = i" if "i \<le> unat (End r)" for i
      using that unsigned_less [of "End r", where ?'a = nat] by (simp add: unat_of_nat)
    then show ?thesis by (auto simp: range_ports_def o_def simp del: upt_Suc intro!: map_idI)
  qed
  assume "pu_normal u"
  then have "sorted_wrt (<) (map unat (pu_Ports u)) \<and> set (map unat (pu_Ports u)) = pu_set u"
  proof (induction u)
    case (Cons r u)
    have "x < y" if "x \<in> range_set r" "y \<in> pu_set u" for x y
      using that Cons.prems by (fastforce simp: pu_normal_def range_set_def pu_set_def)
    moreover have "map unat (pu_Ports (r # u)) = [unat (Start r)..<Suc (unat (End r))] @ map unat (pu_Ports u)"
      using range [of r] by (simp add: pu_Ports_def)
    moreover have "pu_normal u" using Cons.prems by (simp add: pu_normal_def pu_valid_def)
    ultimately show ?case using Cons.IH
      by (auto simp: sorted_wrt_append range_set_def pu_set_def simp del: upt_Suc)
  qed (simp add: pu_Ports_def pu_set_def)
  then show ?thesis by (metis sorted_list_of_set.idem_if_sorted_distinct strict_sorted_iff)
qed

subsection \<open>Parsing port lists\<close>

text \<open>A range as a user writes it: one port, or two ports in either order.\<close>

type_synonym port_spec = "16 word \<times> 16 word option"

fun spec_text :: "port_spec \<Rightarrow> string" where
  "spec_text (a, None) = Itoa (unat a)"
| "spec_text (a, Some b) = Itoa (unat a) @ ''-'' @ Itoa (unat b)"

fun spec_range :: "port_spec \<Rightarrow> PortRange" where
  "spec_range (a, None) = \<lparr>Start = a, End = a\<rparr>"
| "spec_range (a, Some b) = \<lparr>Start = min a b, End = max a b\<rparr>"

definition specs_text :: "port_spec list \<Rightarrow> string" where
  "specs_text ps = str_Join '','' (map spec_text ps)"

lemma Itoa_chars: "c \<in> set (Itoa n) \<Longrightarrow> is_hex c \<and> c \<notin> set ''.:%[]''"
  using format_uint_clean [of 10 c n] by simp

lemma not_hex: "\<not> is_hex (CHR ''-'')" "\<not> is_hex (CHR '','')" "\<not> is_hex (CHR ''l'')" "\<not> is_hex (CHR ''*'')"
  by code_simp+

lemma str_Split_none: "c \<notin> set s \<Longrightarrow> str_Split c s = [s]"
  by (induction s) auto

lemma str_Split_append: "c \<notin> set a \<Longrightarrow> str_Split c (a @ c # b) = a # str_Split c b"
  by (induction a) auto

lemma str_Split_Join:
  "xs \<noteq> [] \<Longrightarrow> \<forall>x \<in> set xs. c \<notin> set x \<Longrightarrow> str_Split c (str_Join [c] xs) = xs"
proof (induction xs)
  case (Cons x xs)
  then show ?case by (cases xs) (simp_all add: str_Split_none str_Split_append)
qed simp

lemma parse_range_spec: "parse_range (spec_text p) = Some (spec_range p)"
proof -
  have no: "CHR ''-'' \<notin> set (Itoa n)" for n using Itoa_chars not_hex(1) by blast
  show ?thesis
  proof (cases p)
    case (Pair a ob)
    show ?thesis
    proof (cases ob)
      case None
      with Pair no show ?thesis by (simp add: parse_range_def str_Contains_def)
    next
      case (Some b)
      have "str_Split (CHR ''-'') (Itoa (unat a) @ CHR ''-'' # Itoa (unat b)) = [Itoa (unat a), Itoa (unat b)]"
        using no by (simp add: str_Split_append str_Split_none)
      with Some Pair show ?thesis by (auto simp: parse_range_def str_Contains_def min_def max_def)
    qed
  qed
qed

lemma parse_ranges_spec: "parse_ranges (map spec_text ps) rs = Some (rs @ map spec_range ps)"
  by (induction ps arbitrary: rs) (simp_all add: parse_range_spec)

lemma spec_text_chars:
  assumes "c \<in> set (spec_text p)"
  shows "(is_hex c \<or> c = CHR ''-'') \<and> c \<notin> set '':[]''"
proof (cases p)
  case (Pair a ob)
  with assms show ?thesis using Itoa_chars [of c] by (cases ob) auto
qed

lemma specs_text_chars:
  assumes "c \<in> set (specs_text ps)"
  shows "(is_hex c \<or> c = CHR ''-'' \<or> c = CHR '','') \<and> c \<notin> set '':[]''"
proof (cases ps)
  case (Cons p qs)
  then have "c = CHR '','' \<or> (\<exists>q \<in> set ps. c \<in> set (spec_text q))" using assms by (auto simp: specs_text_def split: if_splits)
  then show ?thesis using spec_text_chars [of c] by auto
qed (use assms in \<open>simp add: specs_text_def\<close>)

lemma ParsePortUnion_specs:
  assumes "ps \<noteq> []"
  shows "ParsePortUnion (specs_text ps) = Some (pu_Normalize (map spec_range ps))"
proof -
  have "CHR '','' \<notin> set (spec_text p)" for p using spec_text_chars [of "CHR '',''" p] not_hex(2) by auto
  then have "str_Split (CHR '','') (specs_text ps) = map spec_text ps"
    using assms by (simp add: specs_text_def str_Split_Join)
  moreover have "CHR ''l'' \<notin> set (specs_text ps)" "CHR ''*'' \<notin> set (specs_text ps)"
    using specs_text_chars [of "CHR ''l''" ps] specs_text_chars [of "CHR ''*''" ps] not_hex by auto
  then have "specs_text ps \<noteq> ''all''" "specs_text ps \<noteq> ''*''" by auto
  ultimately show ?thesis using assms by (simp add: ParsePortUnion_def parse_ranges_spec)
qed

text \<open>
  \<open>Normalize\<close> keeps the set of ports, leaves ranges that are in order with at least one port between any two of
  them, also at 65535, and the ports it lists are exactly those of the union, each once, in increasing order.
\<close>

lemma pu_Normalize_correct:
  assumes "pu_valid u"
  shows "pu_normal (pu_Normalize u) \<and> pu_set (pu_Normalize u) = pu_set u \<and>
    map unat (pu_Ports (pu_Normalize u)) = sorted_list_of_set (pu_set u)"
  using pu_Normalize_ok [OF assms] pu_Ports_normal [of "pu_Normalize u"] by simp

text \<open>
  C26: An address with a list of ports and ranges, a range written in either order, is parsed to its host and to exactly the ports listed,
  each once, in increasing order.
\<close>

theorem ParseUDPHopAddr_ports:
  assumes "host_text host" "ps \<noteq> []"
  shows "\<exists>a. ParseUDPHopAddr (net_JoinHostPort host (specs_text ps)) = Inr a \<and> Host a = host \<and>
    IP a = net_ParseIP host \<and> PortStr a = specs_text ps \<and>
    map unat (Ports a) = sorted_list_of_set (pu_set (map spec_range ps))"
proof -
  have "port_text (specs_text ps)" using specs_text_chars [of _ ps] by (fastforce simp: port_text_def)
  note SplitHostPort_Join [OF assms(1) this]
  moreover have "pu_valid (map spec_range ps)"
  proof -
    have "Start (spec_range p) \<le> End (spec_range p)" for p
      by (cases p rule: spec_range.cases) (auto simp: min_def max_def)
    then show ?thesis by (simp add: pu_valid_def)
  qed
  then have "map unat (pu_Ports (pu_Normalize (map spec_range ps))) = sorted_list_of_set (pu_set (map spec_range ps))"
    using pu_Normalize_ok pu_Ports_normal by metis
  ultimately show ?thesis using ParsePortUnion_specs [OF assms(2)] by (simp add: ParseUDPHopAddr_def)
qed

theorem ParseUDPHopAddr_ports_witness:
  "\<exists>a. ParseUDPHopAddr (net_JoinHostPort ''host'' (specs_text [(9, Some 7), (8, None)])) = Inr a \<and> Host a = ''host'' \<and>
     map unat (Ports a) = sorted_list_of_set (pu_set (map spec_range [(9, Some 7), (8, None)]))"
proof -
  have "host_text ''host''" by (simp add: host_text_def)
  from ParseUDPHopAddr_ports [OF this, of "[(9, Some 7), (8, None)]"] show ?thesis by blast
qed

end
