(* ===== verification/Spec2Isabelle.thy ===== *)
theory Spec2Isabelle
  imports BandwidthSampler Pool TuicFrag HysteriaFrag UrlRound UrlResolve TrojanSession
    ReplayWindow UdpHop
begin

text \<open>
  \<^bold>\<open>A verification library for the outbound proxy protocols.\<close>

  The program is a Go library of outbound proxy protocols (TUIC, Hysteria 2, Shadowsocks, VMess, VLESS,
  Trojan, Juicity, AnyTLS, HTTP, SOCKS) with the transports and the congestion controllers they
  run on. A dialer parses a link (\<open>dialer/\<close>, \<open>common/url\<close>), opens connections through a stack of
  transports (\<open>transport/\<close>), and speaks a protocol over them (\<open>protocol/\<close>); buffers come from a pool
  (\<open>pool/\<close>). This library models the parts of it that compute: data structures, codecs, parsers,
  and the state machines behind them. Sockets, goroutines and cryptography stay outside.

  \<^bold>\<open>Conventions.\<close> A byte is an \<open>8 word\<close>, integers that can wrap keep their width, lengths and indices
  that cannot are \<open>nat\<close> or \<open>int\<close>. A Go struct is a record, a method that writes to its receiver returns
  the new record. Where an index, a slice bound or an explicit \<open>panic\<close> can stop the program
  the operation returns an option and \<open>None\<close> is the panic (in the URL parser it is the error
  \<open>IndexPanic\<close>); for a loop defined by \<^theory_text>\<open>partial_function\<close>, \<open>None\<close> is also not returning. Hence a
  theorem that concludes \<open>f x = Some y\<close> says that the call returns. A Go error is the left side of a sum. Pointers
  that the code compares, and buffers whose release matters, are numbers.

  \<^bold>\<open>Theories and sources.\<close>

  \<^item> \<open>Prelude\<close>, \<open>Io\<close>, \<open>Utf8\<close>, \<open>GoStrings\<close>: what the code uses of the language and of the packages \<open>io\<close>,
    \<open>encoding/binary\<close>, \<open>unicode/utf8\<close> and \<open>strings\<close>, and the contracts that several components implement,
    as locales: \<open>fifo\<close> (a queue), \<open>prefix_codec\<close> (a self-delimiting code) and \<open>exact_codec\<close> (a parser
    that accepts exactly the encodings of well-formed values).
  \<^item> \<open>RingBuffer\<close>, \<open>PacketQueue\<close>, \<open>WindowedFilter\<close>: \<open>protocol/tuic/congestion/bbr/ringbuffer.go\<close>,
    \<open>packet_number_indexed_queue.go\<close> and \<open>windowed_filter.go\<close>. The ring buffer interprets \<open>fifo\<close>; the packet queue
    over it refines a finite map from packet numbers, with an invariant of all reachable queues; the filter's
    best estimate is a sample of its window, at least every later one, and on a clock that does not run backwards a
    sample that tops the window before it is covered for a whole window.
  \<^item> \<open>BandwidthSampler\<close>: \<open>bandwidth.go\<close>, \<open>bandwidth_sampler.go\<close> and \<open>refsampler.go\<close> of the same directory, over those three. Send records live in
    the packet queue; an event marks and reclaims them. What is acked is counted, no operation panics within
    the slot budget, outstanding records survive every event, and the reported bandwidth covers the sample.
  \<^item> \<open>ByteBuffer\<close>, \<open>Pool\<close>: \<open>pool/bytes/buffer.go\<close> and \<open>pool/pool.go\<close>. Every method of the buffer, growing
    and its overflow included, against the bytes still unread; a source is
    drained completely. The pool returns slices of the length asked for, keeps the sizes of the arrays in each bucket within its
    bound, and picks the least bucket that fits; arrays are values, so which array a slice shares is not expressed.
  \<^item> \<open>TuicWire\<close>, \<open>TuicFrag\<close>: \<open>protocol/tuic/protocol.go\<close>, \<open>packet_parse.go\<close>, \<open>frag.go\<close> and the defragger
    buckets of \<open>packet.go\<close>. Serializers and parsers are inverse, the datagram and the stream parser accept
    exactly the encodings, the parser behind a command head agrees with them but for its panic on the longest domains,
    fragments arriving in any order are put together exactly, and every pooled slice is released once.
  \<^item> \<open>HysteriaWire\<close>, \<open>HysteriaFrag\<close>: \<open>protocol/hysteria2/internal/protocol/\<close> and \<open>internal/frag/frag.go\<close>.
    The variable-length integers come from a third-party package: its functions are parameters, its
    documented laws are the locale \<open>quicvarint\<close>, interpreted on RFC 9000's code.
  \<^item> \<open>UrlEscape\<close>, \<open>UrlParse\<close>, \<open>UrlRound\<close>, \<open>UrlQuery\<close>, \<open>UrlResolve\<close>: \<open>common/url/url.go\<close>. Escaping, parsing, printing,
    query values, reference resolution and joining; what is printed is parsed back, and a resolved or joined path has no dot
    segments, for joining as long as no escape hides a dot or a slash.
  \<^item> \<open>NetAddr\<close>, \<open>Metadata\<close>: what the code uses of \<open>strconv\<close>, \<open>net\<close> and \<open>net/netip\<close>, with printing and parsing of addresses
    inverse; and \<open>protocol/metadata.go\<close>, destinations and the bounded cache of resolved domains, whose resolver and
    clock are arguments and whose order of iteration is any permutation: an answer is at most 60 seconds old, and is kept
    that long unless 64 other domains come in between.
  \<^item> \<open>TrojanWire\<close>, \<open>TrojanSession\<close>: \<open>protocol/trojanc/addr.go\<close>, \<open>conn.go\<close>, \<open>packet.go\<close> and \<open>common/last_string_value.go\<close>. Reading through
    a connection is a state monad; the locale \<open>full_reader\<close> states what reading a number of bytes promises, and is interpreted on
    byte streams and on the connections of both sides. Every datagram written by a client is delivered by the server.

  \<^item> \<open>ReplayWindow\<close>: the sliding window filter of \<open>ciphers/aead_2022_cipher.go\<close>, a shifted bitmap refined to the set of accepted packet
    numbers: no number is accepted twice, and no fresh one within the window is refused.
  \<^item> \<open>UdpHop\<close>: \<open>protocol/hysteria2/udphop/addr.go\<close>. Port lists are parsed to a normal form that lists exactly their ports.

  \<^bold>\<open>Bounds and fuel.\<close> No definition uses fuel. Loops that recurse on a list or a counter are structural;
  cutting a string is by well-founded recursion on its length; the loops of the byte buffer, of the packet
  queue and of fragmentation are \<^theory_text>\<open>partial_function\<close>s whose theorems show that they return. Slices are shorter than
  \<open>2 ^ 63\<close>, as Go guarantees; a bound of the code (255 fragments, 2048 address bytes) is a branch of the model.

  \<^bold>\<open>Not modelled.\<close> Connections, listeners, timers, goroutines and locks (operations are taken one at a time, as
  their mutex makes them); the cryptography of TLS, AEAD and stream ciphers, and QUIC itself, which are library
  calls; floating-point arithmetic, and the senders of BBR, BBRv3 and Brutal and the pacer, which use it; generated protobuf
  code; logging and the text of error messages beyond their format string. Of the other protocols and transports
  nothing is translated, neither their connections nor the address and frame codecs they contain: VMess, VLESS,
  Shadowsocks, ShadowsocksR, AnyTLS, SOCKS, HTTP, Juicity, the dialers and the transports. The manifest lists
  them one by one.
\<close>

end
